(* ===== verification/Kronos_Prelude.thy ===== *)
theory Kronos_Prelude
  imports Main "HOL-Library.Word" "HOL-Library.List_Lexorder"
begin

text \<open>
  What every component shares: bytes and machine words, results that carry an error, the
  little-endian codec of src/src/sstable.cpp, the bounded reads its parsers are built from, and
  \<open>std::map\<close> as an association list in ascending key order.

  A \<open>std::string\<close> is a byte list. The order on byte lists is the lexicographic one of
  List_Lexorder over unsigned bytes, which is what \<open>std::string::operator<\<close> computes:
  \<open>char_traits<char>\<close> compares as unsigned char, and a proper prefix is smaller.
\<close>

unbundle bit_operations_syntax

named_theorems kronos_simps "unfolding rules of the small definitions shared by the components"

type_synonym byte = "8 word"
type_synonym bytes = "byte list"
type_synonym u32 = "32 word"
type_synonym u64 = "64 word"

section \<open>Results\<close>

text \<open>
  A call that may throw returns \<open>Inl e\<close> for the exception or \<open>Inr x\<close> for its value;
  \<open>bind_res\<close> is the sequencing of two such calls.
\<close>

fun bind_res :: "'e + 'a \<Rightarrow> ('a \<Rightarrow> 'e + 'b) \<Rightarrow> 'e + 'b" where
  "bind_res (Inl e) f = Inl e"
| "bind_res (Inr x) f = f x"

lemma bind_res_Inr_iff [simp]: "bind_res m f = Inr y \<longleftrightarrow> (\<exists>x. m = Inr x \<and> f x = Inr y)"
  by (cases m) auto

lemma bind_res_Inl_iff [simp]:
  "bind_res m f = Inl e \<longleftrightarrow> m = Inl e \<or> (\<exists>x. m = Inr x \<and> f x = Inl e)"
  by (cases m) auto

lemma bind_res_cong [fundef_cong]:
  "m = m' \<Longrightarrow> (\<And>x. m' = Inr x \<Longrightarrow> f x = g x) \<Longrightarrow> bind_res m f = bind_res m' g"
  by (cases m') auto

definition guard_res :: "bool \<Rightarrow> 'e \<Rightarrow> 'e + unit" where
  [kronos_simps]: "guard_res bad e = (if bad then Inl e else Inr ())"

lemma guard_res_Inr [simp]: "guard_res b e = Inr u \<longleftrightarrow> \<not> b"
  by (simp add: guard_res_def)

lemma guard_res_Inl [simp]: "guard_res b e = Inl e' \<longleftrightarrow> b \<and> e' = e"
  by (auto simp: guard_res_def)

section \<open>Words as numbers\<close>

lemma of_nat_unat_u32 [simp]: "of_nat (unat (w :: u32)) = w"
  by simp

lemma unat_u32_bound: "unat (w :: u32) < 2 ^ 32"
  using unsigned_less [of w] by simp

lemma unat_u64_bound: "unat (w :: u64) < 2 ^ 64"
  using unsigned_less [of w] by simp

text \<open>\<open>std::numeric_limits<uint64_t>::max()\<close>; every other value has a successor.\<close>

definition max_u64 :: u64 where "max_u64 = 0xFFFFFFFFFFFFFFFF"

lemma ucast_u32_of_nat: "(ucast (of_nat n :: u64) :: u32) = of_nat n"
  by (simp add: unsigned_of_nat word_of_nat_eq_iff take_bit_take_bit)

lemma max_u64_minus_one: "max_u64 = - 1"
  by (simp add: max_u64_def)

lemma unat_u64_inc: "b \<noteq> max_u64 \<Longrightarrow> unat (b + 1) = Suc (unat b)"
  using unatSuc [of b] by (simp add: max_u64_minus_one add.commute eq_neg_iff_add_eq_0)

lemma u64_less_inc: "b \<noteq> max_u64 \<Longrightarrow> b < b + 1"
  by (simp add: word_less_nat_alt unat_u64_inc)

lemma u64_less_inc_iff: "b \<noteq> max_u64 \<Longrightarrow> a < b + 1 \<longleftrightarrow> a \<le> b"
  by (auto simp: word_less_nat_alt word_le_nat_alt unat_u64_inc)

section \<open>Little-endian integers\<close>

text \<open>\<open>encode_to_le\<close> and \<open>decode_from_le\<close> are the templates of the same names; the
  width \<open>sizeof(T)\<close> is \<open>LENGTH('a) div 8\<close>.\<close>

definition encode_to_le :: "'a::len word \<Rightarrow> bytes" where
  "encode_to_le v = map (\<lambda>i. ucast (drop_bit (8 * i) v AND 0xFF)) [0..<LENGTH('a) div 8]"

definition decode_from_le :: "bytes \<Rightarrow> 'a::len word" where
  "decode_from_le arr =
     fold (\<lambda>i v. v OR push_bit (8 * i) (ucast (arr ! i))) [0..<LENGTH('a) div 8] 0"

lemma length_encode_to_le [simp]: "length (encode_to_le (v :: 'a::len word)) = LENGTH('a) div 8"
  by (simp add: encode_to_le_def)

lemma encode_to_le_not_Nil [simp]: "encode_to_le (v :: u32) \<noteq> []" "encode_to_le (w :: u64) \<noteq> []"
  by (simp_all flip: length_greater_0_conv)

lemma bit_fold_or:
  fixes v :: "'a::len word"
  shows "bit (fold (\<lambda>i v. v OR f i) is v) j \<longleftrightarrow> bit v j \<or> (\<exists>i\<in>set is. bit (f i) j)"
  by (induction "is" arbitrary: v) (auto simp: bit_simps)

lemma bit_FF: "bit (0xFF :: int) j \<longleftrightarrow> j < 8"
proof -
  have "(0xFF :: int) = mask 8" by (simp add: mask_eq_exp_minus_1)
  then show ?thesis by (simp only: bit_mask_iff) auto
qed

lemma decode_encode_le:
  fixes v :: "'a::len word"
  assumes "8 dvd LENGTH('a)"
  shows "decode_from_le (encode_to_le v @ rest) = v"
proof (rule bit_eqI)
  fix j assume "possible_bit TYPE('a word) j"
  then have j: "j < LENGTH('a)" by simp
  then have d: "j div 8 < LENGTH('a) div 8"
    using assms by (auto elim!: dvdE simp: less_mult_imp_div_less)
  have "bit (decode_from_le (encode_to_le v @ rest) :: 'a word) j
     \<longleftrightarrow> (\<exists>i<LENGTH('a) div 8. 8 * i \<le> j \<and> j - 8 * i < 8 \<and> bit v j)"
    unfolding decode_from_le_def encode_to_le_def bit_fold_or
    using j by (auto simp: bit_simps nth_append bit_FF Bex_def)
  also have "\<dots> \<longleftrightarrow> bit v j"
  proof
    assume "bit v j"
    moreover have "8 * (j div 8) \<le> j \<and> j - 8 * (j div 8) < 8" by presburger
    ultimately show "\<exists>i<LENGTH('a) div 8. 8 * i \<le> j \<and> j - 8 * i < 8 \<and> bit v j" using d by blast
  qed auto
  finally show "bit (decode_from_le (encode_to_le v @ rest) :: 'a word) j = bit v j" .
qed

lemmas decode_le32 [simp] = decode_encode_le [where 'a = 32, simplified]
lemmas decode_le64 [simp] = decode_encode_le [where 'a = 64, simplified]

lemma decode_le32_exact [simp]: "decode_from_le (encode_to_le (v :: u32)) = v"
  using decode_le32 [of v "[]"] by simp

lemma decode_le64_exact [simp]: "decode_from_le (encode_to_le (v :: u64)) = v"
  using decode_le64 [of v "[]"] by simp

lemma bit_decode_from_le:
  assumes "length arr = LENGTH('a) div 8" and "8 dvd LENGTH('a::len)"
  shows "bit (decode_from_le arr :: 'a word) j \<longleftrightarrow> j < LENGTH('a) \<and> bit (arr ! (j div 8)) (j mod 8)"
proof (cases "j < LENGTH('a)")
  case True
  then have d: "j div 8 < LENGTH('a) div 8"
    using assms(2) by (auto elim!: dvdE simp: less_mult_imp_div_less)
  have split: "8 * i \<le> j \<and> j - 8 * i < 8 \<longleftrightarrow> i = j div 8" for i
    by (auto simp: minus_mult_div_eq_mod intro!: div_nat_eqI [symmetric])
  have "bit (decode_from_le arr :: 'a word) j
     \<longleftrightarrow> (\<exists>i<LENGTH('a) div 8. 8 * i \<le> j \<and> j - 8 * i < 8 \<and> bit (arr ! i) (j - 8 * i))"
    unfolding decode_from_le_def bit_fold_or using True
    by (auto simp: bit_simps Bex_def) (use bit_imp_le_length in fastforce)
  also have "\<dots> \<longleftrightarrow> bit (arr ! (j div 8)) (j - 8 * (j div 8))"
    using d split by (metis (no_types, lifting))
  finally show ?thesis using True by (simp add: minus_mult_div_eq_mod)
next
  case False
  then show ?thesis using bit_imp_le_length by blast
qed

lemma encode_decode_le:
  assumes "length arr = LENGTH('a) div 8" and "8 dvd LENGTH('a::len)"
  shows "encode_to_le (decode_from_le arr :: 'a word) = arr"
proof (rule nth_equalityI)
  show "length (encode_to_le (decode_from_le arr :: 'a word)) = length arr" using assms(1) by simp
  fix i assume "i < length (encode_to_le (decode_from_le arr :: 'a word))"
  then have i: "i < LENGTH('a) div 8" by simp
  then have lt: "8 * i + j < LENGTH('a)" if "j < 8" for j using that by linarith
  have jd: "(8 * i + j) div 8 = i" "(8 * i + j) mod 8 = j" if "j < 8" for j using that by auto
  show "encode_to_le (decode_from_le arr :: 'a word) ! i = arr ! i"
  proof (rule bit_eqI)
    fix j assume "possible_bit TYPE(8 word) j"
    then have j: "j < 8" by simp
    have "bit (encode_to_le (decode_from_le arr :: 'a word) ! i) j
      \<longleftrightarrow> bit (decode_from_le arr :: 'a word) (8 * i + j)"
      using i j lt [OF j] by (auto simp: encode_to_le_def bit_simps bit_FF)
    also have "\<dots> \<longleftrightarrow> bit (arr ! i) j"
      using lt [OF j] jd [OF j] by (simp add: bit_decode_from_le [OF assms])
    finally show "bit (encode_to_le (decode_from_le arr :: 'a word) ! i) j = bit (arr ! i) j" .
  qed
qed

lemmas encode_decode_le32 = encode_decode_le [where 'a = 32, simplified]
lemmas encode_decode_le64 = encode_decode_le [where 'a = 64, simplified]

lemma encode_to_le_inject:
  fixes v w :: "'a::len word"
  assumes "8 dvd LENGTH('a)" and "encode_to_le v = encode_to_le w"
  shows "v = w"
  using decode_encode_le [OF assms(1), of v "[]"] decode_encode_le [OF assms(1), of w "[]"] assms(2)
  by simp

section \<open>Bounded reads\<close>

text \<open>
  The parsers keep a cursor into a payload and call \<open>require_bytes(count)\<close> before each
  read. Here the state of a parser is the rest of the payload from the cursor on, so that
  \<open>payload_size - cursor\<close> is its length. The value is always copied out of the bytes the
  check has covered.
\<close>

definition take_bytes :: "'e \<Rightarrow> nat \<Rightarrow> bytes \<Rightarrow> 'e + (bytes \<times> bytes)" where
  "take_bytes e n s = (if length s < n then Inl e else Inr (take n s, drop n s))"

definition take_le :: "'e \<Rightarrow> bytes \<Rightarrow> 'e + ('a::len word \<times> bytes)" where
  "take_le e s = bind_res (take_bytes e (LENGTH('a) div 8) s) (\<lambda>(b, s'). Inr (decode_from_le b, s'))"

lemma take_bytes_append [simp]: "length b = n \<Longrightarrow> take_bytes e n (b @ s) = Inr (b, s)"
  by (simp add: take_bytes_def)

lemma take_bytes_InrD:
  "take_bytes e n s = Inr (b, s') \<Longrightarrow> s = b @ s' \<and> length b = n"
  by (auto simp: take_bytes_def split: if_splits)

lemma take_bytes_short: "length s < n \<Longrightarrow> take_bytes e n s = Inl e"
  by (simp add: take_bytes_def)

lemma take_le32_append [simp]: "take_le e (encode_to_le (v :: u32) @ s) = Inr (v, s)"
  by (simp add: take_le_def)

lemma take_le64_append [simp]: "take_le e (encode_to_le (v :: u64) @ s) = Inr (v, s)"
  by (simp add: take_le_def)

lemma take_le_InrD:
  "take_le e s = Inr (v :: 'a::len word, s') \<Longrightarrow> \<exists>b. s = b @ s' \<and> length b = LENGTH('a) div 8"
  by (auto simp: take_le_def dest: take_bytes_InrD)

section \<open>Sequences of encoded items\<close>

text \<open>A counted loop that decodes one item per round.\<close>

fun decode_n :: "(bytes \<Rightarrow> 'e + ('a \<times> bytes)) \<Rightarrow> nat \<Rightarrow> bytes \<Rightarrow> 'e + ('a list \<times> bytes)" where
  "decode_n dec 0 s = Inr ([], s)"
| "decode_n dec (Suc n) s =
     bind_res (dec s) (\<lambda>(x, s').
     bind_res (decode_n dec n s') (\<lambda>(xs, s''). Inr (x # xs, s'')))"

lemma decode_n_length: "decode_n dec n s = Inr (xs, s') \<Longrightarrow> length xs = n"
  by (induction n arbitrary: s xs) auto

text \<open>
  The interface of an item format: what \<open>enc\<close> writes for an item it can represent, \<open>dec\<close>
  reads back, whatever follows it. Each on-disk record type interprets it.
\<close>

locale codec =
  fixes enc :: "'a \<Rightarrow> bytes"
    and dec :: "bytes \<Rightarrow> 'e + ('a \<times> bytes)"
    and representable :: "'a \<Rightarrow> bool"
  assumes dec_enc: "representable x \<Longrightarrow> dec (enc x @ rest) = Inr (x, rest)"
begin

lemma decode_n_enc:
  "list_all representable xs \<Longrightarrow>
   decode_n dec (length xs) (concat (map enc xs) @ rest) = Inr (xs, rest)"
  by (induction xs) (auto simp: dec_enc)

lemma enc_inject:
  assumes "representable x" "representable y" "enc x @ s = enc y @ t"
  shows "x = y \<and> s = t"
proof -
  have "Inr (x, s) = dec (enc x @ s)" using dec_enc [OF assms(1)] by simp
  also have "\<dots> = dec (enc y @ t)" using assms(3) by (rule arg_cong)
  also have "\<dots> = Inr (y, t)" using dec_enc [OF assms(2)] by simp
  finally show ?thesis by simp
qed

end

interpretation le32: codec "encode_to_le :: u32 \<Rightarrow> bytes" "take_le e" "\<lambda>_. True"
  by unfold_locales simp

interpretation le64: codec "encode_to_le :: u64 \<Rightarrow> bytes" "take_le e" "\<lambda>_. True"
  by unfold_locales simp

section \<open>std::map as an ascending association list\<close>

text \<open>\<open>m[k] = v\<close> and \<open>m.find(k)\<close> on a \<open>std::map\<close>; iteration order is list order.\<close>

abbreviation ascending :: "('k::linorder \<times> 'v) list \<Rightarrow> bool" where
  "ascending m \<equiv> sorted_wrt (<) (map fst m)"

fun map_store :: "'k::linorder \<Rightarrow> 'v \<Rightarrow> ('k \<times> 'v) list \<Rightarrow> ('k \<times> 'v) list" where
  "map_store k v [] = [(k, v)]"
| "map_store k v (p # m) =
     (if fst p < k then p # map_store k v m
      else if fst p = k then (k, v) # m
      else (k, v) # p # m)"

lemma map_of_map_store [simp]: "map_of (map_store k v m) = (map_of m)(k \<mapsto> v)"
  by (induction m) (auto simp: fun_eq_iff)

lemma set_map_fst_map_store [simp]: "fst ` set (map_store k v m) = insert k (fst ` set m)"
  by (induction m) auto

lemma ascending_map_store [simp, intro]:
  fixes m :: "('k::linorder \<times> 'v) list"
  shows "ascending m \<Longrightarrow> ascending (map_store k v m)"
proof (induction m)
  case (Cons p m)
  then show ?case by (cases "fst p < k") (auto intro: less_trans dest: not_less_iff_gr_or_eq [THEN iffD1])
qed simp

lemma ascending_distinct: "ascending m \<Longrightarrow> distinct (map fst m)"
  by (induction m) auto

lemma ascending_map_of_mem: "ascending m \<Longrightarrow> (k, v) \<in> set m \<longleftrightarrow> map_of m k = Some v"
  by (simp add: ascending_distinct map_of_eq_Some_iff)

lemma ascending_unique:
  fixes m m' :: "('k::linorder \<times> 'v) list"
  assumes "ascending m" "ascending m'" "map_of m = map_of m'"
  shows "m = m'"
proof -
  have "set m = set m'"
    using assms by (auto simp: ascending_map_of_mem)
  moreover have "sorted (map fst m)" "sorted (map fst m')"
    using assms(1,2) by (auto intro: strict_sorted_imp_sorted simp: strict_sorted_iff)
  ultimately show ?thesis
    using assms(1,2) map_sorted_distinct_set_unique [of fst m m']
    by (auto simp: strict_sorted_iff distinct_map intro: inj_onI)
qed

text \<open>The entries below a key, for scans that stop once they pass it.\<close>

lemma ascending_Cons_lookup:
  assumes "ascending (p # m)" and "k < fst p"
  shows "map_of (p # m) k = None"
proof -
  have "\<forall>q \<in> set m. fst p < fst q" using assms(1) by auto
  then have "k \<notin> fst ` set (p # m)" using assms(2) by auto
  then show ?thesis by (simp add: map_of_eq_None_iff)
qed

lemmas ascending_simps = map_of_map_store set_map_fst_map_store ascending_map_of_mem

end
