(* ===== verification/Kronos_Types.thy ===== *)
theory Kronos_Types
  imports Kronos_Prelude
begin

text \<open>
  The shared data types of include/kronos/types.hpp, the exceptions the components throw, paths
  as \<open>std::filesystem::path\<close> compares them, and the interface to zlib's \<open>crc32\<close>, which is
  not part of the repository and is therefore a parameter of every definition that uses it.
\<close>

section \<open>Operations, entries and lookup results\<close>

datatype operation_type = DELETE | PUT

record internal_entry =
  entry_value :: bytes
  entry_sequence :: u64
  entry_operation :: operation_type

datatype get_status = FOUND | DELETED | NOT_FOUND

record get_result =
  result_value :: bytes
  result_status :: get_status

text \<open>\<open>static_cast<uint8_t>(operation)\<close> and the reader's two comparisons with it.\<close>

fun operation_byte :: "operation_type \<Rightarrow> byte" where
  "operation_byte DELETE = 0"
| "operation_byte PUT = 1"

definition operation_of_byte :: "byte \<Rightarrow> operation_type option" where
  "operation_of_byte b =
     (if b = operation_byte DELETE then Some DELETE
      else if b = operation_byte PUT then Some PUT else None)"

lemma operation_of_byte_inverse [simp]: "operation_of_byte (operation_byte op) = Some op"
  by (cases op) (simp_all add: operation_of_byte_def)

text \<open>
  \<open>static_cast<OperationType>(operation_byte)\<close> in the iterator, which does not validate the byte.
  A value other than 0 and 1 differs from \<open>DELETE\<close> in every comparison the code makes, as
  \<open>PUT\<close> does; the builder never writes one.
\<close>

definition operation_cast :: "byte \<Rightarrow> operation_type" where
  "operation_cast b = (if b = operation_byte DELETE then DELETE else PUT)"

lemma operation_cast_inverse [simp]: "operation_cast (operation_byte op) = op"
  by (cases op) (simp_all add: operation_cast_def)

text \<open>
  The answer built from an optional entry, the same three branches in \<open>Memtable::get\<close>,
  \<open>SstableReader::get\<close> and \<open>KronosEngine::get\<close>.
\<close>

definition result_of_entry :: "internal_entry option \<Rightarrow> get_result" where
  "result_of_entry e =
     (case e of
        None \<Rightarrow> \<lparr>result_value = [], result_status = NOT_FOUND\<rparr>
      | Some e \<Rightarrow>
          (if entry_operation e = DELETE then \<lparr>result_value = [], result_status = DELETED\<rparr>
           else \<lparr>result_value = entry_value e, result_status = FOUND\<rparr>))"

section \<open>Exceptions\<close>

text \<open>The system calls of a log reclamation and of the publication of a table that have exceptions
  of their own.\<close>

datatype wal_call =
    Create_Temp_Log | Write_Temp_Log | Sync_Temp_Log | Close_Temp_Log | Replace_Log | Reopen_Log
  | Seek_Log | Sync_Log_Directory

datatype table_call =
    Create_Table | Write_Table | Sync_Table | Close_Table | Rename_Table | Sync_Table_Directory

text \<open>One constructor per throw statement that the models reach.\<close>

datatype (plugins only: code size) kerror =
    Wal_Magic_Unreadable | Wal_Invalid_Magic | Wal_Version_Unreadable | Wal_Unsupported_Version
  | Wal_Sequence_Exhausted | Wal_Record_Too_Large | Wal_Write_Failed | Wal_Fsync_Failed
  | Wal_Position_Beyond_File | Wal_Invalid_Operation | Wal_Crc_Mismatch
  | Wal_Non_Increasing u64 u64
  | Bloom_Zero_Argument | Bloom_Invalid_Persisted
  | Sst_Keys_Not_Increasing | Sst_Empty | Sst_Read_Failed | Sst_Invalid_Magic
  | Sst_Unsupported_Version | Sst_Footer_Seek | Sst_Footer_Checksum | Sst_Bloom_Size
  | Sst_Bloom_Checksum | Sst_Bloom_Metadata | Sst_Bloom_Bit_Count | Sst_Index_Size
  | Sst_Index_Crc | Sst_Index_Corrupted | Sst_Index_Entry_Count | Sst_Index_Trailing
  | Sst_Block_Corrupted | Sst_Block_Crc | Sst_Block_Record_Count | Sst_Block_Trailing
  | Sst_Block_Operation | Sst_Block_Size | Sst_Block_Range | Sst_Block_Empty
  | Sst_Iterator_Invalid | Sst_Unexpected_Eof | Sst_Seek_Failed | Sst_Open_Failed
  | Policy_Zero_Trigger | Policy_Invalid_L0_Range | Policy_Invalid_L1_Range
  | Compaction_No_Input | Compaction_Output_Exists | Compaction_Output_Is_Input
  | Manifest_Empty_Path | Manifest_Invalid_Range | Manifest_Invalid_Header
  | Manifest_Missing_Checkpoint | Manifest_Checkpoint_Header | Manifest_Checkpoint_Range
  | Manifest_Checkpoint_Value | Manifest_Malformed_Record | Manifest_Duplicate
  | Manifest_Malformed | Manifest_Unknown_Remove | Manifest_Duplicate_Add
  | Manifest_Checkpoint_Backwards | Manifest_Temp_Failed | Manifest_Commit_Failed
  | Manifest_Sync_Failed
  | Engine_Empty_Path | Engine_Memtable_Size | Engine_Memtable_Overflow
  | Engine_Shutting_Down | Engine_Background kerror | Engine_No_Active
  | Engine_Slot_Occupied | Engine_Freeze_Failed | Engine_Queue_Rejected
  | Engine_Write_Rejected | Engine_Mutable_Flush | Engine_Empty_Flush
  | Engine_Not_Current_Immutable | Engine_Missing_Sstable | Engine_Replay_Rejected
  | Engine_Empty_Metadata
  | Wal_Call_Failed wal_call | Sst_Call_Failed table_call

section \<open>Paths\<close>

text \<open>
  A path is its native string. \<open>operator==\<close> on \<open>std::filesystem::path\<close> compares the root
  directory and then the sequence of path elements, so repeated separators do not matter.
\<close>

type_synonym path = bytes

definition slash :: byte where "slash = 0x2F"

fun split_slash :: "path \<Rightarrow> bytes list" where
  "split_slash [] = [[]]"
| "split_slash (c # cs) =
     (if c = slash then [] # split_slash cs
      else (c # hd (split_slash cs)) # tl (split_slash cs))"

definition path_elements :: "path \<Rightarrow> bytes list" where
  "path_elements p =
     (let names = filter (\<lambda>n. n \<noteq> []) (split_slash p)
      in if names \<noteq> [] \<and> last p = slash then names @ [[]] else names)"

definition path_eq :: "path \<Rightarrow> path \<Rightarrow> bool" where
  "path_eq p q \<longleftrightarrow>
     (p \<noteq> [] \<and> hd p = slash) = (q \<noteq> [] \<and> hd q = slash) \<and> path_elements p = path_elements q"

lemma path_eq_refl [simp, intro]: "path_eq p p"
  by (simp add: path_eq_def)

lemma path_eq_sym: "path_eq p q \<Longrightarrow> path_eq q p"
  by (auto simp: path_eq_def)

lemma path_eq_trans: "path_eq p q \<Longrightarrow> path_eq q r \<Longrightarrow> path_eq p r"
  by (auto simp: path_eq_def)

section \<open>Table metadata, plans and edits\<close>

datatype sstable_metadata =
  Sstable_Metadata (md_path: path) (md_level: u64) (md_smallest: bytes) (md_largest: bytes)

text \<open>
  The order that \<open>sortMetadata\<close> and \<open>CompactionPolicy::pickCompaction\<close> sort by: level,
  then path string. The two key fields only break ties between entries with the same level and
  path, whose relative order \<open>std::sort\<close> leaves open.
\<close>

instantiation sstable_metadata :: linorder
begin

definition md_rank :: "sstable_metadata \<Rightarrow> bytes list" where
  "md_rank m = [md_path m, md_smallest m, md_largest m]"

definition less_eq_sstable_metadata :: "sstable_metadata \<Rightarrow> sstable_metadata \<Rightarrow> bool" where
  "a \<le> b \<longleftrightarrow> md_level a < md_level b \<or> md_level a = md_level b \<and> md_rank a \<le> md_rank b"

definition less_sstable_metadata :: "sstable_metadata \<Rightarrow> sstable_metadata \<Rightarrow> bool" where
  "a < b \<longleftrightarrow> md_level a < md_level b \<or> md_level a = md_level b \<and> md_rank a < md_rank b"

instance
proof
  fix a b c :: sstable_metadata
  show "(a < b) = (a \<le> b \<and> \<not> b \<le> a)"
    by (auto simp: less_sstable_metadata_def less_eq_sstable_metadata_def)
  show "a \<le> a" by (simp add: less_eq_sstable_metadata_def)
  show "a \<le> c" if "a \<le> b" "b \<le> c"
    using that by (auto simp: less_eq_sstable_metadata_def)
  show "a = b" if "a \<le> b" "b \<le> a"
    using that by (cases a; cases b) (auto simp: less_eq_sstable_metadata_def md_rank_def)
  show "a \<le> b \<or> b \<le> a" by (auto simp: less_eq_sstable_metadata_def)
qed

end

record compaction_result =
  result_input_files :: "path list"
  result_output_files :: "path list"

record manifest_edit =
  remove_files :: "path list"
  add_files :: "sstable_metadata list"
  edit_persisted_through :: "u64 option"

record compaction_plan =
  input_files :: "sstable_metadata list"
  output_level :: u64
  can_drop_tombstones :: bool

section \<open>Versions\<close>

text \<open>
  \<open>considerNewer\<close> of src/src/engine.cpp: a later candidate replaces the winner only when its
  sequence is strictly larger.
\<close>

fun consider_newer ::
  "internal_entry option \<Rightarrow> internal_entry option \<Rightarrow> internal_entry option" where
  "consider_newer w None = w"
| "consider_newer None (Some c) = Some c"
| "consider_newer (Some w) (Some c) = (if entry_sequence w < entry_sequence c then Some c else Some w)"

lemma consider_newer_None_left [simp]: "consider_newer None c = c"
  by (cases c) auto

lemma consider_newer_eq_None [simp]: "consider_newer w c = None \<longleftrightarrow> w = None \<and> c = None"
  by (cases w; cases c) auto

lemma consider_newer_assoc: "consider_newer (consider_newer a b) c = consider_newer a (consider_newer b c)"
  by (cases a; cases b; cases c) auto

section \<open>The checksum interface\<close>

text \<open>
  zlib's \<open>crc32(crc, buf, len)\<close> is the parameter \<open>crc\<close>: a running checksum and the next
  bytes give the updated checksum. \<open>crc32(0, Z_NULL, 0)\<close> is the initial value 0. The length
  argument is a 32-bit \<open>uInt\<close>, so a longer size is reduced modulo \<open>2 ^ 32\<close>, which
  \<open>crc32\<close> writes out. \<open>running_crc\<close> is zlib's documented law: feeding a buffer in two
  pieces gives the checksum of the whole.
\<close>

type_synonym crc_fn = "u32 \<Rightarrow> bytes \<Rightarrow> u32"

definition crc32 :: "crc_fn \<Rightarrow> u32 \<Rightarrow> bytes \<Rightarrow> u32" where
  "crc32 crc c bs = crc c (take (length bs mod 2 ^ 32) bs)"

definition running_crc :: "crc_fn \<Rightarrow> bool" where
  "running_crc crc \<longleftrightarrow> (\<forall>c xs ys. crc (crc c xs) ys = crc c (xs @ ys))"

lemma crc32_append:
  assumes "running_crc crc" and "length xs + length ys < 2 ^ 32"
  shows "crc32 crc (crc32 crc c xs) ys = crc32 crc c (xs @ ys)"
  using assms by (simp add: crc32_def running_crc_def)

text \<open>A concrete running checksum, for examples that evaluate: the sum of the bytes.\<close>

definition sum_crc :: crc_fn where
  "sum_crc c bs = fold (\<lambda>b a. a + ucast b) bs c"

lemma running_crc_sum_crc: "running_crc sum_crc"
  by (simp add: running_crc_def sum_crc_def)

end
