(* ===== verification/Wal.thy ===== *)
theory Wal
  imports Kronos_Types
begin

text \<open>
  The write-ahead log of src/src/wal.cpp: header, record format, append, recovery with repair of
  a torn tail, and reclamation. Integers are serialized in the host's native order, which is
  little-endian on the hosts the project targets. The state is the content of the file behind
  \<open>fd_\<close>, the descriptor's offset, and the sequence allocator.

  A read at the offset is a read from the front of the bytes that follow it, so recovery works
  on that rest; the offset is the file size minus the length of the rest. What a failing
  \<open>write\<close> or \<open>fsync\<close> leaves behind is an input of the append. Read errors and failing
  \<open>fstat\<close>/\<open>lseek\<close>/\<open>ftruncate\<close> are not modelled. Here a reclamation installs its file in one
  step; Wal_Reclaim has its system calls, and those of the creation.
\<close>

section \<open>State and format\<close>

record wal =
  wal_file :: bytes
  wal_pos :: nat
  next_sequence :: u64

record recovered_record =
  rec_sequence :: u64
  rec_operation :: operation_type
  rec_key :: bytes
  rec_value :: bytes

definition wal_magic :: bytes where "wal_magic = [0x4B, 0x52, 0x57, 0x4C]"
definition wal_version :: byte where "wal_version = 1"
definition wal_header :: bytes where "wal_header = wal_magic @ [wal_version]"

lemma length_wal_magic [simp]: "length wal_magic = 4"
  by (simp add: wal_magic_def)

lemma length_wal_header [simp]: "length wal_header = 5"
  by (simp add: wal_header_def)

text \<open>The bytes the checksum covers, and the whole record.\<close>

definition record_payload :: "recovered_record \<Rightarrow> bytes" where
  "record_payload r =
     encode_to_le (rec_sequence r) @ [operation_byte (rec_operation r)]
     @ encode_to_le (of_nat (length (rec_key r)) :: u32)
     @ encode_to_le (of_nat (length (rec_value r)) :: u32)
     @ rec_key r @ rec_value r"

definition wal_record :: "crc_fn \<Rightarrow> recovered_record \<Rightarrow> bytes" where
  "wal_record crc r = record_payload r @ encode_to_le (crc32 crc 0 (record_payload r))"

lemma length_record_payload [simp]:
  "length (record_payload r) = 17 + length (rec_key r) + length (rec_value r)"
  by (simp add: record_payload_def)

lemma length_wal_record [simp]:
  "length (wal_record crc r) = 21 + length (rec_key r) + length (rec_value r)"
  by (simp add: wal_record_def)

section \<open>Opening\<close>

text \<open>The file read by \<open>readUpTo\<close>: as many of the requested bytes as there are.\<close>

definition read_up_to :: "nat \<Rightarrow> bytes \<Rightarrow> bytes \<times> bytes" where
  "read_up_to n s = (take n s, drop n s)"

definition wal_open :: "bytes option \<Rightarrow> kerror + wal" where
  "wal_open existing =
     (case existing of
        None \<Rightarrow> Inr \<lparr>wal_file = wal_header, wal_pos = length wal_header, next_sequence = 0\<rparr>
      | Some f \<Rightarrow>
          let (magic_read, s) = read_up_to (length wal_magic) f
          in if length magic_read \<noteq> length wal_magic then Inl Wal_Magic_Unreadable
             else if magic_read \<noteq> wal_magic then Inl Wal_Invalid_Magic
             else
               let (version_read, s') = read_up_to 1 s
               in if length version_read \<noteq> 1 then Inl Wal_Version_Unreadable
                  else if version_read \<noteq> [wal_version] then Inl Wal_Unsupported_Version
                  else Inr \<lparr>wal_file = f, wal_pos = length f, next_sequence = 0\<rparr>)"

definition ensure_next_sequence_at_least :: "u64 \<Rightarrow> wal \<Rightarrow> wal" where
  "ensure_next_sequence_at_least n w = (if next_sequence w < n then w\<lparr>next_sequence := n\<rparr> else w)"

section \<open>Appending\<close>

text \<open>
  What the operating system does with the append: everything reaches the disk, the write loop
  fails after some bytes, or the bytes are written and \<open>fsync\<close> fails.
\<close>

datatype append_io = Io_Complete | Io_Write_Stops nat | Io_Fsync_Fails

definition write_at_pos :: "bytes \<Rightarrow> wal \<Rightarrow> wal" where
  "write_at_pos bs w =
     w\<lparr>wal_file := take (wal_pos w) (wal_file w) @ bs @ drop (wal_pos w + length bs) (wal_file w),
       wal_pos := wal_pos w + length bs\<rparr>"

definition write_record ::
  "crc_fn \<Rightarrow> append_io \<Rightarrow> operation_type \<Rightarrow> bytes \<Rightarrow> bytes \<Rightarrow> wal \<Rightarrow> (kerror + u64) \<times> wal" where
  "write_record crc io op key val w =
     (if next_sequence w = max_u64 then (Inl Wal_Sequence_Exhausted, w)
      else
        let sequence = next_sequence w
        in if 2 ^ 32 - 1 < length key \<or> 2 ^ 32 - 1 < length val then (Inl Wal_Record_Too_Large, w)
           else
             let record = wal_record crc
               \<lparr>rec_sequence = sequence, rec_operation = op, rec_key = key, rec_value = val\<rparr>
             in case io of
                  Io_Write_Stops n \<Rightarrow> (Inl Wal_Write_Failed, write_at_pos (take n record) w)
                | Io_Fsync_Fails \<Rightarrow> (Inl Wal_Fsync_Failed, write_at_pos record w)
                | Io_Complete \<Rightarrow>
                    (Inr sequence, (write_at_pos record w)\<lparr>next_sequence := sequence + 1\<rparr>))"

definition wal_put :: "crc_fn \<Rightarrow> append_io \<Rightarrow> bytes \<Rightarrow> bytes \<Rightarrow> wal \<Rightarrow> (kerror + u64) \<times> wal" where
  "wal_put crc io key val w = write_record crc io PUT key val w"

definition wal_remove :: "crc_fn \<Rightarrow> append_io \<Rightarrow> bytes \<Rightarrow> wal \<Rightarrow> (kerror + u64) \<times> wal" where
  "wal_remove crc io key w = write_record crc io DELETE key [] w"

section \<open>Recovery\<close>

text \<open>
  One round of the recovery loop reads a record from the rest of the file. It ends at a clean
  end of file, finds an incomplete record, throws, or yields the record. An error keeps the rest
  that was not read, for the descriptor's offset.
\<close>

datatype 'a parse = Parse_Eof | Parse_Torn | Parse_Error kerror bytes | Parse_Ok 'a bytes

fun bind_parse :: "'a parse \<Rightarrow> ('a \<Rightarrow> bytes \<Rightarrow> 'b parse) \<Rightarrow> 'b parse" where
  "bind_parse Parse_Eof f = Parse_Eof"
| "bind_parse Parse_Torn f = Parse_Torn"
| "bind_parse (Parse_Error e s) f = Parse_Error e s"
| "bind_parse (Parse_Ok x s) f = f x s"

lemma bind_parse_Ok_iff [simp]:
  "bind_parse p f = Parse_Ok y s \<longleftrightarrow> (\<exists>x s'. p = Parse_Ok x s' \<and> f x s' = Parse_Ok y s)"
  by (cases p) auto

text \<open>Steps 1 to 4: sequence, operation and the two lengths.\<close>

definition parse_fixed_fields :: "bytes \<Rightarrow> (u64 \<times> operation_type \<times> u32 \<times> u32) parse" where
  "parse_fixed_fields s =
     (let (seq_bytes, s1) = read_up_to 8 s
      in if length seq_bytes = 0 then Parse_Eof
         else if length seq_bytes \<noteq> 8 then Parse_Torn
         else
           let (op_bytes, s2) = read_up_to 1 s1
           in if length op_bytes \<noteq> 1 then Parse_Torn
              else
                case operation_of_byte (hd op_bytes) of
                  None \<Rightarrow> Parse_Error Wal_Invalid_Operation s2
                | Some op \<Rightarrow>
                    let (klen_bytes, s3) = read_up_to 4 s2
                    in if length klen_bytes \<noteq> 4 then Parse_Torn
                       else
                         let (vlen_bytes, s4) = read_up_to 4 s3
                         in if length vlen_bytes \<noteq> 4 then Parse_Torn
                            else Parse_Ok (decode_from_le seq_bytes, op,
                                   decode_from_le klen_bytes, decode_from_le vlen_bytes) s4)"

text \<open>Steps 5 to 9: the declared lengths against the bytes that remain, key, value, checksum.
  The three lengths are promoted to 64 bits before they are added, so the sum is exact.\<close>

definition parse_payload ::
  "crc_fn \<Rightarrow> u64 \<times> operation_type \<times> u32 \<times> u32 \<Rightarrow> bytes \<Rightarrow> recovered_record parse" where
  "parse_payload crc fixed s =
     (let (sequence, op, klen, vlen) = fixed;
          bytes_remaining = length s;
          required_bytes = unat klen + unat vlen + 4
      in if bytes_remaining < required_bytes then Parse_Torn
         else
           let (key, s1) = read_up_to (unat klen) s
           in if length key \<noteq> unat klen then Parse_Torn
              else
                let (val, s2) = read_up_to (unat vlen) s1
                in if length val \<noteq> unat vlen then Parse_Torn
                   else
                     let (crc_bytes, s3) = read_up_to 4 s2
                     in if length crc_bytes \<noteq> 4 then Parse_Torn
                        else
                          let record_bytes =
                                encode_to_le sequence @ [operation_byte op] @ encode_to_le klen
                                @ encode_to_le vlen @ key @ val
                          in if crc32 crc 0 record_bytes \<noteq> decode_from_le crc_bytes
                             then Parse_Error Wal_Crc_Mismatch s3
                             else Parse_Ok \<lparr>rec_sequence = sequence, rec_operation = op,
                                             rec_key = key, rec_value = val\<rparr> s3)"

definition parse_record :: "crc_fn \<Rightarrow> bytes \<Rightarrow> recovered_record parse" where
  "parse_record crc s = bind_parse (parse_fixed_fields s) (parse_payload crc)"

lemma parse_fixed_fields_OkD:
  "parse_fixed_fields s = Parse_Ok x s' \<Longrightarrow> length s = length s' + 17"
  by (auto simp: parse_fixed_fields_def read_up_to_def Let_def split: if_splits option.splits)

lemma parse_payload_OkD:
  "parse_payload crc x s = Parse_Ok r s' \<Longrightarrow> length s' < length s"
  by (cases x) (auto simp: parse_payload_def read_up_to_def Let_def split: if_splits)

lemma parse_record_shorter: "parse_record crc s = Parse_Ok r s' \<Longrightarrow> length s' < length s"
  by (auto simp: parse_record_def dest!: parse_fixed_fields_OkD parse_payload_OkD)

text \<open>How the loop ended: at the end of the file, at an incomplete record that starts at the
  given rest of the file, or by an exception with the given rest unread.\<close>

datatype scan_end = Scan_Clean | Scan_Torn bytes | Scan_Failed kerror bytes

function recover_loop ::
  "crc_fn \<Rightarrow> u64 option \<Rightarrow> u64 \<Rightarrow> recovered_record list \<Rightarrow> bytes \<Rightarrow>
   recovered_record list \<times> u64 \<times> scan_end" where
  "recover_loop crc previous next acc s =
     (case parse_record crc s of
        Parse_Eof \<Rightarrow> (acc, next, Scan_Clean)
      | Parse_Torn \<Rightarrow> (acc, next, Scan_Torn s)
      | Parse_Error e s' \<Rightarrow> (acc, next, Scan_Failed e s')
      | Parse_Ok r s' \<Rightarrow>
          (if \<exists>p\<in>set_option previous. rec_sequence r \<le> p
           then (acc, next, Scan_Failed (Wal_Non_Increasing (the previous) (rec_sequence r)) s')
           else if rec_sequence r = max_u64 then (acc, next, Scan_Failed Wal_Sequence_Exhausted s')
           else recover_loop crc (Some (rec_sequence r)) (rec_sequence r + 1) (acc @ [r]) s'))"
  by pat_completeness auto
termination
  by (relation "measure (\<lambda>(crc, previous, next, acc, s). length s)") (auto dest: parse_record_shorter)

declare recover_loop.simps [simp del]

definition wal_recover :: "crc_fn \<Rightarrow> wal \<Rightarrow> (kerror + recovered_record list) \<times> wal" where
  "wal_recover crc w =
     (let f = wal_file w;
          (records, next, end_state) =
            recover_loop crc None (next_sequence w) [] (drop (length wal_header) f)
      in case end_state of
           Scan_Clean \<Rightarrow> (Inr records, w\<lparr>wal_pos := length f, next_sequence := next\<rparr>)
         | Scan_Torn rest \<Rightarrow>
             let record_start = length f - length rest
             in (Inr records, w\<lparr>wal_file := take record_start f, wal_pos := record_start,
                                next_sequence := next\<rparr>)
         | Scan_Failed e rest \<Rightarrow>
             (Inl e, w\<lparr>wal_pos := length f - length rest, next_sequence := next\<rparr>))"

section \<open>Reclamation\<close>

text \<open>
  The replacement file keeps the records above the checkpoint. Its size checks repeat those of
  the append. The rename installs the new content in one step.
\<close>

fun rewrite_records :: "crc_fn \<Rightarrow> u64 \<Rightarrow> recovered_record list \<Rightarrow> kerror + bytes" where
  "rewrite_records crc checkpoint [] = Inr []"
| "rewrite_records crc checkpoint (r # rs) =
     (if rec_sequence r \<le> checkpoint then rewrite_records crc checkpoint rs
      else if 2 ^ 32 - 1 < length (rec_key r) \<or> 2 ^ 32 - 1 < length (rec_value r)
      then Inl Wal_Record_Too_Large
      else bind_res (rewrite_records crc checkpoint rs) (\<lambda>bs. Inr (wal_record crc r @ bs)))"

definition reclaim_through :: "crc_fn \<Rightarrow> u64 \<Rightarrow> wal \<Rightarrow> (kerror + unit) \<times> wal" where
  "reclaim_through crc checkpoint w =
     (let allocator_before_reclaim = next_sequence w;
          (res, w1) = wal_recover crc w
      in case res of
           Inl e \<Rightarrow> (Inl e, w1)
         | Inr records \<Rightarrow>
             let w2 = (if next_sequence w1 < allocator_before_reclaim
                       then w1\<lparr>next_sequence := allocator_before_reclaim\<rparr> else w1)
             in case rewrite_records crc checkpoint records of
                  Inl e \<Rightarrow> (Inl e, w2)
                | Inr bs \<Rightarrow>
                    (Inr (), w2\<lparr>wal_file := wal_header @ bs, wal_pos := length (wal_header @ bs)\<rparr>))"

end
