(* ===== verification/Wal_Recovery.thy ===== *)
theory Wal_Recovery
  imports Wal
begin

text \<open>
  Correctness of the log: the parser inverts the record format and recognises every incomplete
  record, so recovery returns exactly the records that were appended, repairs a torn tail, and
  whatever it returns is physically in the file.
\<close>

section \<open>Well-formed logs\<close>

definition record_ok :: "recovered_record \<Rightarrow> bool" where
  "record_ok r \<longleftrightarrow> length (rec_key r) < 2 ^ 32 \<and> length (rec_value r) < 2 ^ 32"

definition wf_log :: "recovered_record list \<Rightarrow> bool" where
  "wf_log rs \<longleftrightarrow>
     sorted_wrt (<) (map rec_sequence rs) \<and>
     list_all (\<lambda>r. record_ok r \<and> rec_sequence r \<noteq> max_u64) rs"

definition log_bytes :: "crc_fn \<Rightarrow> recovered_record list \<Rightarrow> bytes" where
  "log_bytes crc rs = concat (map (wal_record crc) rs)"

text \<open>The allocator position after a scan: one past the last record, if there is one.\<close>

definition next_after :: "u64 \<Rightarrow> recovered_record list \<Rightarrow> u64" where
  "next_after n rs = (if rs = [] then n else rec_sequence (last rs) + 1)"

lemma log_bytes_simps [simp]:
  "log_bytes crc [] = []"
  "log_bytes crc (r # rs) = wal_record crc r @ log_bytes crc rs"
  "log_bytes crc (rs @ rs') = log_bytes crc rs @ log_bytes crc rs'"
  by (simp_all add: log_bytes_def)

lemma next_after_simps [simp]:
  "next_after n [] = n"
  "next_after n (r # rs) = next_after (rec_sequence r + 1) rs"
  by (simp_all add: next_after_def)

lemma wf_log_Nil [simp]: "wf_log []"
  by (simp add: wf_log_def)

lemma wf_log_Cons [simp]:
  "wf_log (r # rs) \<longleftrightarrow>
     (\<forall>q\<in>set rs. rec_sequence r < rec_sequence q) \<and> record_ok r \<and> rec_sequence r \<noteq> max_u64 \<and> wf_log rs"
  by (auto simp: wf_log_def)

lemma wf_log_append:
  "wf_log (rs @ qs) \<longleftrightarrow>
     wf_log rs \<and> wf_log qs \<and> (\<forall>r\<in>set rs. \<forall>q\<in>set qs. rec_sequence r < rec_sequence q)"
  by (auto simp: wf_log_def sorted_wrt_append)

lemma wal_record_not_Nil [simp]: "wal_record crc r \<noteq> []"
  by (simp flip: length_greater_0_conv)

section \<open>The record parser\<close>

lemma read_up_to_append [simp]: "length b = n \<Longrightarrow> read_up_to n (b @ s) = (b, s)"
  by (simp add: read_up_to_def)

lemma parse_fixed_fields_append:
  "parse_fixed_fields
     (encode_to_le q @ operation_byte op # encode_to_le k @ encode_to_le v @ s) =
   Parse_Ok (q, op, k, v) s"
proof -
  have one: "read_up_to (Suc 0) (b # t) = ([b], t)" for b :: byte and t
    by (simp add: read_up_to_def)
  show ?thesis
    by (simp add: parse_fixed_fields_def Let_def one)
qed

lemma parse_payload_append:
  assumes "length key = unat klen" "length val = unat vlen"
  shows "parse_payload crc (q, op, klen, vlen)
      (key @ val @ encode_to_le (crc32 crc 0
         (encode_to_le q @ [operation_byte op] @ encode_to_le klen @ encode_to_le vlen @ key @ val)) @ s)
    = Parse_Ok \<lparr>rec_sequence = q, rec_operation = op, rec_key = key, rec_value = val\<rparr> s"
  using assms by (simp add: parse_payload_def Let_def)

lemma wal_record_layout:
  "wal_record crc r @ s =
     encode_to_le (rec_sequence r) @ operation_byte (rec_operation r)
     # encode_to_le (of_nat (length (rec_key r)) :: u32)
     @ encode_to_le (of_nat (length (rec_value r)) :: u32)
     @ rec_key r @ rec_value r @ encode_to_le (crc32 crc 0 (record_payload r)) @ s"
  by (simp add: wal_record_def record_payload_def)

lemma unat_length_u32: "length xs < 2 ^ 32 \<Longrightarrow> unat (of_nat (length xs) :: u32) = length xs"
  by (simp add: unat_of_nat)

lemma parse_record_append:
  assumes "record_ok r"
  shows "parse_record crc (wal_record crc r @ s) = Parse_Ok r s"
proof -
  have len: "length (rec_key r) = unat (of_nat (length (rec_key r)) :: u32)"
    "length (rec_value r) = unat (of_nat (length (rec_value r)) :: u32)"
    using assms by (simp_all add: record_ok_def unat_length_u32)
  show ?thesis
    unfolding parse_record_def wal_record_layout parse_fixed_fields_append bind_parse.simps
    using parse_payload_append [OF len, of crc "rec_sequence r" "rec_operation r" s]
    by (simp add: record_payload_def)
qed

text \<open>A record whose fixed part is complete but whose payload is not all there.\<close>

lemma parse_record_payload_short:
  assumes "record_ok r" and "17 \<le> n" and "n \<le> length (wal_record crc r)"
    and "n + length s < length (wal_record crc r)"
  shows "parse_record crc (take n (wal_record crc r) @ s) = Parse_Torn"
proof -
  define k :: u32 where "k = of_nat (length (rec_key r))"
  define v :: u32 where "v = of_nat (length (rec_value r))"
  define rest where "rest = rec_key r @ rec_value r @ encode_to_le (crc32 crc 0 (record_payload r))"
  have len: "unat k = length (rec_key r)" "unat v = length (rec_value r)"
    using assms(1) by (simp_all add: record_ok_def unat_length_u32 k_def v_def)
  define fixed where
    "fixed = encode_to_le (rec_sequence r) @ operation_byte (rec_operation r) # encode_to_le k @ encode_to_le v"
  have "wal_record crc r = fixed @ rest" "length fixed = 17"
    using wal_record_layout [of crc r "[]"] by (simp_all add: k_def v_def rest_def fixed_def)
  then have "take n (wal_record crc r) @ s = fixed @ (take (n - 17) rest @ s)"
    using assms(2) by simp
  then have "take n (wal_record crc r) @ s = encode_to_le (rec_sequence r)
      @ operation_byte (rec_operation r) # encode_to_le k @ encode_to_le v @ (take (n - 17) rest @ s)"
    by (simp add: fixed_def)
  moreover have "length (take (n - 17) rest @ s) < unat k + unat v + 4"
    using assms(2-4) by (simp add: len rest_def)
  ultimately show ?thesis
    by (simp add: parse_record_def parse_fixed_fields_append parse_payload_def)
qed

lemma parse_fixed_fields_short_lengths:
  "length t < 4 \<Longrightarrow> parse_fixed_fields (encode_to_le (q :: u64) @ operation_byte op # t) = Parse_Torn"
  "length t < 4 \<Longrightarrow>
   parse_fixed_fields (encode_to_le (q :: u64) @ operation_byte op # encode_to_le (k :: u32) @ t) = Parse_Torn"
proof -
  have one: "read_up_to (Suc 0) (b # t) = ([b], t)" for b :: byte and t
    by (simp add: read_up_to_def)
  have short: "length t < 4 \<Longrightarrow> read_up_to 4 t = (t, [])" for t
    by (simp add: read_up_to_def)
  show "length t < 4 \<Longrightarrow> parse_fixed_fields (encode_to_le (q :: u64) @ operation_byte op # t) = Parse_Torn"
    by (simp add: parse_fixed_fields_def Let_def one short)
  show "length t < 4 \<Longrightarrow>
     parse_fixed_fields (encode_to_le (q :: u64) @ operation_byte op # encode_to_le (k :: u32) @ t) = Parse_Torn"
    by (simp add: parse_fixed_fields_def Let_def one short)
qed

lemma parse_fixed_fields_short:
  assumes "0 < n" and "n < 17"
  shows "parse_fixed_fields (take n (wal_record crc r)) = Parse_Torn"
proof -
  define rest where "rest = rec_key r @ rec_value r @ encode_to_le (crc32 crc 0 (record_payload r))"
  define k :: u32 where "k = of_nat (length (rec_key r))"
  define v :: u32 where "v = of_nat (length (rec_value r))"
  define p1 where "p1 = encode_to_le (rec_sequence r) @ [operation_byte (rec_operation r)]"
  define p2 where "p2 = p1 @ encode_to_le k"
  have layout: "wal_record crc r = p1 @ encode_to_le k @ encode_to_le v @ rest"
    using wal_record_layout [of crc r "[]"] by (simp add: k_def v_def p1_def rest_def)
  have len: "length p1 = 9" "length p2 = 13" by (simp_all add: p1_def p2_def)
  consider "n < 8" | "n = 8" | "9 \<le> n" "n < 13" | "13 \<le> n" using assms by linarith
  then show ?thesis
  proof cases
    case 1
    with assms(1) show ?thesis
      by (simp add: parse_fixed_fields_def read_up_to_def Let_def min_def)
  next
    case 2
    then show ?thesis
      by (simp add: parse_fixed_fields_def read_up_to_def Let_def layout p1_def)
  next
    case 3
    define t where "t = take (n - 9) (encode_to_le k @ encode_to_le v @ rest)"
    have "take n (wal_record crc r) = p1 @ t" using 3 len by (simp add: layout t_def)
    moreover have "length t < 4" using 3 by (simp add: t_def)
    ultimately show ?thesis by (simp add: p1_def parse_fixed_fields_short_lengths)
  next
    case 4
    define t where "t = take (n - 13) (encode_to_le v @ rest)"
    have "wal_record crc r = p2 @ encode_to_le v @ rest" by (simp add: layout p2_def)
    then have "take n (wal_record crc r) = p2 @ t" using 4 len by (simp add: t_def)
    moreover have "length t < 4" using 4 assms(2) by (simp add: t_def)
    ultimately show ?thesis by (simp add: p2_def p1_def parse_fixed_fields_short_lengths)
  qed
qed

lemma parse_record_torn:
  assumes "record_ok r" and "n < length (wal_record crc r)"
  shows "parse_record crc (take n (wal_record crc r)) = (if n = 0 then Parse_Eof else Parse_Torn)"
proof -
  consider "n = 0" | "0 < n" "n < 17" | "17 \<le> n" by linarith
  then show ?thesis
  proof cases
    case 1
    then show ?thesis by (simp add: parse_record_def parse_fixed_fields_def read_up_to_def)
  next
    case 2
    then show ?thesis by (simp add: parse_record_def parse_fixed_fields_short)
  next
    case 3
    with assms show ?thesis
      using parse_record_payload_short [OF assms(1) 3, of crc "[]"] by simp
  qed
qed

section \<open>What the parser accepts\<close>

lemma read_up_to_eqD: "read_up_to n s = (b, s') \<Longrightarrow> length b = n \<Longrightarrow> s = b @ s'"
  by (metis append_take_drop_id prod.inject read_up_to_def)

lemma operation_of_byte_SomeD: "operation_of_byte b = Some op \<Longrightarrow> b = operation_byte op"
  by (auto simp: operation_of_byte_def split: if_splits)

lemma parse_fixed_fields_sound:
  assumes "parse_fixed_fields s = Parse_Ok (q, op, k, v) s'"
  shows "s = encode_to_le q @ operation_byte op # encode_to_le k @ encode_to_le v @ s'"
proof -
  obtain qb s1 where r1: "read_up_to 8 s = (qb, s1)" by fastforce
  obtain ob s2 where r2: "read_up_to 1 s1 = (ob, s2)" by fastforce
  obtain kb s3 where r3: "read_up_to 4 s2 = (kb, s3)" by fastforce
  obtain vb s4 where r4: "read_up_to 4 s3 = (vb, s4)" by fastforce
  note parsed = assms [unfolded parse_fixed_fields_def Let_def r1 r2 r3 r4 prod.case]
  have len: "length qb = 8" "length ob = 1" "length kb = 4" "length vb = 4"
    and op: "operation_of_byte (hd ob) = Some op"
    and vals: "q = decode_from_le qb" "k = decode_from_le kb" "v = decode_from_le vb" "s' = s4"
    using parsed by (auto simp: r2 [simplified] r3 r4 split: if_splits option.splits)
  have "ob = [operation_byte op]"
    using len(2) operation_of_byte_SomeD [OF op] by (cases ob) auto
  with vals read_up_to_eqD [OF r1] read_up_to_eqD [OF r2] read_up_to_eqD [OF r3] read_up_to_eqD [OF r4] len
  show ?thesis by (simp add: encode_decode_le32 encode_decode_le64)
qed

lemma parse_payload_sound:
  assumes "parse_payload crc (q, op, k, v) s = Parse_Ok r s'"
  shows "rec_sequence r = q \<and> rec_operation r = op \<and> length (rec_key r) = unat k \<and>
    length (rec_value r) = unat v \<and>
    s = rec_key r @ rec_value r @ encode_to_le (crc32 crc 0 (record_payload r)) @ s'"
proof -
  obtain kb s1 where r1: "read_up_to (unat k) s = (kb, s1)" by fastforce
  obtain vb s2 where r2: "read_up_to (unat v) s1 = (vb, s2)" by fastforce
  obtain cb s3 where r3: "read_up_to 4 s2 = (cb, s3)" by fastforce
  note parsed = assms [unfolded parse_payload_def Let_def prod.case r1 r2 r3]
  have len: "length kb = unat k" "length vb = unat v" "length cb = 4"
    and r: "r = \<lparr>rec_sequence = q, rec_operation = op, rec_key = kb, rec_value = vb\<rparr>" "s' = s3"
    and crc: "crc32 crc 0 (encode_to_le q @ [operation_byte op] @ encode_to_le k @ encode_to_le v @ kb @ vb)
      = decode_from_le cb"
    using parsed by (auto split: if_splits)
  have "record_payload r =
      encode_to_le q @ [operation_byte op] @ encode_to_le k @ encode_to_le v @ kb @ vb"
    using len by (simp add: record_payload_def r of_nat_unat_u32)
  with crc have "encode_to_le (crc32 crc 0 (record_payload r)) = cb"
    using len(3) by (simp add: encode_decode_le32)
  with r len read_up_to_eqD [OF r1] read_up_to_eqD [OF r2] read_up_to_eqD [OF r3]
  show ?thesis by simp
qed

lemma parse_record_sound:
  assumes "parse_record crc s = Parse_Ok r s'"
  shows "s = wal_record crc r @ s' \<and> record_ok r"
proof -
  obtain q op k v s1 where f: "parse_fixed_fields s = Parse_Ok (q, op, k, v) s1"
    and p: "parse_payload crc (q, op, k, v) s1 = Parse_Ok r s'"
    using assms by (auto simp: parse_record_def)
  note F = parse_fixed_fields_sound [OF f] and P = parse_payload_sound [OF p]
  have "unat k < 2 ^ 32" "unat v < 2 ^ 32" by (rule unat_u32_bound)+
  then have "record_ok r" using P by (simp add: record_ok_def)
  moreover have "of_nat (length (rec_key r)) = k" "of_nat (length (rec_value r)) = v"
    using P by (simp_all add: of_nat_unat_u32)
  ultimately show ?thesis using F P by (simp add: wal_record_layout)
qed

section \<open>The recovery loop\<close>

lemma parse_record_Nil [simp]: "parse_record crc [] = Parse_Eof"
  by (simp add: parse_record_def parse_fixed_fields_def read_up_to_def)

lemma recover_loop_ends:
  "parse_record crc s = Parse_Eof \<Longrightarrow> recover_loop crc prev next acc s = (acc, next, Scan_Clean)"
  "parse_record crc s = Parse_Torn \<Longrightarrow> recover_loop crc prev next acc s = (acc, next, Scan_Torn s)"
  "parse_record crc s = Parse_Error e s' \<Longrightarrow> recover_loop crc prev next acc s = (acc, next, Scan_Failed e s')"
  by (simp_all add: recover_loop.simps [of crc prev "next" acc s])

lemma recover_loop_log:
  assumes "wf_log rs" and "\<And>r p. r \<in> set rs \<Longrightarrow> prev = Some p \<Longrightarrow> p < rec_sequence r"
  shows "recover_loop crc prev next acc (log_bytes crc rs @ tail) =
    recover_loop crc (if rs = [] then prev else Some (rec_sequence (last rs)))
      (next_after next rs) (acc @ rs) tail"
  using assms
proof (induction rs arbitrary: prev "next" acc)
  case (Cons r rs)
  have "\<not> (\<exists>p\<in>set_option prev. rec_sequence r \<le> p)"
    using Cons.prems(2) [of r] by (cases prev) auto
  then have "recover_loop crc prev next acc (log_bytes crc (r # rs) @ tail) =
      recover_loop crc (Some (rec_sequence r)) (rec_sequence r + 1) (acc @ [r]) (log_bytes crc rs @ tail)"
    using Cons.prems(1) by (simp add: recover_loop.simps [of crc prev] parse_record_append)
  also have "\<dots> = recover_loop crc (if rs = [] then Some (rec_sequence r) else Some (rec_sequence (last rs)))
      (next_after (rec_sequence r + 1) rs) ((acc @ [r]) @ rs) tail"
    using Cons.prems(1) by (intro Cons.IH) auto
  finally show ?case by simp
qed simp

text \<open>The loop returns a well-formed log that is the front of the file, and says what follows.\<close>

lemma recover_loop_sound:
  assumes "recover_loop crc prev next acc s = (recs, next', end_state)"
  shows "\<exists>rs tail. recs = acc @ rs \<and> s = log_bytes crc rs @ tail \<and> wf_log rs
    \<and> (\<forall>r\<in>set rs. \<forall>p. prev = Some p \<longrightarrow> p < rec_sequence r)
    \<and> next' = next_after next rs
    \<and> (end_state = Scan_Clean \<longrightarrow> tail = []) \<and> (\<forall>t. end_state = Scan_Torn t \<longrightarrow> t = tail)"
  using assms
proof (induction crc prev "next" acc s rule: recover_loop.induct)
  case (1 crc prev "next" acc s)
  let ?Q = "\<lambda>rs tail. recs = acc @ rs \<and> s = log_bytes crc rs @ tail \<and> wf_log rs
    \<and> (\<forall>r\<in>set rs. \<forall>p. prev = Some p \<longrightarrow> p < rec_sequence r)
    \<and> next' = next_after next rs
    \<and> (end_state = Scan_Clean \<longrightarrow> tail = []) \<and> (\<forall>t. end_state = Scan_Torn t \<longrightarrow> t = tail)"
  note eq = "1.prems" [unfolded recover_loop.simps [of crc prev]]
  show ?case
  proof (cases "parse_record crc s")
    case Parse_Eof
    then have "s = []"
      by (auto simp: parse_record_def parse_fixed_fields_def parse_payload_def read_up_to_def Let_def
          split: if_splits option.splits)
    with Parse_Eof eq have "?Q [] []" by auto
    then show ?thesis by blast
  next
    case Parse_Torn
    with eq have "?Q [] s" by auto
    then show ?thesis by blast
  next
    case (Parse_Error e t)
    with eq have "?Q [] s" by auto
    then show ?thesis by blast
  next
    case (Parse_Ok r t)
    note snd = parse_record_sound [OF Parse_Ok]
    show ?thesis
    proof (cases "(\<exists>p\<in>set_option prev. rec_sequence r \<le> p) \<or> rec_sequence r = max_u64")
      case True
      with Parse_Ok eq have "?Q [] s" by (auto split: if_splits)
      then show ?thesis by blast
    next
      case False
      with Parse_Ok eq have "recover_loop crc (Some (rec_sequence r)) (rec_sequence r + 1) (acc @ [r]) t
          = (recs, next', end_state)" by simp
      from "1.IH" [OF Parse_Ok _ _ this] False obtain rs tail where
        "recs = (acc @ [r]) @ rs" "t = log_bytes crc rs @ tail" "wf_log rs"
        "\<forall>q\<in>set rs. rec_sequence r < rec_sequence q"
        "next' = next_after (rec_sequence r + 1) rs"
        "end_state = Scan_Clean \<longrightarrow> tail = []" "\<forall>t. end_state = Scan_Torn t \<longrightarrow> t = tail"
        by auto
      moreover have "\<forall>p. prev = Some p \<longrightarrow> p < rec_sequence r" using False by auto
      ultimately have "?Q (r # rs) tail" using snd False by (auto intro: less_trans)
      then show ?thesis by blast
    qed
  qed
qed

end
