(* ===== verification/Wal_Properties.thy ===== *)
theory Wal_Properties
  imports Wal_Log
begin

text \<open>
  The properties of the write-ahead log: recovery returns what was appended, a crash at any byte
  of an append is harmless, recovery of any file is sound, reclamation keeps what the checkpoint
  does not cover, and three failure cases that the code does not handle.
\<close>

text \<open>C18: Histories refine the abstract log. Starting from a newly created WAL, any sequence of
  appends, reclamations and restarts leaves a file from which a restart recovers exactly the
  records the abstract log holds; appends that the code rejects change nothing.\<close>
theorem wal_history_refines:
  "\<exists>w. wal_open None = Inr w \<and>
     fst (wal_restart crc
            (run_log (write_record crc Io_Complete) (reclaim_through crc) (wal_restart crc) cs w))
       = Inr (fst (spec_log cs ([], 0)))"
proof -
  let ?w = "\<lparr>wal_file = wal_header, wal_pos = length wal_header, next_sequence = 0\<rparr>"
  have "wal_ok crc ?w []" by (simp add: wal_ok_def)
  from wlog.restart_after_run [OF this, of cs] show ?thesis by (simp add: wal_open_def)
qed

text \<open>A log that the invariant describes is read back exactly: \<open>Wal::recover\<close> returns every
  record in order and leaves the file as it is; only the allocator is set to one past the last
  record.\<close>
theorem wal_recover_returns_log:
  "wal_ok crc w rs \<Longrightarrow>
   wal_recover crc w = (Inr rs, w\<lparr>next_sequence := next_after (next_sequence w) rs\<rparr>)"
  by (rule wal_ok_recover)

theorem wal_recover_returns_log_witness:
  "wal_recover sum_crc
     \<lparr>wal_file = wal_header @ log_bytes sum_crc [new_record PUT [1] [2, 3] 4, new_record DELETE [1] [] 7],
      wal_pos = 51, next_sequence = 9\<rparr> =
   (Inr [new_record PUT [1] [2, 3] 4, new_record DELETE [1] [] 7],
    \<lparr>wal_file = wal_header @ log_bytes sum_crc [new_record PUT [1] [2, 3] 4, new_record DELETE [1] [] 7],
     wal_pos = 51, next_sequence = 8\<rparr>)"
  using wal_recover_returns_log [of sum_crc
    "\<lparr>wal_file = wal_header @ log_bytes sum_crc [new_record PUT [1] [2, 3] 4, new_record DELETE [1] [] 7],
      wal_pos = 51, next_sequence = 9\<rparr>" "[new_record PUT [1] [2, 3] 4, new_record DELETE [1] [] 7]"]
  by (simp add: wal_ok_def fits_record_def max_u64_def)

text \<open>C19: An append is atomic under crashes. If only the first \<open>n\<close> bytes of the record reach the
  file, for any \<open>n\<close>, a restart recovers all earlier records, plus the new one exactly when the
  record is complete, and the repaired log satisfies the invariant again.\<close>
theorem wal_append_crash_atomic:
  fixes op :: operation_type
  assumes "wal_ok crc w rs" and "next_sequence w \<noteq> max_u64" and "fits_record key val"
    and "n \<le> length (wal_record crc (new_record op key val (next_sequence w)))"
  shows "\<exists>w'. wal_restart crc (snd (write_record crc (Io_Write_Stops n) op key val w)) =
      (Inr (if n = length (wal_record crc (new_record op key val (next_sequence w)))
            then rs @ [new_record op key val (next_sequence w)] else rs), w')
    \<and> wal_ok crc w' (if n = length (wal_record crc (new_record op key val (next_sequence w)))
            then rs @ [new_record op key val (next_sequence w)] else rs)"
proof -
  define r where "r = new_record op key val (next_sequence w)"
  define qs where "qs = (if n = length (wal_record crc r) then rs @ [r] else rs)"
  define tail where "tail = (if n = length (wal_record crc r) then [] else take n (wal_record crc r))"
  have w: "wal_file w = wal_header @ log_bytes crc rs" "wf_log rs"
    and below: "\<forall>q\<in>set rs. rec_sequence q < next_sequence w"
    using assms(1) by (auto simp: wal_ok_def)
  have wf: "wf_log qs" using w(2) below assms(2,3) by (auto simp: qs_def r_def wf_log_append)
  have content: "wal_file (snd (write_record crc (Io_Write_Stops n) op key val w))
      = wal_header @ log_bytes crc qs @ tail"
    using write_record_ok [OF assms(1-3), where io = "Io_Write_Stops n" and op = op] w(1)
    by (simp add: qs_def tail_def r_def)
  let ?w0 = "\<lparr>wal_file = wal_header @ log_bytes crc qs @ tail,
    wal_pos = length (wal_header @ log_bytes crc qs @ tail), next_sequence = 0\<rparr>"
  let ?w1 = "\<lparr>wal_file = wal_header @ log_bytes crc qs,
    wal_pos = length (wal_header @ log_bytes crc qs), next_sequence = next_after 0 qs\<rparr>"
  have "tail = [] \<or> parse_record crc tail = Parse_Torn"
    using parse_record_torn [of r n crc] assms(3,4) by (auto simp: tail_def r_def)
  then have "wal_recover crc ?w0 = (Inr qs, ?w1)"
    using wal_recover_log [of ?w0 crc qs] wal_recover_torn [of ?w0 crc qs tail] wf by auto
  moreover have "wal_ok crc ?w1 qs"
    using wf next_after_above [OF wf] by (auto simp: wal_ok_def)
  ultimately show ?thesis
    unfolding r_def [symmetric] qs_def [symmetric]
    by (simp add: wal_restart_def content wal_open_log)
qed

theorem wal_append_crash_atomic_witness:
  "\<exists>w'. wal_restart sum_crc (snd (write_record sum_crc (Io_Write_Stops 20) PUT [1] [2, 3]
          \<lparr>wal_file = wal_header, wal_pos = 5, next_sequence = 0\<rparr>)) = (Inr [], w')
     \<and> wal_ok sum_crc w' []"
  using wal_append_crash_atomic [of sum_crc "\<lparr>wal_file = wal_header, wal_pos = 5, next_sequence = 0\<rparr>"
      "[]" "[1]" "[2, 3]" 20 PUT]
  by (simp add: wal_ok_def fits_record_def max_u64_def)

text \<open>C21: Recovery is sound on every file. Whatever bytes an existing WAL holds, if it opens and
  recovery succeeds, the result is a well-formed log (strictly increasing sequences), the file
  left behind is exactly the image of that log, it is a prefix of the file that was there, the
  descriptor is at its end, and the allocator is above every recovered sequence.\<close>
theorem wal_recover_sound:
  assumes "wal_open (Some f) = Inr w" and "wal_recover crc w = (Inr rs, w')"
  shows "wal_ok crc w' rs \<and> (\<exists>tail. f = wal_file w' @ tail)"
proof -
  obtain s where s: "wal_file w = wal_header @ s" and n: "next_sequence w = 0"
    using wal_open_InrD [OF assms(1)] by auto
  have f: "wal_file w = f"
    using assms(1) by (auto simp: wal_open_def read_up_to_def Let_def split: if_splits)
  obtain recs nxt en where loop: "recover_loop crc None 0 [] s = (recs, nxt, en)"
    by (metis prod_cases3)
  from recover_loop_sound [OF loop] obtain tail where
    t: "s = log_bytes crc recs @ tail" "wf_log recs" "nxt = next_after 0 recs"
      "en = Scan_Clean \<longrightarrow> tail = []" "\<forall>t. en = Scan_Torn t \<longrightarrow> t = tail"
    by auto
  have "rs = recs \<and> wal_file w' = wal_header @ log_bytes crc recs
      \<and> wal_pos w' = length (wal_file w') \<and> next_sequence w' = next_after 0 recs"
    using assms(2) t s n loop
    by (cases en) (auto simp: wal_recover_def Let_def)
  then show ?thesis
    using t s f next_after_above [OF t(2)] by (auto simp: wal_ok_def)
qed

theorem wal_recover_sound_witness:
  "wal_ok sum_crc \<lparr>wal_file = wal_header, wal_pos = 5, next_sequence = 0\<rparr> []
   \<and> (\<exists>tail. wal_header @ [1, 2] = wal_header @ tail)"
proof -
  have o: "wal_open (Some (wal_header @ [1, 2])) =
      Inr \<lparr>wal_file = wal_header @ [1, 2], wal_pos = 7, next_sequence = 0\<rparr>"
    by (simp add: wal_open_log)
  have r: "wal_recover sum_crc \<lparr>wal_file = wal_header @ [1, 2], wal_pos = 7, next_sequence = 0\<rparr> =
      (Inr [], \<lparr>wal_file = wal_header, wal_pos = 5, next_sequence = 0\<rparr>)"
    using wal_recover_torn [of "\<lparr>wal_file = wal_header @ [1, 2], wal_pos = 7, next_sequence = 0\<rparr>" sum_crc "[]" "[1, 2]"]
    by (simp add: parse_record_def parse_fixed_fields_def read_up_to_def)
  show ?thesis using wal_recover_sound [OF o r] by simp
qed

text \<open>Genuine corruption is never repaired silently: when recovery throws, the file is what it
  was, byte for byte, and the exception is one of the four corruption reports.\<close>
theorem wal_recover_error_keeps_file:
  assumes "wal_recover crc w = (Inl e, w')"
  shows "wal_file w' = wal_file w \<and>
    (e = Wal_Invalid_Operation \<or> e = Wal_Crc_Mismatch \<or> e = Wal_Sequence_Exhausted
     \<or> (\<exists>p q. e = Wal_Non_Increasing p q \<and> q \<le> p))"
proof -
  have parse: "x = Wal_Invalid_Operation \<or> x = Wal_Crc_Mismatch"
    if "parse_record c s = Parse_Error x t" for c x s t
    using that
    by (cases "parse_fixed_fields s")
      (auto simp: parse_record_def parse_fixed_fields_def parse_payload_def Let_def split: if_splits option.splits prod.splits)
  have "x = Wal_Invalid_Operation \<or> x = Wal_Crc_Mismatch \<or> x = Wal_Sequence_Exhausted
      \<or> (\<exists>p q. x = Wal_Non_Increasing p q \<and> q \<le> p)"
    if "recover_loop c prev nxt acc s = (recs, nxt', Scan_Failed x t)" for c prev nxt acc s recs nxt' x t
    using that
  proof (induction c prev nxt acc s rule: recover_loop.induct)
    case (1 crc prev nxt acc s)
    note eq = "1.prems" [unfolded recover_loop.simps [of crc prev]]
    show ?case
      using eq "1.IH" by (cases "parse_record crc s") (auto split: if_splits dest: parse)
  qed
  then show ?thesis
    using assms by (auto simp: wal_recover_def Let_def split: prod.splits scan_end.splits)
qed

theorem wal_recover_error_keeps_file_witness:
  "wal_file (snd (wal_recover sum_crc
      \<lparr>wal_file = wal_header @ [0, 0, 0, 0, 0, 0, 0, 0, 7], wal_pos = 14, next_sequence = 0\<rparr>))
   = wal_header @ [0, 0, 0, 0, 0, 0, 0, 0, 7]"
proof -
  let ?w = "\<lparr>wal_file = wal_header @ [0, 0, 0, 0, 0, 0, 0, 0, 7], wal_pos = 14, next_sequence = 0\<rparr>"
  have "parse_record sum_crc [0, 0, 0, 0, 0, 0, 0, 0, 7] = Parse_Error Wal_Invalid_Operation []"
    by code_simp
  then have "wal_recover sum_crc ?w = (Inl Wal_Invalid_Operation, ?w)"
    by (simp add: wal_recover_def recover_loop.simps [of sum_crc None])
  from wal_recover_error_keeps_file [OF this] show ?thesis
    by (simp add: \<open>wal_recover sum_crc ?w = (Inl Wal_Invalid_Operation, ?w)\<close>)
qed

text \<open>Reclamation through a checkpoint removes exactly the records at or below it. It always
  succeeds on a valid log, the result is a valid log, and the allocator is not moved, although
  the inner recovery may have lowered it.\<close>
theorem wal_reclaim_exact:
  assumes "wal_ok crc w rs"
  shows "\<exists>w'. reclaim_through crc c w = (Inr (), w')
    \<and> wal_ok crc w' (filter (\<lambda>r. c < rec_sequence r) rs)
    \<and> next_sequence w' = next_sequence w"
  using reclaim_ok [OF assms, of c] wal_ok_reclaimed [OF assms] by simp

theorem wal_reclaim_exact_witness:
  "\<exists>w'. reclaim_through sum_crc 4
      \<lparr>wal_file = wal_header @ log_bytes sum_crc [new_record PUT [1] [2, 3] 4, new_record DELETE [1] [] 7],
       wal_pos = 51, next_sequence = 9\<rparr> = (Inr (), w')
    \<and> wal_ok sum_crc w' [new_record DELETE [1] [] 7] \<and> next_sequence w' = 9"
  using wal_reclaim_exact [of sum_crc
    "\<lparr>wal_file = wal_header @ log_bytes sum_crc [new_record PUT [1] [2, 3] 4, new_record DELETE [1] [] 7],
      wal_pos = 51, next_sequence = 9\<rparr>" "[new_record PUT [1] [2, 3] 4, new_record DELETE [1] [] 7]" 4]
  by (simp add: wal_ok_def fits_record_def max_u64_def)

text \<open>The append on every branch. An exhausted allocator or an oversized key or value is refused
  with the log untouched; otherwise the returned sequence is the allocator's, the allocator moves
  to the next value without wrapping, and the log gains exactly that record.\<close>
theorem wal_append_correct:
  fixes op :: operation_type
  assumes "wal_ok crc w rs"
  shows "(next_sequence w = max_u64 \<and> write_record crc Io_Complete op key val w = (Inl Wal_Sequence_Exhausted, w))
    \<or> (next_sequence w \<noteq> max_u64 \<and> \<not> fits_record key val
       \<and> write_record crc Io_Complete op key val w = (Inl Wal_Record_Too_Large, w))
    \<or> (next_sequence w \<noteq> max_u64 \<and> fits_record key val
       \<and> (\<exists>w'. write_record crc Io_Complete op key val w = (Inr (next_sequence w), w')
            \<and> wal_ok crc w' (rs @ [new_record op key val (next_sequence w)])
            \<and> unat (next_sequence w') = unat (next_sequence w) + 1))"
proof -
  consider "next_sequence w = max_u64" | "next_sequence w \<noteq> max_u64" "\<not> fits_record key val"
    | "next_sequence w \<noteq> max_u64" "fits_record key val" by blast
  then show ?thesis
  proof cases
    case 3
    then show ?thesis
      using write_record_ok [OF assms 3] wal_ok_append [OF assms 3] unat_u64_inc [OF 3(1)] by simp
  qed (auto simp: write_record_def fits_record_def Let_def)
qed

theorem wal_append_correct_witness:
  "\<exists>w'. write_record sum_crc Io_Complete PUT [1] [2, 3]
        \<lparr>wal_file = wal_header, wal_pos = 5, next_sequence = 0\<rparr> = (Inr 0, w')
      \<and> wal_ok sum_crc w' [new_record PUT [1] [2, 3] 0] \<and> unat (next_sequence w') = 1"
  using wal_append_correct [of sum_crc "\<lparr>wal_file = wal_header, wal_pos = 5, next_sequence = 0\<rparr>" "[]" PUT "[1]" "[2, 3]"]
  by (simp add: wal_ok_def fits_record_def max_u64_def)

section \<open>Failures that are not repaired\<close>

text \<open>A failed \<open>fsync\<close> poisons the log. The record stays in the file but the allocator is not
  advanced, so the next append, which succeeds and is acknowledged, reuses the sequence number;
  every later recovery then throws the non-increasing sequence error.\<close>
theorem wal_fsync_failure_poisons_log:
  assumes "wal_ok crc w rs" and "next_sequence w \<noteq> max_u64"
    and "fits_record k1 v1" and "fits_record k2 v2"
  shows "\<exists>w1 w2. write_record crc Io_Fsync_Fails op1 k1 v1 w = (Inl Wal_Fsync_Failed, w1)
    \<and> write_record crc Io_Complete op2 k2 v2 w1 = (Inr (next_sequence w), w2)
    \<and> fst (wal_restart crc w2) = Inl (Wal_Non_Increasing (next_sequence w) (next_sequence w))"
proof -
  let ?q = "next_sequence w"
  let ?r1 = "new_record op1 k1 v1 ?q" and ?r2 = "new_record op2 k2 v2 ?q"
  let ?f1 = "wal_file w @ wal_record crc ?r1"
  let ?w1 = "w\<lparr>wal_file := ?f1, wal_pos := length ?f1\<rparr>"
  let ?w2 = "?w1\<lparr>wal_file := ?f1 @ wal_record crc ?r2, wal_pos := length (?f1 @ wal_record crc ?r2),
    next_sequence := ?q + 1\<rparr>"
  have s1: "write_record crc Io_Fsync_Fails op1 k1 v1 w = (Inl Wal_Fsync_Failed, ?w1)"
    using write_record_ok [OF assms(1-3), where io = Io_Fsync_Fails] by simp
  have s2: "write_record crc Io_Complete op2 k2 v2 ?w1 = (Inr ?q, ?w2)"
    using write_record_at_end [of ?w1 k2 v2 crc Io_Complete op2] assms(2,4) by simp
  have "wal_file w = wal_header @ log_bytes crc rs" and wf: "wf_log (rs @ [?r1])"
    using assms by (auto simp: wal_ok_def wf_log_append)
  then have f2: "wal_file ?w2 = wal_header @ (log_bytes crc (rs @ [?r1]) @ wal_record crc ?r2)" by simp
  have "recover_loop crc None 0 [] (log_bytes crc (rs @ [?r1]) @ wal_record crc ?r2) =
      (rs @ [?r1], next_after 0 (rs @ [?r1]), Scan_Failed (Wal_Non_Increasing ?q ?q) [])"
    unfolding recover_scan [OF wf]
    using parse_record_append [of ?r2 crc "[]"] assms(4)
    by (simp add: recover_loop.simps [of crc "Some ?q"])
  then have "fst (wal_restart crc ?w2) = Inl (Wal_Non_Increasing ?q ?q)"
    by (simp only: wal_restart_def f2 wal_open_log) (simp add: wal_recover_def)
  with s1 s2 show ?thesis by blast
qed

theorem wal_fsync_failure_poisons_log_witness:
  "\<exists>w1 w2. write_record sum_crc Io_Fsync_Fails PUT [1] [2]
        \<lparr>wal_file = wal_header, wal_pos = 5, next_sequence = 0\<rparr> = (Inl Wal_Fsync_Failed, w1)
    \<and> write_record sum_crc Io_Complete PUT [1] [3] w1 = (Inr 0, w2)
    \<and> fst (wal_restart sum_crc w2) = Inl (Wal_Non_Increasing 0 0)"
  using wal_fsync_failure_poisons_log [of sum_crc
      "\<lparr>wal_file = wal_header, wal_pos = 5, next_sequence = 0\<rparr>" "[]" "[1]" "[2]" "[1]" "[3]" PUT PUT]
  by (simp add: wal_ok_def fits_record_def max_u64_def)

text \<open>C22: A failed write is not rolled back, and can swallow acknowledged writes. If the append loop
  fails after the fixed fields of a large record, a smaller record appended and acknowledged
  afterwards counts as the missing payload; the next recovery reports success, truncates at the
  failed record and silently loses the acknowledged one.\<close>
theorem wal_failed_write_loses_acknowledged:
  assumes "wal_ok crc w rs" and "next_sequence w \<noteq> max_u64"
    and "fits_record k1 v1" and "fits_record k2 v2" and "17 \<le> n"
    and "n + length (wal_record crc (new_record op2 k2 v2 (next_sequence w)))
         < length (wal_record crc (new_record op1 k1 v1 (next_sequence w)))"
  shows "\<exists>w1 w2. write_record crc (Io_Write_Stops n) op1 k1 v1 w = (Inl Wal_Write_Failed, w1)
    \<and> write_record crc Io_Complete op2 k2 v2 w1 = (Inr (next_sequence w), w2)
    \<and> fst (wal_restart crc w2) = Inr rs"
proof -
  let ?q = "next_sequence w"
  let ?r1 = "new_record op1 k1 v1 ?q" and ?r2 = "new_record op2 k2 v2 ?q"
  let ?f1 = "wal_file w @ take n (wal_record crc ?r1)"
  let ?w1 = "w\<lparr>wal_file := ?f1, wal_pos := length ?f1\<rparr>"
  let ?w2 = "?w1\<lparr>wal_file := ?f1 @ wal_record crc ?r2, wal_pos := length (?f1 @ wal_record crc ?r2),
    next_sequence := ?q + 1\<rparr>"
  let ?tail = "take n (wal_record crc ?r1) @ wal_record crc ?r2"
  have s1: "write_record crc (Io_Write_Stops n) op1 k1 v1 w = (Inl Wal_Write_Failed, ?w1)"
    using write_record_ok [OF assms(1-3), where io = "Io_Write_Stops n"] by simp
  have s2: "write_record crc Io_Complete op2 k2 v2 ?w1 = (Inr ?q, ?w2)"
    using write_record_at_end [of ?w1 k2 v2 crc Io_Complete op2] assms(2,4) by simp
  have f: "wal_file w = wal_header @ log_bytes crc rs" and wf: "wf_log rs"
    using assms(1) by (auto simp: wal_ok_def)
  then have f2: "wal_file ?w2 = wal_header @ (log_bytes crc rs @ ?tail)" by simp
  have torn: "parse_record crc ?tail = Parse_Torn"
    using assms(3,5,6) by (intro parse_record_payload_short) simp_all
  have "fst (wal_restart crc ?w2) = Inr rs"
    unfolding wal_restart_def f2 wal_open_log
    using wal_recover_torn [OF _ wf torn, of "\<lparr>wal_file = wal_header @ (log_bytes crc rs @ ?tail),
        wal_pos = length (wal_header @ (log_bytes crc rs @ ?tail)), next_sequence = 0\<rparr>"]
    by simp
  with s1 s2 show ?thesis by blast
qed

theorem wal_failed_write_loses_acknowledged_witness:
  "\<exists>w1 w2. write_record sum_crc (Io_Write_Stops 18) PUT [1] (replicate 60 7)
        \<lparr>wal_file = wal_header, wal_pos = 5, next_sequence = 0\<rparr> = (Inl Wal_Write_Failed, w1)
    \<and> write_record sum_crc Io_Complete PUT [1] [3] w1 = (Inr 0, w2)
    \<and> fst (wal_restart sum_crc w2) = Inr []"
  using wal_failed_write_loses_acknowledged [of sum_crc
      "\<lparr>wal_file = wal_header, wal_pos = 5, next_sequence = 0\<rparr>" "[]" "[1]" "replicate 60 7" "[1]" "[3]" 18 PUT PUT]
  by (simp add: wal_ok_def fits_record_def max_u64_def)

text \<open>A crash while a new WAL is being created leaves a file the next start refuses: with fewer
  than the five header bytes on disk, opening throws instead of finishing the header.\<close>
theorem wal_torn_header_refused:
  "n < 5 \<Longrightarrow> wal_open (Some (take n wal_header)) =
     Inl (if n < 4 then Wal_Magic_Unreadable else Wal_Version_Unreadable)"
proof -
  assume "n < 5"
  then consider "n = 0" | "n = 1" | "n = 2" | "n = 3" | "n = 4" by linarith
  then show ?thesis
    by cases (simp_all add: wal_open_def wal_header_def wal_magic_def read_up_to_def)
qed

theorem wal_torn_header_refused_witness:
  "wal_open (Some (take 2 wal_header)) = Inl Wal_Magic_Unreadable"
  using wal_torn_header_refused [of 2] by simp

end
