(* ===== verification/Memtable.thy ===== *)
theory Memtable
  imports Kronos_Types
begin

text \<open>
  The in-memory table of src/src/memtable.cpp: a \<open>std::map\<close> from keys to entries, its
  estimated memory use, and the one-way freeze. \<open>size_t\<close> arithmetic is on 64-bit words, so
  the estimates wrap exactly where the code's do. The three \<open>sizeof\<close> values are those of the
  64-bit libstdc++ ABI; the theorems do not depend on them.
\<close>

section \<open>State\<close>

datatype memtable_state = MT_IMMUTABLE | MT_MUTABLE

datatype write_result = WR_SUCCESS | WR_IMMUTABLE | WR_OLDER_SEQUENCE

record memtable =
  mtable :: "(bytes \<times> internal_entry) list"
  memory_usage :: u64
  target_bytes :: u64
  mt_state :: memtable_state

definition sizeof_string :: u64 where "sizeof_string = 32"
definition sizeof_entry :: u64 where "sizeof_entry = 48"
definition sizeof_pointer :: u64 where "sizeof_pointer = 8"

definition estimate_entry_size :: "bytes \<Rightarrow> internal_entry \<Rightarrow> u64" where
  "estimate_entry_size key e =
     (let estimated_node_overhead = 4 * sizeof_pointer
      in sizeof_string + sizeof_entry + of_nat (length key)
         + of_nat (length (entry_value e)) + estimated_node_overhead)"

definition memtable_new :: "u64 \<Rightarrow> memtable" where
  "memtable_new target =
     \<lparr>mtable = [], memory_usage = 0, target_bytes = target, mt_state = MT_MUTABLE\<rparr>"

section \<open>Operations\<close>

definition would_exceed_target :: "memtable \<Rightarrow> bytes \<Rightarrow> internal_entry \<Rightarrow> bool" where
  "would_exceed_target m key new_entry =
     (let new_size = estimate_entry_size key new_entry
      in case map_of (mtable m) key of
           Some old \<Rightarrow>
             (if entry_sequence new_entry \<le> entry_sequence old then False
              else
                let old_size = estimate_entry_size key old;
                    projected_usage = memory_usage m - old_size + new_size
                in target_bytes m < projected_usage)
         | None \<Rightarrow>
             let projected_usage = memory_usage m + new_size
             in target_bytes m < projected_usage)"

definition memtable_put :: "memtable \<Rightarrow> bytes \<Rightarrow> bytes \<Rightarrow> u64 \<Rightarrow> write_result \<times> memtable" where
  "memtable_put m key val seq =
     (if mt_state m \<noteq> MT_MUTABLE then (WR_IMMUTABLE, m)
      else
        let found = map_of (mtable m) key
        in if \<exists>old\<in>set_option found. seq \<le> entry_sequence old then (WR_OLDER_SEQUENCE, m)
           else
             let old_size = (case found of None \<Rightarrow> 0 | Some old \<Rightarrow> estimate_entry_size key old);
                 new_entry = \<lparr>entry_value = val, entry_sequence = seq, entry_operation = PUT\<rparr>;
                 new_size = estimate_entry_size key new_entry
             in (WR_SUCCESS,
                 m\<lparr>memory_usage := memory_usage m - old_size + new_size,
                   mtable := map_store key new_entry (mtable m)\<rparr>))"

definition memtable_remove :: "memtable \<Rightarrow> bytes \<Rightarrow> u64 \<Rightarrow> write_result \<times> memtable" where
  "memtable_remove m key seq =
     (if mt_state m \<noteq> MT_MUTABLE then (WR_IMMUTABLE, m)
      else
        let found = map_of (mtable m) key
        in if \<exists>old\<in>set_option found. seq \<le> entry_sequence old then (WR_OLDER_SEQUENCE, m)
           else
             let old_size = (case found of None \<Rightarrow> 0 | Some old \<Rightarrow> estimate_entry_size key old);
                 new_entry = \<lparr>entry_value = [], entry_sequence = seq, entry_operation = DELETE\<rparr>;
                 new_size = estimate_entry_size key new_entry
             in (WR_SUCCESS,
                 m\<lparr>memory_usage := memory_usage m - old_size + new_size,
                   mtable := map_store key new_entry (mtable m)\<rparr>))"

definition memtable_lookup :: "memtable \<Rightarrow> bytes \<Rightarrow> internal_entry option" where
  "memtable_lookup m key = map_of (mtable m) key"

definition memtable_get :: "memtable \<Rightarrow> bytes \<Rightarrow> get_result" where
  "memtable_get m key = result_of_entry (memtable_lookup m key)"

definition entry_count :: "memtable \<Rightarrow> nat" where
  "entry_count m = length (mtable m)"

definition memtable_freeze :: "memtable \<Rightarrow> bool \<times> memtable" where
  "memtable_freeze m =
     (if mt_state m = MT_MUTABLE then (True, m\<lparr>mt_state := MT_IMMUTABLE\<rparr>) else (False, m))"

text \<open>An iterator is the pair \<open>it_curr\<close>, \<open>it_end\<close>: the entries still to come.\<close>

type_synonym memtable_iterator = "(bytes \<times> internal_entry) list"

definition memtable_iterate :: "memtable \<Rightarrow> memtable_iterator" where
  "memtable_iterate m = mtable m"

fun mt_iter_valid :: "memtable_iterator \<Rightarrow> bool" where
  "mt_iter_valid [] = False"
| "mt_iter_valid (p # it) = True"

fun mt_iter_next :: "memtable_iterator \<Rightarrow> memtable_iterator" where
  "mt_iter_next [] = []"
| "mt_iter_next (p # it) = it"

section \<open>Invariant\<close>

text \<open>
  Keys ascend strictly (as in a \<open>std::map\<close>), and the running memory estimate is the sum of the
  estimates of the entries that are present, modulo \<open>2 ^ 64\<close>.
\<close>

definition memtable_inv :: "memtable \<Rightarrow> bool" where
  "memtable_inv m \<longleftrightarrow>
     ascending (mtable m)
     \<and> memory_usage m = (\<Sum>(k, e)\<leftarrow>mtable m. estimate_entry_size k e)"

lemma memtable_inv_new [simp, intro]: "memtable_inv (memtable_new t)"
  by (simp add: memtable_inv_def memtable_new_def)

lemma sum_list_map_store:
  fixes f :: "'k::linorder \<times> 'v \<Rightarrow> 'a::ab_group_add"
  assumes "ascending m"
  shows "sum_list (map f (map_store k v m)) =
    sum_list (map f m) - (case map_of m k of None \<Rightarrow> 0 | Some old \<Rightarrow> f (k, old)) + f (k, v)"
  using assms
proof (induction m)
  case (Cons p m)
  consider "fst p < k" | "fst p = k" | "k < fst p" by (rule linorder_less_linear [elim_format]) auto
  then show ?case
  proof cases
    case 1
    then have "fst p \<noteq> k" by simp
    with 1 Cons show ?thesis by (cases p) (simp add: algebra_simps)
  next
    case 2
    then show ?thesis by (cases p) simp
  next
    case 3
    then have "fst p \<noteq> k" "\<not> fst p < k" by auto
    with 3 show ?thesis using ascending_Cons_lookup [OF Cons.prems 3] by simp
  qed
qed simp

text \<open>The accepted write of both \<open>put\<close> and \<open>remove\<close>, in one shape.\<close>

definition written_entry :: "operation_type \<Rightarrow> bytes \<Rightarrow> u64 \<Rightarrow> internal_entry" where
  "written_entry op val seq =
     \<lparr>entry_value = (if op = PUT then val else []), entry_sequence = seq, entry_operation = op\<rparr>"

lemma written_entry_simps [simp]:
  "entry_sequence (written_entry op val seq) = seq"
  "entry_operation (written_entry op val seq) = op"
  by (simp_all add: written_entry_def)

definition memtable_write ::
  "operation_type \<Rightarrow> bytes \<Rightarrow> bytes \<Rightarrow> u64 \<Rightarrow> memtable \<Rightarrow> write_result \<times> memtable" where
  "memtable_write op key val seq m =
     (if op = PUT then memtable_put m key val seq else memtable_remove m key seq)"

definition accepts :: "memtable \<Rightarrow> bytes \<Rightarrow> u64 \<Rightarrow> bool" where
  "accepts m key seq \<longleftrightarrow>
     mt_state m = MT_MUTABLE
     \<and> (case memtable_lookup m key of None \<Rightarrow> True | Some old \<Rightarrow> entry_sequence old < seq)"

lemma memtable_write_accepted:
  assumes "accepts m key seq"
  shows "memtable_write op key val seq m =
    (WR_SUCCESS,
     m\<lparr>memory_usage := memory_usage m
         - (case map_of (mtable m) key of None \<Rightarrow> 0 | Some old \<Rightarrow> estimate_entry_size key old)
         + estimate_entry_size key (written_entry op val seq),
       mtable := map_store key (written_entry op val seq) (mtable m)\<rparr>)"
  using assms
  by (cases op)
    (auto simp: accepts_def memtable_lookup_def memtable_write_def memtable_put_def memtable_remove_def
      written_entry_def Let_def split: option.splits)

lemma memtable_write_rejected:
  assumes "\<not> accepts m key seq"
  shows "memtable_write op key val seq m =
    ((if mt_state m = MT_MUTABLE then WR_OLDER_SEQUENCE else WR_IMMUTABLE), m)"
  using assms
  by (cases op)
    (auto simp: accepts_def memtable_lookup_def memtable_write_def memtable_put_def memtable_remove_def
      Let_def split: option.splits)

lemma memtable_write_put: "memtable_put m key val seq = memtable_write PUT key val seq m"
  by (simp add: memtable_write_def)

lemma memtable_write_remove: "memtable_remove m key seq = memtable_write DELETE key val seq m"
  by (simp add: memtable_write_def)

lemma memtable_write_inv:
  assumes "memtable_inv m"
  shows "memtable_inv (snd (memtable_write op key val seq m))"
proof (cases "accepts m key seq")
  case True
  with assms show ?thesis
    by (auto simp: memtable_inv_def memtable_write_accepted
        sum_list_map_store [where f = "\<lambda>(k, e). estimate_entry_size k e"])
next
  case False
  with assms show ?thesis by (simp add: memtable_write_rejected)
qed

lemma memtable_write_lookup:
  "accepts m key seq \<Longrightarrow>
   memtable_lookup (snd (memtable_write op key val seq m)) =
     (memtable_lookup m)(key \<mapsto> written_entry op val seq)"
  by (simp add: memtable_write_accepted memtable_lookup_def fun_eq_iff)

lemma memtable_write_state [simp]:
  "mt_state (snd (memtable_write op key val seq m)) = mt_state m"
  "target_bytes (snd (memtable_write op key val seq m)) = target_bytes m"
  by (cases "accepts m key seq"; simp add: memtable_write_accepted memtable_write_rejected)+

lemma memtable_freeze_inv: "memtable_inv m \<Longrightarrow> memtable_inv (snd (memtable_freeze m))"
  by (simp add: memtable_freeze_def memtable_inv_def)

lemma memtable_freeze_lookup [simp]:
  "memtable_lookup (snd (memtable_freeze m)) = memtable_lookup m"
  "mtable (snd (memtable_freeze m)) = mtable m"
  by (simp_all add: memtable_freeze_def memtable_lookup_def fun_eq_iff)

section \<open>The store interface\<close>

text \<open>
  What recovery relies on: a store that is open accepts a write whose sequence is above every
  version it holds of that key, and then maps the key to the written entry.
\<close>

definition all_below :: "(bytes \<Rightarrow> internal_entry option) \<Rightarrow> nat \<Rightarrow> bool" where
  "all_below f n \<longleftrightarrow> (\<forall>key old. f key = Some old \<longrightarrow> unat (entry_sequence old) < n)"

lemma all_below_upd:
  "all_below f n \<Longrightarrow> n \<le> unat (entry_sequence e) \<Longrightarrow> all_below (f(key \<mapsto> e)) (Suc (unat (entry_sequence e)))"
  by (auto simp: all_below_def less_Suc_eq dest: less_le_trans)

locale versioned_store =
  fixes inv :: "'s \<Rightarrow> bool"
    and open_for_writes :: "'s \<Rightarrow> bool"
    and find :: "'s \<Rightarrow> bytes \<Rightarrow> internal_entry option"
    and store :: "operation_type \<Rightarrow> bytes \<Rightarrow> bytes \<Rightarrow> u64 \<Rightarrow> 's \<Rightarrow> write_result \<times> 's"
  assumes store_ok:
    "\<lbrakk>inv s; open_for_writes s; \<And>old. find s key = Some old \<Longrightarrow> entry_sequence old < seq\<rbrakk>
     \<Longrightarrow> fst (store op key val seq s) = WR_SUCCESS
       \<and> inv (snd (store op key val seq s))
       \<and> open_for_writes (snd (store op key val seq s))
       \<and> find (snd (store op key val seq s)) = (find s)(key \<mapsto> written_entry op val seq)"
begin

lemma store_fresh:
  assumes "inv s" "open_for_writes s" "all_below (find s) n" "n \<le> unat seq"
  shows "fst (store op key val seq s) = WR_SUCCESS"
    and "inv (snd (store op key val seq s))"
    and "open_for_writes (snd (store op key val seq s))"
    and "find (snd (store op key val seq s)) = (find s)(key \<mapsto> written_entry op val seq)"
    and "all_below (find (snd (store op key val seq s))) (Suc (unat seq))"
proof -
  have older: "entry_sequence old < seq" if "find s k = Some old" for k old
    using assms(3,4) that unfolding all_below_def by (meson less_le_trans word_less_nat_alt)
  have ok: "fst (store op key val seq s) = WR_SUCCESS
      \<and> inv (snd (store op key val seq s))
      \<and> open_for_writes (snd (store op key val seq s))
      \<and> find (snd (store op key val seq s)) = (find s)(key \<mapsto> written_entry op val seq)"
    using store_ok [OF assms(1,2), of key seq op val] older by blast
  show "fst (store op key val seq s) = WR_SUCCESS"
    and "inv (snd (store op key val seq s))"
    and "open_for_writes (snd (store op key val seq s))"
    and f: "find (snd (store op key val seq s)) = (find s)(key \<mapsto> written_entry op val seq)"
    using ok by blast+
  show "all_below (find (snd (store op key val seq s))) (Suc (unat seq))"
    unfolding f using all_below_upd [OF assms(3), of "written_entry op val seq" key] assms(4) by simp
qed

end

interpretation mt: versioned_store
  memtable_inv "\<lambda>m. mt_state m = MT_MUTABLE" memtable_lookup memtable_write
proof unfold_locales
  fix s key seq op val
  assume inv: "memtable_inv s" and st: "mt_state s = MT_MUTABLE"
    and older: "\<And>old. memtable_lookup s key = Some old \<Longrightarrow> entry_sequence old < seq"
  have acc: "accepts s key seq" using st older by (auto simp: accepts_def split: option.splits)
  show "fst (memtable_write op key val seq s) = WR_SUCCESS
      \<and> memtable_inv (snd (memtable_write op key val seq s))
      \<and> mt_state (snd (memtable_write op key val seq s)) = MT_MUTABLE
      \<and> memtable_lookup (snd (memtable_write op key val seq s)) =
          (memtable_lookup s)(key \<mapsto> written_entry op val seq)"
    using memtable_write_inv [OF inv] memtable_write_lookup [OF acc] st
    by (simp only: memtable_write_state) (simp add: memtable_write_accepted [OF acc])
qed

section \<open>Properties\<close>

text \<open>
  The specification of a versioned write: refused with the table untouched when the table is
  frozen or holds a version of the key that is not older, otherwise the key, and only that key,
  maps to the new version.
\<close>

definition write_outcome ::
  "memtable \<Rightarrow> bytes \<Rightarrow> internal_entry \<Rightarrow> write_result \<times> memtable \<Rightarrow> bool" where
  "write_outcome m key e res \<longleftrightarrow>
     (let (r, m') = res
      in if mt_state m \<noteq> MT_MUTABLE then r = WR_IMMUTABLE \<and> m' = m
         else if \<exists>old. memtable_lookup m key = Some old \<and> entry_sequence e \<le> entry_sequence old
         then r = WR_OLDER_SEQUENCE \<and> m' = m
         else r = WR_SUCCESS \<and> mt_state m' = MT_MUTABLE \<and> memtable_inv m'
           \<and> memtable_lookup m' = (memtable_lookup m)(key \<mapsto> e))"

lemma write_outcome_memtable_write:
  assumes "memtable_inv m"
  shows "write_outcome m key (written_entry op val seq) (memtable_write op key val seq m)"
proof (cases "accepts m key seq")
  case True
  obtain r m' where w: "memtable_write op key val seq m = (r, m')" by fastforce
  have "\<not> (\<exists>old. memtable_lookup m key = Some old \<and> seq \<le> entry_sequence old)" "mt_state m = MT_MUTABLE"
    using True by (auto simp: accepts_def)
  then show ?thesis
    using memtable_write_inv [OF assms, of op key val seq] memtable_write_lookup [OF True, of op val]
      memtable_write_state [of op key val seq m] memtable_write_accepted [OF True, of op val] w
    by (simp add: write_outcome_def del: memtable_write_state)
next
  case False
  then show ?thesis
    by (auto simp: write_outcome_def memtable_write_rejected accepts_def not_less split: option.splits)
qed

text \<open>C23: \<open>Memtable::put\<close> and \<open>Memtable::remove\<close> meet the specification of a versioned write on
  every branch and keep the table's invariant; a delete stores a tombstone with an empty value.\<close>
theorem memtable_writes_correct:
  "memtable_inv m \<Longrightarrow>
   write_outcome m key \<lparr>entry_value = val, entry_sequence = seq, entry_operation = PUT\<rparr>
     (memtable_put m key val seq)
   \<and> write_outcome m key \<lparr>entry_value = [], entry_sequence = seq, entry_operation = DELETE\<rparr>
     (memtable_remove m key seq)"
  using write_outcome_memtable_write [of m key PUT val seq] write_outcome_memtable_write [of m key DELETE "[]" seq]
  by (simp add: written_entry_def memtable_write_def)

theorem memtable_writes_correct_witness:
  "write_outcome (memtable_new 100) [1] \<lparr>entry_value = [2], entry_sequence = 5, entry_operation = PUT\<rparr>
     (memtable_put (memtable_new 100) [1] [2] 5)
   \<and> write_outcome (memtable_new 100) [1] \<lparr>entry_value = [], entry_sequence = 5, entry_operation = DELETE\<rparr>
     (memtable_remove (memtable_new 100) [1] 5)"
  by (rule memtable_writes_correct) simp

text \<open>The rotation test is exact. For a write the table would accept, \<open>would_exceed_target\<close>,
  called by the engine with the placeholder sequence \<open>UINT64_MAX\<close>, holds if and only if the
  memory estimate after the real write is above the target; replacing a key counts the old
  entry out.\<close>
theorem would_exceed_target_exact:
  "accepts m key seq \<Longrightarrow>
   would_exceed_target m key \<lparr>entry_value = val, entry_sequence = max_u64, entry_operation = PUT\<rparr>
   \<longleftrightarrow> target_bytes m < memory_usage (snd (memtable_put m key val seq))"
proof -
  assume acc: "accepts m key seq"
  have le: "x \<le> max_u64" for x :: u64 by (simp add: max_u64_minus_one)
  have older: "\<not> max_u64 \<le> entry_sequence old" if "map_of (mtable m) key = Some old" for old
    using acc that le [of seq] by (auto simp: accepts_def memtable_lookup_def not_le dest: less_le_trans)
  show ?thesis
    using older memtable_write_accepted [OF acc, of PUT val]
    by (auto simp: would_exceed_target_def memtable_write_put written_entry_def estimate_entry_size_def
        Let_def split: option.splits)
qed

theorem would_exceed_target_exact_witness:
  "would_exceed_target (memtable_new 100) [1] \<lparr>entry_value = [2], entry_sequence = max_u64, entry_operation = PUT\<rparr>
   \<longleftrightarrow> (100 :: u64) < memory_usage (snd (memtable_put (memtable_new 100) [1] [2] 5))"
  using would_exceed_target_exact [of "memtable_new 100" "[1]" 5 "[2]"]
  by (simp add: accepts_def memtable_new_def memtable_lookup_def)

lemma sum_estimates:
  "(\<Sum>(k, e)\<leftarrow>ps. estimate_entry_size k e) =
     of_nat (\<Sum>(k, e)\<leftarrow>ps. 112 + length k + length (entry_value e))"
  by (induction ps)
    (auto simp: estimate_entry_size_def sizeof_string_def sizeof_entry_def sizeof_pointer_def Let_def)

text \<open>While the true total stays below \<open>2 ^ 64\<close>, the memory estimate is the exact sum over the
  entries of their key length, value length and the fixed 112 bytes of overhead: the running
  subtraction and addition neither drift nor wrap.\<close>
theorem memory_usage_exact:
  assumes "memtable_inv m"
    and "(\<Sum>(k, e)\<leftarrow>mtable m. 112 + length k + length (entry_value e)) < 2 ^ 64"
  shows "unat (memory_usage m) = (\<Sum>(k, e)\<leftarrow>mtable m. 112 + length k + length (entry_value e))"
proof -
  have "memory_usage m = (\<Sum>(k, e)\<leftarrow>mtable m. estimate_entry_size k e)"
    using assms(1) by (simp add: memtable_inv_def)
  also have "\<dots> = of_nat (\<Sum>(k, e)\<leftarrow>mtable m. 112 + length k + length (entry_value e))"
    by (rule sum_estimates)
  finally show ?thesis using assms(2) by (simp add: unat_of_nat)
qed

theorem memory_usage_exact_witness:
  "unat (memory_usage (snd (memtable_put (memtable_new 100) [1] [2, 3] 5))) = 115"
proof -
  let ?m = "snd (memtable_put (memtable_new 100) [1] [2, 3] 5)"
  have m: "mtable ?m = [([1], \<lparr>entry_value = [2, 3], entry_sequence = 5, entry_operation = PUT\<rparr>)]"
    by (simp add: memtable_put_def memtable_new_def Let_def)
  have "memtable_inv ?m"
    using memtable_write_inv [OF memtable_inv_new, of PUT] by (simp add: memtable_write_put)
  from memory_usage_exact [OF this] show ?thesis by (simp add: m)
qed

end
