(* ===== verification/Murmur_Hash.thy ===== *)
theory Murmur_Hash
  imports Kronos_Prelude
begin

text \<open>
  \<open>MurmurHash3_x86_32\<close> of src/src/third_party/murmurhash3/MurmurHash3.cpp, the only variant
  the engine calls. 32-bit arithmetic wraps on the word type. \<open>getblock32\<close> reads a
  \<open>uint32_t\<close> from memory, little-endian on the hosts the project names. The \<open>int\<close>
  length is the number of bytes, so the model is the code for keys below \<open>2 ^ 31\<close> bytes.
\<close>

definition rotl32 :: "u32 \<Rightarrow> nat \<Rightarrow> u32" where
  "rotl32 x r = push_bit r x OR drop_bit (32 - r) x"

definition getblock32 :: "bytes \<Rightarrow> u32" where
  "getblock32 = decode_from_le"

definition fmix32 :: "u32 \<Rightarrow> u32" where
  "fmix32 h0 =
     (let h1 = h0 XOR drop_bit 16 h0;
          h2 = h1 * 0x85ebca6b;
          h3 = h2 XOR drop_bit 13 h2;
          h4 = h3 * 0xc2b2ae35
      in h4 XOR drop_bit 16 h4)"

text \<open>The scrambling of one block: \<open>k1 *= c1; k1 = ROTL32(k1,15); k1 *= c2\<close>.\<close>

definition murmur_scramble :: "u32 \<Rightarrow> u32" where
  "murmur_scramble k1 = rotl32 (k1 * 0xcc9e2d51) 15 * 0x1b873593"

text \<open>The loop over whole blocks; the bytes that are left are the tail.\<close>

fun murmur_body :: "u32 \<Rightarrow> bytes \<Rightarrow> u32 \<times> bytes" where
  "murmur_body h1 (b0 # b1 # b2 # b3 # rest) =
     murmur_body (rotl32 (h1 XOR murmur_scramble (getblock32 [b0, b1, b2, b3])) 13 * 5 + 0xe6546b64) rest"
| "murmur_body h1 tail = (h1, tail)"

text \<open>The tail \<open>switch\<close> with its fall-through cases.\<close>

definition murmur_tail :: "u32 \<Rightarrow> bytes \<Rightarrow> u32" where
  "murmur_tail h1 tail =
     (let k0 = (0 :: u32);
          k1 = (if length tail \<ge> 3 then k0 XOR push_bit 16 (ucast (tail ! 2)) else k0);
          k2 = (if length tail \<ge> 2 then k1 XOR push_bit 8 (ucast (tail ! 1)) else k1);
          k3 = (if length tail \<ge> 1 then k2 XOR ucast (tail ! 0) else k2)
      in if length tail \<ge> 1 then h1 XOR murmur_scramble k3 else h1)"

definition murmur3_x86_32 :: "bytes \<Rightarrow> u32 \<Rightarrow> u32" where
  "murmur3_x86_32 key seed =
     (let (h1, tail) = murmur_body seed key
      in fmix32 (murmur_tail h1 tail XOR of_nat (length key)))"

text \<open>The body consumes all whole blocks: at most three bytes are left for the tail.\<close>

lemma murmur_body_tail: "murmur_body h key = (h', tail) \<Longrightarrow> length tail = length key mod 4"
  by (induction h key rule: murmur_body.induct) auto

text \<open>Known answers of the reference implementation.\<close>

lemma murmur3_empty: "murmur3_x86_32 [] 0 = 0"
  by code_simp

lemma murmur3_abc: "murmur3_x86_32 [0x61, 0x62, 0x63] 0x9747b28c = 0xC84A62DD"
  by code_simp

lemma murmur3_hello: "murmur3_x86_32 [0x68, 0x65, 0x6c, 0x6c, 0x6f] 0 = 0x248BFA47"
  by code_simp

end
