(* ===== verification/Double_Arithmetic.thy ===== *)
theory Double_Arithmetic
  imports Main
begin

text \<open>
  The part of IEEE 754 binary64 arithmetic that src/src/bloom_filter.cpp and src/src/bench.cpp
  compute with: non-negative values, multiplication, division, conversion from an integer and
  rounding to an integer. A double is a pair of a significand and an exponent \<open>(m, e)\<close> that
  stands for $m \cdot 2^e$. Every operation computes the exact result as such a pair and rounds
  the significand to 53 bits, to nearest with ties to even. Infinities appear only as a division
  by zero (\<open>None\<close>); the values of the program stay far from overflow and from subnormal
  numbers, which have no model here.
\<close>

section \<open>Rounding\<close>

type_synonym double = "nat \<times> int"

fun bit_len :: "nat \<Rightarrow> nat" where
  "bit_len n = (if n = 0 then 0 else Suc (bit_len (n div 2)))"

declare bit_len.simps [simp del]

text \<open>$x / 2^d$ rounded to the nearest integer, a tie to the even one.\<close>

definition round_even :: "nat \<Rightarrow> nat \<Rightarrow> nat" where
  "round_even x d =
     (let q = x div 2 ^ d; r = x mod 2 ^ d
      in if 2 ^ d < 2 * r \<or> (2 * r = 2 ^ d \<and> odd q) then q + 1 else q)"

definition rounded :: "nat \<Rightarrow> int \<Rightarrow> double" where
  "rounded m e = (round_even m (bit_len m - 53), e + int (bit_len m - 53))"

section \<open>Operations\<close>

definition double_of :: "nat \<Rightarrow> double" where
  "double_of n = rounded n 0"

fun double_times :: "double \<Rightarrow> double \<Rightarrow> double" where
  "double_times (m, e) (m', e') = rounded (m * m') (e + e')"

text \<open>The quotient is computed to at least 55 bits, with one more bit that is set when the
  division leaves a remainder, so that it rounds like the exact quotient.\<close>

fun double_divide :: "double \<Rightarrow> double \<Rightarrow> double option" where
  "double_divide (m, e) (m', e') =
     (if m' = 0 then None
      else
        let k = 55 + bit_len m' - bit_len m; q = m * 2 ^ k div m'; sticky = (if m * 2 ^ k mod m' = 0 then 0 else 1)
        in Some (rounded (2 * q + sticky) (e - e' - int k - 1)))"

text \<open>A decimal literal $a / b$ is the nearest double.\<close>

definition double_literal :: "nat \<Rightarrow> nat \<Rightarrow> double" where
  "double_literal a b = the (double_divide (a, 0) (b, 0))"

text \<open>\<open>std::ceil\<close> and \<open>std::round\<close>, which rounds halves up.\<close>

fun double_ceil :: "double \<Rightarrow> nat" where
  "double_ceil (m, e) = (if 0 \<le> e then m * 2 ^ nat e else (m + (2 ^ nat (- e) - 1)) div 2 ^ nat (- e))"

fun double_round :: "double \<Rightarrow> nat" where
  "double_round (m, e) = (if 0 \<le> e then m * 2 ^ nat e else (2 * m + 2 ^ nat (- e)) div 2 ^ nat (1 - e))"

section \<open>The size of a number in bits\<close>

lemma bit_len_0 [simp]: "bit_len 0 = 0" and bit_len_eq_0_iff [simp]: "bit_len n = 0 \<longleftrightarrow> n = 0"
  by (simp_all add: bit_len.simps)

lemma bit_len_numeral [simp]: "bit_len (Suc 0) = 1" "bit_len (numeral k) = Suc (bit_len (numeral k div 2))"
  by (simp_all add: bit_len.simps [of "Suc 0"] bit_len.simps [of "numeral k"])

lemma less_two_power_bit_len: "n < 2 ^ bit_len n"
proof (induction n rule: bit_len.induct)
  case (1 n)
  then show ?case by (cases "n = 0") (auto simp: bit_len.simps [of n])
qed

lemma two_power_bit_len_le: "0 < n \<Longrightarrow> 2 ^ (bit_len n - 1) \<le> n"
proof (induction n rule: bit_len.induct)
  case (1 n)
  show ?case
  proof (cases "n div 2 = 0")
    case True
    then show ?thesis using 1(2) by (simp add: bit_len.simps [of n])
  next
    case False
    then have "2 ^ (bit_len (n div 2) - 1) \<le> n div 2" "0 < bit_len (n div 2)" using 1 bit_len_eq_0_iff [of "n div 2"] by linarith+
    then have "2 * 2 ^ (bit_len (n div 2) - 1) \<le> n" "2 * 2 ^ (bit_len (n div 2) - 1) = (2 :: nat) ^ bit_len (n div 2)"
      by (linarith, simp flip: power_Suc)
    moreover have "bit_len n - 1 = bit_len (n div 2)" using 1(2) by (simp add: bit_len.simps [of n])
    ultimately show ?thesis by simp
  qed
qed

lemma bit_len_le_iff: "bit_len n \<le> k \<longleftrightarrow> n < 2 ^ k"
proof
  assume "bit_len n \<le> k"
  then have "(2 :: nat) ^ bit_len n \<le> 2 ^ k" by simp
  then show "n < 2 ^ k" using less_two_power_bit_len [of n] by linarith
next
  assume n: "n < 2 ^ k"
  show "bit_len n \<le> k"
  proof (cases "n = 0")
    case False
    then have "(2 :: nat) ^ (bit_len n - 1) < 2 ^ k" using two_power_bit_len_le [of n] n by linarith
    then have "bit_len n - 1 < k" by simp
    then show ?thesis by simp
  qed simp
qed

section \<open>Rounding to nearest\<close>

lemma round_even_0 [simp]: "round_even x 0 = x"
  by (simp add: round_even_def)

lemma round_even_multiple [simp]: "round_even (n * 2 ^ d) d = n"
  by (simp add: round_even_def)

text \<open>The rounded value is off by at most half a unit, and no multiple of the unit is nearer.\<close>

lemma round_even_half: "2 * \<bar>int (round_even x d * 2 ^ d) - int x\<bar> \<le> 2 ^ d"
proof -
  define q r u where "q = x div 2 ^ d" and "r = x mod 2 ^ d" and "u = (2 :: nat) ^ d"
  have "x = q * u + r" unfolding q_def r_def u_def by (rule div_mult_mod_eq [symmetric])
  then have x: "int x = int q * int u + int r" by simp
  have r: "r < u" by (simp add: r_def u_def)
  have "round_even x d = (if u < 2 * r \<or> (2 * r = u \<and> odd q) then q + 1 else q)"
    by (simp add: round_even_def Let_def q_def r_def u_def)
  then have "round_even x d = q \<and> 2 * r \<le> u \<or> round_even x d = q + 1 \<and> u \<le> 2 * r"
    by (auto split: if_splits)
  then have "2 * \<bar>int (round_even x d * u) - int x\<bar> \<le> int u"
    using r by (elim disjE) (simp_all add: x algebra_simps)
  then show ?thesis by (simp add: u_def)
qed

lemma multiples_apart:
  assumes "y \<noteq> z"
  shows "2 ^ d \<le> \<bar>int (y * 2 ^ d) - int (z * 2 ^ d)\<bar>"
proof -
  have "1 \<le> \<bar>int y - int z\<bar>" using assms by simp
  then have "1 * 2 ^ d \<le> \<bar>int y - int z\<bar> * (2 :: int) ^ d" by (rule mult_right_mono) simp
  also have "\<dots> = \<bar>(int y - int z) * 2 ^ d\<bar>" by (simp add: abs_mult)
  finally show ?thesis by (simp add: left_diff_distrib)
qed

lemma nearer_multiple:
  fixes a b x u :: int
  assumes "u \<le> \<bar>b - a\<bar>" and "2 * \<bar>a - x\<bar> \<le> u"
  shows "\<bar>a - x\<bar> \<le> \<bar>b - x\<bar> \<and> u \<le> 2 * \<bar>b - x\<bar>"
proof -
  have "q \<le> p \<and> u \<le> 2 * p" if "u \<le> r" "2 * q \<le> u" "r \<le> p + q" for p q r :: int
    using that by simp
  moreover have "\<bar>b - a\<bar> \<le> \<bar>b - x\<bar> + \<bar>a - x\<bar>" using abs_triangle_ineq4 [of "b - x" "a - x"] by simp
  ultimately show ?thesis using assms by blast
qed

lemma round_even_nearest: "\<bar>int (round_even x d * 2 ^ d) - int x\<bar> \<le> \<bar>int (y * 2 ^ d) - int x\<bar>"
proof (cases "y = round_even x d")
  case False
  from nearer_multiple [OF multiples_apart [OF this, of d] round_even_half] show ?thesis by blast
qed simp

lemma round_even_unique:
  assumes "2 * \<bar>int (y * 2 ^ d) - int x\<bar> < 2 ^ d"
  shows "round_even x d = y"
proof (rule ccontr)
  assume "round_even x d \<noteq> y"
  then have "y \<noteq> round_even x d" by simp
  from nearer_multiple [OF multiples_apart [OF this, of d] round_even_half] assms show False
    using not_less by blast
qed

text \<open>Rounding is monotone up to a multiple of the unit.\<close>

lemma round_even_le:
  assumes "x \<le> N * 2 ^ d"
  shows "round_even x d \<le> N"
proof (rule ccontr)
  assume "\<not> ?thesis"
  then have "(N + 1) * 2 ^ d \<le> round_even x d * 2 ^ d" by (intro mult_right_mono) simp_all
  then have up: "x + 2 ^ d \<le> round_even x d * 2 ^ d" using assms by simp
  then have "int x + 2 ^ d \<le> int (round_even x d * 2 ^ d)" by (metis of_nat_add of_nat_le_iff of_nat_numeral of_nat_power)
  then have "2 * (2 :: int) ^ d \<le> 2 * \<bar>int (round_even x d * 2 ^ d) - int x\<bar>" by simp
  then have "2 * (2 :: int) ^ d \<le> 2 ^ d" using round_even_half [of x d] by (rule order_trans)
  then show False by simp
qed

section \<open>A fraction of a count\<close>

text \<open>A count below $2^{53}$ is a double, and a product with a fraction of 53 bits is rounded once.\<close>

lemma double_of_small: "n < 2 ^ 53 \<Longrightarrow> double_of n = (n, 0)"
  using bit_len_le_iff [of n 53] by (simp add: double_of_def rounded_def)

lemma double_round_neg: "double_round (m, - int k) = (2 * m + 2 ^ k) div 2 ^ Suc k"
  by (cases "k = 0") (auto simp: nat_add_distrib)

text \<open>A count times a fraction of at most one is at most the count.\<close>

lemma double_round_fraction:
  assumes n: "n < 2 ^ 53" and M: "M \<le> 2 ^ 53"
  shows "double_round (double_times (double_of n) (M, - 53)) \<le> n"
proof -
  define d where "d = bit_len (n * M) - 53"
  have x: "n * M \<le> n * 2 ^ 53" using M by simp
  also have "\<dots> < 2 ^ 106" using n by simp
  finally have "bit_len (n * M) \<le> 106" by (simp add: bit_len_le_iff)
  then have d: "d \<le> 53" by (simp add: d_def)
  then have "(2 :: nat) ^ (53 - d) * 2 ^ d = 2 ^ 53" by (simp flip: power_add)
  then have R: "round_even (n * M) d \<le> n * 2 ^ (53 - d)" using x by (intro round_even_le) (simp add: mult.assoc)
  have e: "- 53 + int d = - int (53 - d)" using d by simp
  have "double_times (double_of n) (M, - 53) = (round_even (n * M) d, - 53 + int d)"
    using double_of_small [OF n] by (simp add: rounded_def d_def)
  then have "double_times (double_of n) (M, - 53) = (round_even (n * M) d, - int (53 - d))" unfolding e .
  moreover have "(2 * round_even (n * M) d + 2 ^ (53 - d)) div 2 ^ Suc (53 - d) < Suc n"
  proof (rule less_mult_imp_div_less)
    have "2 * round_even (n * M) d + 2 ^ (53 - d) < 2 * (n * 2 ^ (53 - d)) + 2 * 2 ^ (53 - d)"
      using R by (intro add_le_less_mono) simp_all
    then show "2 * round_even (n * M) d + 2 ^ (53 - d) < Suc n * 2 ^ Suc (53 - d)" by (simp add: algebra_simps)
  qed
  ultimately show ?thesis unfolding less_Suc_eq_le by (simp only: double_round_neg)
qed

lemma double_ceil_neg: "double_ceil (m, - int k) = (m + (2 ^ k - 1)) div 2 ^ k"
  by (cases "k = 0") auto

lemma double_ceil_eq:
  assumes "d \<le> 53" and "(t - 1) * 2 ^ (53 - d) < m" and "m \<le> t * 2 ^ (53 - d)"
  shows "double_ceil (m, int d - 53) = t"
proof -
  define v where "v = (2 :: nat) ^ (53 - d)"
  have v: "0 < v" and t: "0 < t" using assms by (auto simp: v_def intro: gr0I)
  have "(m + (v - 1)) div v = t"
  proof (rule div_nat_eqI)
    show "v * t \<le> m + (v - 1)" using assms(2) t v unfolding v_def [symmetric]
      by (cases t) (auto simp: algebra_simps)
    show "m + (v - 1) < v * Suc t" using assms(3) v unfolding v_def [symmetric] by (simp add: algebra_simps)
  qed
  then have "double_ceil (m, - int (53 - d)) = t" unfolding double_ceil_neg v_def .
  moreover have "- int (53 - d) = int d - 53" using assms(1) by simp
  ultimately show ?thesis by metis
qed

text \<open>A rounded value between two multiples of the unit stays between them.\<close>

lemma rounded_between:
  fixes x R t u v b :: int
  assumes u: "0 < u" "u \<le> 2 ^ 44" "u * v = 2 ^ 53" and half: "2 * \<bar>R * u - x\<bar> \<le> u" and b: "0 < b" "b \<le> 100"
    and lower: "(b * (t - 1) + 1) * 2 ^ 53 - 2 ^ 50 \<le> b * x" and upper: "b * x \<le> b * (t * 2 ^ 53)"
  shows "(t - 1) * v < R \<and> R \<le> t * v"
proof
  have bu: "b * u \<le> 100 * 2 ^ 44" using b u by (intro mult_mono) auto
  have "2 * x - u \<le> 2 * r \<and> 2 * r \<le> 2 * x + u" if "2 * \<bar>r - x\<bar> \<le> u" for r
    using that by (simp add: abs_if split: if_splits)
  from this [OF half] have near: "2 * x - u \<le> 2 * (R * u)" "2 * (R * u) \<le> 2 * x + u" by simp_all
  have "b * (2 * x - u) \<le> b * (2 * (R * u))" using near(1) b by (intro mult_left_mono) auto
  then have "2 * (b * ((t - 1) * 2 ^ 53)) < 2 * (b * (R * u))" using lower bu by (simp add: algebra_simps)
  then have "(t - 1) * v * u < R * u" using b u(3) by (simp add: mult.assoc mult.commute [of v u])
  then show "(t - 1) * v < R" using u(1) by simp
  have x: "x \<le> t * v * u" using upper b u(3) by (simp add: mult.assoc mult.commute [of v u])
  show "R \<le> t * v"
  proof (rule ccontr)
    assume "\<not> ?thesis"
    then have "(t * v + 1) * u \<le> R * u" using u by (intro mult_right_mono) auto
    then have "t * v * u + u \<le> R * u" by (simp add: algebra_simps)
    then show False using near(2) x u(1) by linarith
  qed
qed

text \<open>A product that should be an integer is rounded to it.\<close>

lemma rounded_to_integer:
  assumes x: "bit_len (M * n) = 53 + d" and d: "d \<le> 53" and M: "0 < M" and b: "0 < b"
    and err: "int b * \<bar>int t * 2 ^ 53 - int (M * n)\<bar> \<le> int n * c" and c: "0 \<le> c" "2 ^ 54 * c < int (M * b)"
  shows "round_even (M * n) d = t * 2 ^ (53 - d)"
proof -
  define u where "u = (2 :: int) ^ d"
  have "int (M * n) < int (2 ^ (53 + d))" using less_two_power_bit_len [of "M * n"] unfolding x of_nat_less_iff .
  then have xu: "int (M * n) \<le> 2 ^ 53 * u" by (simp add: u_def power_add)
  have "2 * (int b * \<bar>int t * 2 ^ 53 - int (M * n)\<bar>) * int M \<le> 2 * (int n * c) * int M"
    using err by (intro mult_right_mono) auto
  also have "\<dots> = 2 * c * int (M * n)" by (simp add: algebra_simps)
  also have "\<dots> \<le> 2 * c * (2 ^ 53 * u)" using xu c(1) by (intro mult_left_mono) auto
  also have "\<dots> = 2 ^ 54 * c * u" by simp
  also have "\<dots> < int (M * b) * u" using c(2) by (rule mult_strict_right_mono) (simp add: u_def)
  finally have "int (M * b) * (2 * \<bar>int t * 2 ^ 53 - int (M * n)\<bar>) < int (M * b) * u" by (simp add: algebra_simps)
  then have near: "2 * \<bar>int t * 2 ^ 53 - int (M * n)\<bar> < u" by (rule mult_left_less_imp_less) simp
  have "(2 :: int) ^ (53 - d) * 2 ^ d = 2 ^ 53" using d by (simp flip: power_add)
  then have eqv: "int (t * 2 ^ (53 - d) * 2 ^ d) = int t * 2 ^ 53" by (simp add: mult.assoc)
  show ?thesis by (rule round_even_unique) (use near in \<open>simp only: eqv u_def\<close>)
qed

text \<open>The product of a double near $a / b$ with a count below $2^{44}$ rounds up to exactly
  $\lceil a n / b \rceil$: the error of the factor and of the product together never cross an
  integer, and where $a n / b$ is an integer the product is rounded to it.\<close>

definition near_fraction :: "nat \<Rightarrow> nat \<Rightarrow> nat \<Rightarrow> int \<Rightarrow> bool" where
  "near_fraction M a b c \<longleftrightarrow>
     2 ^ 52 \<le> M \<and> M \<le> 2 ^ 53 \<and> 0 < a \<and> a < b \<and> b \<le> 100
     \<and> \<bar>int (b * M) - int a * 2 ^ 53\<bar> \<le> c \<and> c \<le> 64 \<and> 2 ^ 54 * c < int (M * b)"

lemma product_error:
  assumes "near_fraction M a b c" and "n < 2 ^ 44"
  shows "\<bar>int b * int (M * n) - int (a * n) * 2 ^ 53\<bar> \<le> int n * c" and "int n * c \<le> 2 ^ 50"
proof -
  have "int b * int (M * n) - int (a * n) * 2 ^ 53 = int n * (int (b * M) - int a * 2 ^ 53)" by (simp add: algebra_simps)
  moreover have "int n * \<bar>int (b * M) - int a * 2 ^ 53\<bar> \<le> int n * c"
    using assms(1) by (intro mult_left_mono) (simp_all add: near_fraction_def)
  ultimately show "\<bar>int b * int (M * n) - int (a * n) * 2 ^ 53\<bar> \<le> int n * c" by (simp add: abs_mult)
  have "int n \<le> 2 ^ 44" "c \<le> 64" using assms by (simp_all add: near_fraction_def)
  moreover have "0 \<le> c" using assms(1) by (auto simp: near_fraction_def intro: order_trans [OF abs_ge_zero])
  ultimately have "int n * c \<le> 2 ^ 44 * 64" by (intro mult_mono) simp_all
  then show "int n * c \<le> 2 ^ 50" by simp
qed

lemma rounded_product:
  assumes f: "near_fraction M a b c" and n: "0 < n" "n < 2 ^ 44" and d: "d = bit_len (M * n) - 53"
    and t: "int b * (int t - 1) < int (a * n)" "int (a * n) \<le> int b * int t"
  shows "d \<le> 44 \<and> (int t - 1) * 2 ^ (53 - d) < int (round_even (M * n) d) \<and> int (round_even (M * n) d) \<le> int t * 2 ^ (53 - d)"
proof -
  note ab = f [unfolded near_fraction_def]
  have "M * n < 2 ^ 53 * 2 ^ 44" using ab n by (intro mult_le_less_imp_less) simp_all
  then have "bit_len (M * n) \<le> 97" unfolding bit_len_le_iff by simp
  then have d44: "d \<le> 44" by (simp add: d)
  show ?thesis
  proof (cases "int (a * n) = int b * int t")
    case True
    have "0 < d"
    proof (rule ccontr)
      assume "\<not> 0 < d"
      then have "M * n < 2 ^ 53" using bit_len_le_iff [of "M * n" 53] by (simp add: d)
      moreover have "2 ^ 52 * n \<le> M * n" using ab by simp
      ultimately have "2 ^ 52 * n < 2 ^ 53" by (rule le_less_trans [rotated])
      then have "n = 1" using n(1) by simp
      then show False using True ab by (auto simp flip: of_nat_mult)
    qed
    then have "bit_len (M * n) = 53 + d" by (simp add: d)
    moreover have "int b * \<bar>int t * 2 ^ 53 - int (M * n)\<bar> \<le> int n * c"
    proof -
      have "int b * (int t * 2 ^ 53 - int (M * n)) = - (int b * int (M * n) - int (a * n) * 2 ^ 53)"
        unfolding True by (simp add: algebra_simps)
      then have "int b * \<bar>int t * 2 ^ 53 - int (M * n)\<bar> = \<bar>int b * int (M * n) - int (a * n) * 2 ^ 53\<bar>"
        by (metis abs_minus_cancel abs_mult abs_of_nat)
      then show ?thesis using product_error(1) [OF f n(2)] by simp
    qed
    ultimately have "round_even (M * n) d = t * 2 ^ (53 - d)"
      using ab d44 by (intro rounded_to_integer [of M n d b t c]) auto
    then show ?thesis using d44 by (simp add: algebra_simps)
  next
    case False
    then have t': "int (a * n) \<le> int b * int t - 1" "int b * (int t - 1) + 1 \<le> int (a * n)" using t by linarith+
    note err = product_error [OF f n(2)]
    have "X \<le> B * 2 ^ 53 \<and> (B' + 1) * 2 ^ 53 - 2 ^ 50 \<le> X"
      if "A \<le> B - 1" "B' + 1 \<le> A" "\<bar>X - A * 2 ^ 53\<bar> \<le> e" "e \<le> 2 ^ 50" for X A B B' e :: int
      using that by (auto simp: abs_le_iff)
    note scaled = this [OF t' err]
    have "2 * \<bar>int (round_even (M * n) d) * 2 ^ d - int (M * n)\<bar> \<le> 2 ^ d"
      using round_even_half [of "M * n" d] by simp
    moreover have "(2 :: int) ^ d * 2 ^ (53 - d) = 2 ^ 53" "(2 :: int) ^ d \<le> 2 ^ 44"
      using d44 power_increasing [of d 44 "2 :: int"] by (simp_all flip: power_add)
    moreover have "int b * int (M * n) \<le> int b * (int t * 2 ^ 53)" using scaled by (simp only: mult.assoc)
    ultimately show ?thesis
      using rounded_between [where u = "2 ^ d" and v = "2 ^ (53 - d)" and b = "int b"] ab d44 scaled by simp
  qed
qed

theorem ceil_of_fraction:
  assumes f: "near_fraction M a b c" and n: "0 < n" "n < 2 ^ 44"
  shows "double_ceil (double_times (M, - 53) (double_of n)) = (a * n + b - 1) div b"
proof -
  define d t where "d = bit_len (M * n) - 53" and "t = (a * n + b - 1) div b"
  have ab: "0 < a" "a < b" using f by (simp_all add: near_fraction_def)
  have "t * b \<le> a * n + b - 1" by (simp add: t_def)
  moreover have "a * n + b - 1 < b + t * b"
    using mod_less_divisor [of b "a * n + b - 1"] ab(2) div_mult_mod_eq [of "a * n + b - 1" b]
    unfolding t_def by (metis add.commute add_less_cancel_left gr_implies_not_zero not_gr_zero)
  ultimately have t: "int b * (int t - 1) < int (a * n)" "int (a * n) \<le> int b * int t"
    using ab by (auto simp: algebra_simps simp flip: of_nat_mult of_nat_add)
  note r = rounded_product [OF f n d_def t]
  have "double_ceil (round_even (M * n) d, int d - 53) = t"
  proof (rule double_ceil_eq)
    have "int (round_even (M * n) d) \<le> int (t * 2 ^ (53 - d))" using r by simp
    then show "round_even (M * n) d \<le> t * 2 ^ (53 - d)" by (simp only: of_nat_le_iff)
    have "0 < int (a * n)" using ab(1) n(1) by simp
    then have "0 < int b * int t" using t(2) by (rule less_le_trans)
    then have "1 \<le> t" by (cases t) simp_all
    then have "int ((t - 1) * 2 ^ (53 - d)) < int (round_even (M * n) d)" using r by (simp add: of_nat_diff)
    then show "(t - 1) * 2 ^ (53 - d) < round_even (M * n) d" by (simp only: of_nat_less_iff)
  qed (use r in simp)
  then show ?thesis using double_of_small [of n] n by (simp add: rounded_def d_def t_def)
qed

end
