(* ===== verification/Bloom_Filter.thy ===== *)
theory Bloom_Filter
  imports Murmur_Hash Kronos_Types Double_Arithmetic
begin

text \<open>
  The Bloom filter of src/src/bloom_filter.cpp. \<open>size_t\<close> is a 64-bit word. The probe count
  \<open>std::round(bits_per_key * 0.693)\<close> is computed in double arithmetic as the code does (7 for
  the engine's 10 bits per key); no theorem depends on its value beyond being non-zero.
\<close>

section \<open>State and operations\<close>

record bloom_filter =
  bit_count :: u64
  filter_bits :: bytes
  probe_count :: u64

definition bloom_filter_seed :: u32 where "bloom_filter_seed = 0xbc9f1d34"

definition bloom_new :: "u64 \<Rightarrow> u64 \<Rightarrow> kerror + bloom_filter" where
  "bloom_new bits_per_key key_count =
     (if key_count = 0 \<or> bits_per_key = 0 then Inl Bloom_Zero_Argument
      else
        let bc = bits_per_key * key_count;
            byte_count = (bc + 7) div 8;
            probes = of_nat (double_round (double_times (double_of (unat bits_per_key)) (double_literal 693 1000)))
        in Inr \<lparr>bit_count = bc,
                filter_bits = replicate (unat byte_count) 0,
                probe_count = (if probes = 0 then 1 else probes)\<rparr>)"

definition bloom_restore :: "u64 \<Rightarrow> u64 \<Rightarrow> bytes \<Rightarrow> kerror + bloom_filter" where
  "bloom_restore bc pc bs =
     (if bc = 0 \<or> pc = 0 \<or> bs = [] then Inl Bloom_Invalid_Persisted
      else Inr \<lparr>bit_count = bc, filter_bits = bs, probe_count = pc\<rparr>)"

text \<open>One probe: \<open>position = h % bit_count\<close>, the byte and the mask of that position.\<close>

definition probe_position :: "u32 \<Rightarrow> u64 \<Rightarrow> nat" where
  "probe_position h bc = unat (ucast h mod bc)"

definition set_position :: "nat \<Rightarrow> bytes \<Rightarrow> bytes" where
  "set_position pos bs = bs[pos div 8 := bs ! (pos div 8) OR push_bit (pos mod 8) 1]"

definition test_position :: "nat \<Rightarrow> bytes \<Rightarrow> bool" where
  "test_position pos bs \<longleftrightarrow> bs ! (pos div 8) AND push_bit (pos mod 8) 1 \<noteq> 0"

fun add_probes :: "nat \<Rightarrow> u32 \<Rightarrow> u32 \<Rightarrow> u64 \<Rightarrow> bytes \<Rightarrow> bytes" where
  "add_probes 0 h delta bc bs = bs"
| "add_probes (Suc k) h delta bc bs =
     add_probes k (h + delta) delta bc (set_position (probe_position h bc) bs)"

fun test_probes :: "nat \<Rightarrow> u32 \<Rightarrow> u32 \<Rightarrow> u64 \<Rightarrow> bytes \<Rightarrow> bool" where
  "test_probes 0 h delta bc bs = True"
| "test_probes (Suc k) h delta bc bs =
     (if \<not> test_position (probe_position h bc) bs then False
      else test_probes k (h + delta) delta bc bs)"

definition hash_delta :: "u32 \<Rightarrow> u32" where
  "hash_delta h = drop_bit 17 h OR push_bit 15 h"

definition bloom_add :: "bytes \<Rightarrow> bloom_filter \<Rightarrow> bloom_filter" where
  "bloom_add key f =
     (let h = murmur3_x86_32 key bloom_filter_seed
      in f\<lparr>filter_bits := add_probes (unat (probe_count f)) h (hash_delta h) (bit_count f) (filter_bits f)\<rparr>)"

definition may_contain :: "bloom_filter \<Rightarrow> bytes \<Rightarrow> bool" where
  "may_contain f key =
     (let h = murmur3_x86_32 key bloom_filter_seed
      in test_probes (unat (probe_count f)) h (hash_delta h) (bit_count f) (filter_bits f))"

section \<open>Well-formed filters\<close>

text \<open>Every probed position lies inside the bit array.\<close>

definition bloom_wf :: "bloom_filter \<Rightarrow> bool" where
  "bloom_wf f \<longleftrightarrow> bit_count f \<noteq> 0 \<and> unat (bit_count f) \<le> 8 * length (filter_bits f)"

lemma probe_position_bound: "bc \<noteq> 0 \<Longrightarrow> probe_position h bc < unat bc"
  by (simp add: probe_position_def unat_mod unat_gt_0)

lemma length_set_position [simp]: "length (set_position p bs) = length bs"
  by (simp add: set_position_def)

lemma length_add_probes [simp]: "length (add_probes k h d bc bs) = length bs"
  by (induction k arbitrary: h bs) simp_all

lemma test_position_bit: "test_position pos bs \<longleftrightarrow> bit (bs ! (pos div 8)) (pos mod 8)"
  by (simp only: test_position_def bit_iff_and_push_bit_not_eq_0)

lemma test_position_set:
  assumes "p < 8 * length bs"
  shows "test_position q (set_position p bs) \<longleftrightarrow> q = p \<or> test_position q bs"
proof -
  have p: "p div 8 < length bs" using assms by (simp add: less_mult_imp_div_less mult.commute)
  have eq: "q = p \<longleftrightarrow> q div 8 = p div 8 \<and> q mod 8 = p mod 8"
    by (metis div_mult_mod_eq)
  show ?thesis
    using p by (auto simp: test_position_bit set_position_def nth_list_update eq bit_simps)
qed

lemma test_position_add_probes_mono:
  assumes "bc \<noteq> 0" "unat bc \<le> 8 * length bs" "test_position q bs"
  shows "test_position q (add_probes k h d bc bs)"
  using assms(2,3)
proof (induction k arbitrary: h bs)
  case (Suc k)
  have "probe_position h bc < 8 * length bs"
    using probe_position_bound [OF assms(1)] Suc.prems(1) by (rule less_le_trans)
  with Suc show ?case by (simp add: test_position_set)
qed simp

lemma test_probes_add_probes_mono:
  assumes "bc \<noteq> 0" "unat bc \<le> 8 * length bs" "test_probes k h d bc bs"
  shows "test_probes k h d bc (add_probes j g e bc bs)"
  using assms(3)
  by (induction k arbitrary: h) (auto simp: test_position_add_probes_mono [OF assms(1,2)] split: if_splits)

lemma test_probes_added:
  assumes "bc \<noteq> 0" "unat bc \<le> 8 * length bs"
  shows "test_probes k h d bc (add_probes k h d bc bs)"
  using assms(2)
proof (induction k arbitrary: h bs)
  case (Suc k)
  have "probe_position h bc < 8 * length bs"
    using probe_position_bound [OF assms(1)] Suc.prems by (rule less_le_trans)
  with Suc show ?case
    by (simp add: test_position_set test_position_add_probes_mono [OF assms(1)])
qed simp

section \<open>Set membership interface\<close>

text \<open>
  What a reader relies on: a filter built by adding keys answers true for each of them. The
  laws are the two a provider must give: an added key is contained, and adding keeps answers.
\<close>

locale approximate_set =
  fixes wf :: "'f \<Rightarrow> bool"
    and add :: "'k \<Rightarrow> 'f \<Rightarrow> 'f"
    and contains :: "'f \<Rightarrow> 'k \<Rightarrow> bool"
  assumes wf_add: "wf f \<Longrightarrow> wf (add k f)"
    and contains_add: "wf f \<Longrightarrow> contains (add k f) k"
    and contains_mono: "wf f \<Longrightarrow> contains f k \<Longrightarrow> contains (add k' f) k"
begin

lemma wf_fold: "wf f \<Longrightarrow> wf (fold add ks f)"
  by (induction ks arbitrary: f) (simp_all add: wf_add)

lemma contains_fold_mono: "wf f \<Longrightarrow> contains f k \<Longrightarrow> contains (fold add ks f) k"
  by (induction ks arbitrary: f) (simp_all add: wf_add contains_mono)

lemma contains_fold: "wf f \<Longrightarrow> k \<in> set ks \<Longrightarrow> contains (fold add ks f) k"
  by (induction ks arbitrary: f) (auto simp: wf_add contains_add contains_fold_mono)

end

interpretation bloom: approximate_set bloom_wf bloom_add may_contain
proof unfold_locales
  fix f k k'
  assume wf: "bloom_wf f"
  then have n: "bit_count f \<noteq> 0" and b: "unat (bit_count f) \<le> 8 * length (filter_bits f)"
    by (auto simp: bloom_wf_def)
  from n b show "bloom_wf (bloom_add k f)" by (simp add: bloom_wf_def bloom_add_def Let_def)
  show "may_contain (bloom_add k f) k"
    by (simp add: may_contain_def bloom_add_def Let_def test_probes_added [OF n b])
  show "may_contain (bloom_add k' f) k" if "may_contain f k"
    using that
    by (simp add: may_contain_def bloom_add_def Let_def test_probes_add_probes_mono [OF n b])
qed

section \<open>Construction\<close>

lemma bloom_new_wf:
  assumes "bloom_new b n = Inr f" and "unat b * unat n + 7 < 2 ^ 64"
  shows "bloom_wf f" and "unat (bit_count f) = unat b * unat n"
    and "length (filter_bits f) = (unat b * unat n + 7) div 8" and "probe_count f \<noteq> 0"
proof -
  have ne: "b \<noteq> 0" "n \<noteq> 0" and f: "bit_count f = b * n"
    "filter_bits f = replicate (unat ((b * n + 7) div 8)) 0" "probe_count f \<noteq> 0"
    using assms(1) by (auto simp: bloom_new_def Let_def split: if_splits)
  have m: "unat (b * n) = unat b * unat n" using assms(2) by (simp add: unat_mult_lem [THEN iffD1])
  then have p: "unat (b * n + 7) = unat b * unat n + 7"
    using assms(2) by (simp add: unat_add_lem [THEN iffD1])
  show "unat (bit_count f) = unat b * unat n" using f m by simp
  show len: "length (filter_bits f) = (unat b * unat n + 7) div 8" using f p by (simp add: unat_div)
  show "probe_count f \<noteq> 0" by (rule f)
  have "0 < unat b * unat n" using ne by (simp add: unat_gt_0)
  then have "b * n \<noteq> 0" using m by (metis less_irrefl unat_0)
  then show "bloom_wf f" using f(1) m len by (simp add: bloom_wf_def)
qed

text \<open>The factor $0.693$ as a double, and the number of probes of the engine's tables.\<close>

lemma bloom_factor: "double_literal 693 1000 = (6241989083535507, - 53)"
  by (simp add: double_literal_def rounded_def round_even_def)

lemma bloom_probes_bound:
  assumes "bloom_new b n = Inr f" and "unat b < 2 ^ 53"
  shows "unat (probe_count f) \<le> unat b"
proof -
  let ?p = "double_round (double_times (double_of (unat b)) (double_literal 693 1000))"
  have p: "?p \<le> unat b" unfolding bloom_factor by (rule double_round_fraction [OF assms(2)]) simp
  have "unat (of_nat ?p :: u64) \<le> ?p" by (simp add: unat_of_nat)
  then have "unat (of_nat ?p :: u64) \<le> unat b" using p by (rule order_trans)
  moreover have "b \<noteq> 0" "probe_count f = 1 \<or> probe_count f = of_nat ?p"
    using assms(1) by (auto simp: bloom_new_def Let_def split: if_splits)
  ultimately show ?thesis using unat_gt_0 [of b] by auto
qed

lemma bloom_probes_engine: "bloom_new 10 n = Inr f \<Longrightarrow> probe_count f = 7"
proof -
  have "double_round (double_times (double_of 10) (double_literal 693 1000)) = 7"
    unfolding bloom_factor by (simp add: double_of_def rounded_def round_even_def)
  then show "bloom_new 10 n = Inr f \<Longrightarrow> ?thesis" by (auto simp: bloom_new_def Let_def split: if_splits)
qed

text \<open>The two configurations the constructor rejects, and only those.\<close>

lemma bloom_new_Inl: "bloom_new b n = Inl e \<longleftrightarrow> (b = 0 \<or> n = 0) \<and> e = Bloom_Zero_Argument"
  by (auto simp: bloom_new_def Let_def)

text \<open>C24: No false negatives, also after persistence. A filter constructed for a key count, filled
  with any keys and restored from the three values the table file stores answers true for every
  key that was added.\<close>
theorem bloom_no_false_negatives:
  assumes "bloom_new b n = Inr f" and "unat b * unat n + 7 < 2 ^ 64" and "k \<in> set ks"
  shows "\<exists>g. bloom_restore (bit_count (fold bloom_add ks f)) (probe_count (fold bloom_add ks f))
      (filter_bits (fold bloom_add ks f)) = Inr g \<and> may_contain g k"
proof -
  have keep: "bit_count (fold bloom_add ks f) = bit_count f \<and> probe_count (fold bloom_add ks f) = probe_count f" for f
    by (induction ks arbitrary: f) (auto simp: bloom_add_def Let_def)
  have wf: "bloom_wf (fold bloom_add ks f)" and pc: "probe_count f \<noteq> 0"
    using bloom.wf_fold bloom_new_wf [OF assms(1,2)] by blast+
  have "bloom_restore (bit_count (fold bloom_add ks f)) (probe_count (fold bloom_add ks f))
      (filter_bits (fold bloom_add ks f)) = Inr (fold bloom_add ks f)"
    using wf pc keep [of f] by (auto simp: bloom_restore_def bloom_wf_def unat_eq_0)
  then show ?thesis
    using bloom.contains_fold [OF bloom_new_wf(1) [OF assms(1,2)] assms(3)] by blast
qed

theorem bloom_no_false_negatives_witness:
  "\<exists>f g. bloom_new 10 2 = Inr f
     \<and> bloom_restore (bit_count (fold bloom_add [[1], [2, 3]] f)) (probe_count (fold bloom_add [[1], [2, 3]] f))
         (filter_bits (fold bloom_add [[1], [2, 3]] f)) = Inr g \<and> may_contain g [2, 3]"
proof -
  obtain f where f: "bloom_new 10 2 = Inr f" by (simp add: bloom_new_def Let_def)
  show ?thesis using f bloom_no_false_negatives [OF f, of "[2, 3]" "[[1], [2, 3]]"] by auto
qed

end
