(* ===== verification/Sstable_Format.thy ===== *)
theory Sstable_Format
  imports Kronos_Types
begin

text \<open>
  What the two halves of src/src/sstable.cpp share: the sparse index entry, and the file header
  that \<open>writeHeader\<close> writes and \<open>readHeader\<close> checks.
\<close>

record sparse_index_entry =
  first_key :: bytes
  block_offset :: u64
  block_size :: u32

definition sstable_magic :: bytes where "sstable_magic = [0x4B, 0x53, 0x53, 0x54]"
definition sstable_version :: u32 where "sstable_version = 1"

text \<open>\<open>writeHeader\<close>.\<close>

definition sstable_header :: bytes where
  "sstable_header = sstable_magic @ encode_to_le sstable_version"

lemma length_sstable_magic [simp]: "length sstable_magic = 4"
  by (simp add: sstable_magic_def)

lemma length_sstable_header [simp]: "length sstable_header = 8"
  by (simp add: sstable_header_def)

end
