(* ===== verification/Sstable_Builder.thy ===== *)
theory Sstable_Builder
  imports Bloom_Filter Sstable_Format
begin

text \<open>
  The writing half of src/src/sstable.cpp: \<open>SstableBuilder\<close> collects records into blocks,
  appends each finished block to the temporary file and ends with the Bloom filter, the sparse
  index and the footer. The descriptor is always at the end of the file, so the state holds the
  bytes written so far. The system calls that bring these bytes to the disk and under the
  final name, with their failures, are in Sstable_Publish.
\<close>

section \<open>State and format\<close>

record sstable_builder =
  sb_file :: bytes
  target_block_size :: u64
  block_record_count :: u64
  block_first_key :: bytes
  current_block :: bytes
  sparse_index :: "sparse_index_entry list"
  bits_per_key :: u64
  bloom_keys :: "bytes list"
  last_key :: "bytes option"

definition builder_new :: "u64 \<Rightarrow> u64 \<Rightarrow> sstable_builder" where
  "builder_new target bits =
     \<lparr>sb_file = sstable_header, target_block_size = target, block_record_count = 0,
      block_first_key = [], current_block = [], sparse_index = [], bits_per_key = bits,
      bloom_keys = [], last_key = None\<rparr>"

section \<open>Adding records\<close>

definition record_bytes :: "bytes \<Rightarrow> internal_entry \<Rightarrow> bytes" where
  "record_bytes key e =
     encode_to_le (entry_sequence e) @ [operation_byte (entry_operation e)]
     @ encode_to_le (of_nat (length key) :: u32)
     @ encode_to_le (of_nat (length (entry_value e)) :: u32)
     @ key @ entry_value e"

lemma length_record_bytes [simp]:
  "length (record_bytes key e) = 17 + length key + length (entry_value e)"
  by (simp add: record_bytes_def)

lemma record_bytes_not_Nil [simp]: "record_bytes key e \<noteq> []"
  by (simp flip: length_greater_0_conv)

definition flush_current_block :: "crc_fn \<Rightarrow> sstable_builder \<Rightarrow> sstable_builder" where
  "flush_current_block crc b =
     (if current_block b = [] then b
      else
        let offset = of_nat (length (sb_file b));
            count_bytes = encode_to_le (ucast (block_record_count b) :: u32);
            checksum = crc32 crc (crc32 crc 0 count_bytes) (current_block b);
            size = of_nat (length count_bytes + length (current_block b) + 4);
            s = \<lparr>first_key = block_first_key b, block_offset = offset, block_size = size\<rparr>
        in b\<lparr>sb_file := sb_file b @ count_bytes @ current_block b @ encode_to_le checksum,
             sparse_index := sparse_index b @ [s],
             current_block := [], block_record_count := 0, block_first_key := []\<rparr>)"

text \<open>The second half of \<open>add\<close>: the record goes to the end of the open block.\<close>

definition append_record :: "bytes \<Rightarrow> bytes \<Rightarrow> sstable_builder \<Rightarrow> sstable_builder" where
  "append_record key rec b =
     (let b2 = (if current_block b = [] then b\<lparr>block_first_key := key\<rparr> else b)
      in b2\<lparr>current_block := current_block b2 @ rec,
            block_record_count := block_record_count b2 + 1,
            bloom_keys := bloom_keys b2 @ [key],
            last_key := Some key\<rparr>)"

definition builder_add ::
  "crc_fn \<Rightarrow> bytes \<Rightarrow> internal_entry \<Rightarrow> sstable_builder \<Rightarrow> kerror + sstable_builder" where
  "builder_add crc key e b =
     (if \<exists>k\<in>set_option (last_key b). key \<le> k then Inl Sst_Keys_Not_Increasing
      else
        let rec = record_bytes key e;
            b1 = (if current_block b \<noteq> []
                     \<and> unat (target_block_size b) < 4 + length (current_block b) + length rec + 4
                  then flush_current_block crc b else b)
        in Inr (append_record key rec b1))"

section \<open>Finishing\<close>

definition bloom_block :: "crc_fn \<Rightarrow> bloom_filter \<Rightarrow> bytes" where
  "bloom_block crc f =
     (let block = encode_to_le (ucast (bit_count f) :: u32) @ encode_to_le (ucast (probe_count f) :: u32)
                  @ filter_bits f
      in block @ encode_to_le (crc32 crc 0 block))"

definition index_entry_bytes :: "sparse_index_entry \<Rightarrow> bytes" where
  "index_entry_bytes s =
     encode_to_le (of_nat (length (first_key s)) :: u32) @ first_key s
     @ encode_to_le (block_offset s) @ encode_to_le (block_size s)"

definition index_block :: "crc_fn \<Rightarrow> sparse_index_entry list \<Rightarrow> bytes" where
  "index_block crc idx =
     (let bs = encode_to_le (of_nat (length idx) :: u32) @ concat (map index_entry_bytes idx)
      in bs @ encode_to_le (crc32 crc 0 bs))"

definition footer_bytes :: "crc_fn \<Rightarrow> u64 \<Rightarrow> u64 \<Rightarrow> u64 \<Rightarrow> u64 \<Rightarrow> bytes" where
  "footer_bytes crc bloom_offset bloom_size index_offset index_size =
     (let b1 = encode_to_le bloom_offset; b2 = encode_to_le bloom_size;
          b3 = encode_to_le index_offset; b4 = encode_to_le index_size;
          checksum = crc32 crc (crc32 crc (crc32 crc (crc32 crc 0 b1) b2) b3) b4
      in b1 @ b2 @ b3 @ b4 @ encode_to_le checksum)"

definition builder_finish :: "crc_fn \<Rightarrow> sstable_builder \<Rightarrow> kerror + bytes" where
  "builder_finish crc b0 =
     (let b = flush_current_block crc b0
      in if bloom_keys b = [] then Inl Sst_Empty
         else
           bind_res (bloom_new (bits_per_key b) (of_nat (length (bloom_keys b)))) (\<lambda>f0.
           let f = fold bloom_add (bloom_keys b) f0;
               bloom_offset = of_nat (length (sb_file b)) :: u64;
               file1 = sb_file b @ bloom_block crc f;
               index_offset = of_nat (length file1) :: u64;
               bloom_size = index_offset - bloom_offset;
               file2 = file1 @ index_block crc (sparse_index b);
               index_end = of_nat (length file2) :: u64;
               index_size = index_end - index_offset
           in Inr (file2 @ footer_bytes crc bloom_offset bloom_size index_offset index_size)))"

text \<open>The whole use of a builder: a sequence of \<open>add\<close> calls, then \<open>finish\<close>.\<close>

fun builder_add_all ::
  "crc_fn \<Rightarrow> (bytes \<times> internal_entry) list \<Rightarrow> sstable_builder \<Rightarrow> kerror + sstable_builder" where
  "builder_add_all crc [] b = Inr b"
| "builder_add_all crc ((k, e) # es) b = bind_res (builder_add crc k e b) (builder_add_all crc es)"

definition sstable_build ::
  "crc_fn \<Rightarrow> u64 \<Rightarrow> u64 \<Rightarrow> (bytes \<times> internal_entry) list \<Rightarrow> kerror + bytes" where
  "sstable_build crc target bits es =
     bind_res (builder_add_all crc es (builder_new target bits)) (builder_finish crc)"

section \<open>The blocks a builder has produced\<close>

text \<open>
  The abstract content: finished blocks and the open one, each a list of entries. Sizes are
  bounded so that the 32-bit fields are exact.
\<close>

type_synonym block = "(bytes \<times> internal_entry) list"

definition block_payload :: "block \<Rightarrow> bytes" where
  "block_payload blk =
     encode_to_le (of_nat (length blk) :: u32) @ concat (map (\<lambda>(k, e). record_bytes k e) blk)"

definition block_bytes :: "crc_fn \<Rightarrow> block \<Rightarrow> bytes" where
  "block_bytes crc blk = block_payload blk @ encode_to_le (crc32 crc 0 (block_payload blk))"

fun index_from :: "crc_fn \<Rightarrow> nat \<Rightarrow> block list \<Rightarrow> sparse_index_entry list" where
  "index_from crc off [] = []"
| "index_from crc off (blk # blks) =
     \<lparr>first_key = fst (hd blk), block_offset = of_nat off,
      block_size = of_nat (length (block_bytes crc blk))\<rparr>
     # index_from crc (off + length (block_bytes crc blk)) blks"

lemma length_index_from [simp]: "length (index_from crc off blks) = length blks"
  by (induction blks arbitrary: off) auto

lemma index_from_append:
  "index_from crc off (xs @ ys) =
     index_from crc off xs @ index_from crc (off + length (concat (map (block_bytes crc) xs))) ys"
  by (induction xs arbitrary: off) (auto simp: add.assoc)

definition block_ok :: "block \<Rightarrow> bool" where
  "block_ok blk \<longleftrightarrow>
     blk \<noteq> [] \<and> 4 + length (block_payload blk) < 2 ^ 32"

definition builder_inv ::
  "crc_fn \<Rightarrow> block list \<Rightarrow> block \<Rightarrow> sstable_builder \<Rightarrow> bool" where
  "builder_inv crc blocks cur b \<longleftrightarrow>
     sb_file b = sstable_header @ concat (map (block_bytes crc) blocks)
     \<and> current_block b = concat (map (\<lambda>(k, e). record_bytes k e) cur)
     \<and> block_record_count b = of_nat (length cur)
     \<and> (cur \<noteq> [] \<longrightarrow> block_first_key b = fst (hd cur))
     \<and> sparse_index b = index_from crc 8 blocks
     \<and> bloom_keys b = map fst (concat blocks @ cur)
     \<and> last_key b = (if concat blocks @ cur = [] then None else Some (fst (last (concat blocks @ cur))))
     \<and> ascending (concat blocks @ cur)
     \<and> list_all block_ok blocks
     \<and> (cur \<noteq> [] \<longrightarrow> block_ok cur)"

lemma builder_inv_new: "builder_inv crc [] [] (builder_new target bits)"
  by (simp add: builder_inv_def builder_new_def)

lemma current_block_Nil_iff: "builder_inv crc blocks cur b \<Longrightarrow> current_block b = [] \<longleftrightarrow> cur = []"
  by (cases cur) (auto simp: builder_inv_def)

lemma length_block_bytes: "length (block_bytes crc blk) = length (block_payload blk) + 4"
  by (simp add: block_bytes_def)

lemma flush_inv:
  assumes "running_crc crc" and inv: "builder_inv crc blocks cur b" and "cur \<noteq> []"
  shows "builder_inv crc (blocks @ [cur]) [] (flush_current_block crc b)"
    and "target_block_size (flush_current_block crc b) = target_block_size b"
    and "bits_per_key (flush_current_block crc b) = bits_per_key b"
proof -
  have ok: "4 + length (block_payload cur) < 2 ^ 32" and ne: "current_block b \<noteq> []"
    using assms current_block_Nil_iff [OF inv] by (auto simp: builder_inv_def block_ok_def)
  have cnt: "(ucast (block_record_count b) :: u32) = of_nat (length cur)"
    using inv by (simp add: builder_inv_def ucast_u32_of_nat)
  have crc: "crc32 crc (crc32 crc 0 (encode_to_le (of_nat (length cur) :: u32))) (current_block b)
      = crc32 crc 0 (block_payload cur)"
    using inv ok crc32_append [OF assms(1)] by (simp add: builder_inv_def block_payload_def)
  show "builder_inv crc (blocks @ [cur]) [] (flush_current_block crc b)"
    using inv ne assms(3) cnt crc
    by (simp add: builder_inv_def flush_current_block_def Let_def block_bytes_def block_payload_def
        index_from_append add.assoc)
  show "target_block_size (flush_current_block crc b) = target_block_size b"
    "bits_per_key (flush_current_block crc b) = bits_per_key b"
    by (simp_all add: flush_current_block_def Let_def)
qed

text \<open>
  Adding a key above the last one extends the content by exactly that entry, whether or not the
  open block is closed first; any other key is refused.
\<close>

definition entry_fits :: "bytes \<times> internal_entry \<Rightarrow> bool" where
  "entry_fits p \<longleftrightarrow> 25 + length (fst p) + length (entry_value (snd p)) < 2 ^ 32"

lemma length_block_payload_snoc:
  "length (block_payload (blk @ [(k, e)])) = length (block_payload blk) + 17 + length k + length (entry_value e)"
  by (simp add: block_payload_def)

lemma block_payload_Nil [simp]: "length (block_payload []) = 4"
  by (simp add: block_payload_def)

lemma extend_inv:
  assumes inv: "builder_inv crc blocks cur b" and cur: "block_ok (cur @ [(k, e)])"
    and asc: "ascending (concat blocks @ cur @ [(k, e)])"
  shows "builder_inv crc blocks (cur @ [(k, e)]) (append_record k (record_bytes k e) b)"
  using inv cur asc current_block_Nil_iff [OF inv]
  by (cases cur) (auto simp: builder_inv_def append_record_def)

lemma append_record_keeps [simp]:
  "target_block_size (append_record k r b) = target_block_size b"
  "bits_per_key (append_record k r b) = bits_per_key b"
  by (simp_all add: append_record_def)

lemma builder_add_inv:
  assumes crc: "running_crc crc" and inv: "builder_inv crc blocks cur b"
    and target: "unat (target_block_size b) < 2 ^ 32" and fits: "entry_fits (k, e)"
    and asc: "ascending (concat blocks @ cur @ [(k, e)])"
  shows "\<exists>b' blocks' cur'. builder_add crc k e b = Inr b' \<and> builder_inv crc blocks' cur' b'
    \<and> concat blocks' @ cur' = concat blocks @ cur @ [(k, e)]
    \<and> target_block_size b' = target_block_size b \<and> bits_per_key b' = bits_per_key b"
proof -
  have accept: "\<not> (\<exists>x\<in>set_option (last_key b). k \<le> x)"
  proof -
    have "x < k" if "last_key b = Some x" for x
    proof -
      have "x = fst (last (concat blocks @ cur))" "concat blocks @ cur \<noteq> []"
        using inv that unfolding builder_inv_def by (simp_all only: split: if_splits) auto
      then have "x \<in> fst ` set (concat blocks @ cur)" using last_in_set by blast
      then show ?thesis using asc by (auto simp: sorted_wrt_append)
    qed
    then show ?thesis by (auto simp: not_le)
  qed
  have one: "block_ok [(k, e)]" using fits by (simp add: block_ok_def entry_fits_def block_payload_def)
  show ?thesis
  proof (cases "cur \<noteq> [] \<and> unat (target_block_size b) < 4 + length (current_block b) + length (record_bytes k e) + 4")
    case True
    let ?b = "flush_current_block crc b"
    have f: "builder_inv crc (blocks @ [cur]) [] ?b" "target_block_size ?b = target_block_size b"
      "bits_per_key ?b = bits_per_key b"
      using flush_inv [OF crc inv] True by auto
    have "current_block b \<noteq> []" using True current_block_Nil_iff [OF inv] by simp
    then show ?thesis
      using extend_inv [OF f(1), of k e] one asc accept True f(2,3)
      by (intro exI [of _ "append_record k (record_bytes k e) ?b"] exI [of _ "blocks @ [cur]"] exI [of _ "[(k, e)]"])
        (simp add: builder_add_def)
  next
    case False
    have "length (current_block b) + 4 = length (block_payload cur)"
      using inv by (simp add: builder_inv_def block_payload_def)
    then have "block_ok (cur @ [(k, e)])"
      using False one target by (cases "cur = []") (auto simp: block_ok_def length_block_payload_snoc)
    then show ?thesis
      using extend_inv [OF inv _ asc] False accept current_block_Nil_iff [OF inv]
      by (intro exI [of _ "append_record k (record_bytes k e) b"] exI [of _ blocks] exI [of _ "cur @ [(k, e)]"])
        (auto simp: builder_add_def Let_def)
  qed
qed

lemma builder_add_rejects:
  assumes inv: "builder_inv crc blocks cur b"
    and asc: "\<not> ascending (concat blocks @ cur @ [(k, e)])"
  shows "builder_add crc k e b = Inl Sst_Keys_Not_Increasing"
proof -
  let ?xs = "concat blocks @ cur"
  have xs: "ascending ?xs" and l: "last_key b = (if ?xs = [] then None else Some (fst (last ?xs)))"
    using inv by (simp_all add: builder_inv_def)
  have "ascending ([] @ [(k, e)])" by simp
  then have ne: "?xs \<noteq> []" using asc by (metis append_Nil append.assoc)
  then obtain ys p where ys: "?xs = ys @ [p]" by (metis rev_exhaust)
  have "\<not> fst p < k"
  proof
    assume "fst p < k"
    then have "ascending (ys @ [p] @ [(k, e)])"
      using xs unfolding ys by (auto simp: sorted_wrt_append)
    then show False using asc ys by (metis append.assoc)
  qed
  then show ?thesis using l ne ys by (auto simp: builder_add_def not_less)
qed

lemma builder_add_all_inv:
  assumes "running_crc crc" and "unat (target_block_size b) < 2 ^ 32"
  shows "builder_inv crc blocks cur b \<Longrightarrow> list_all entry_fits es \<Longrightarrow>
    if ascending (concat blocks @ cur @ es)
    then \<exists>b' blocks' cur'. builder_add_all crc es b = Inr b' \<and> builder_inv crc blocks' cur' b'
      \<and> concat blocks' @ cur' = concat blocks @ cur @ es \<and> bits_per_key b' = bits_per_key b
    else builder_add_all crc es b = Inl Sst_Keys_Not_Increasing"
  using assms(2)
proof (induction es arbitrary: blocks cur b)
  case Nil
  then have "ascending (concat blocks @ cur @ [])" by (simp add: builder_inv_def)
  then show ?case using Nil(1) by (auto intro!: exI [of _ blocks] exI [of _ cur])
next
  case (Cons p es)
  obtain k e where p: "p = (k, e)" by (cases p)
  show ?case
  proof (cases "ascending (concat blocks @ cur @ [(k, e)])")
    case True
    from builder_add_inv [OF assms(1) Cons.prems(1,3) _ True] Cons.prems(2) p
    obtain b' blocks' cur' where b: "builder_add crc k e b = Inr b'" "builder_inv crc blocks' cur' b'"
      "concat blocks' @ cur' = concat blocks @ cur @ [(k, e)]"
      "target_block_size b' = target_block_size b" "bits_per_key b' = bits_per_key b" by auto
    have assoc: "concat blocks' @ cur' @ es = concat blocks @ cur @ p # es"
      using b(3) p by (metis append.assoc append_Cons append_Nil)
    show ?thesis
      using Cons.IH [OF b(2), unfolded assoc] Cons.prems(2,3) b(1,4,5) p by (simp split: if_splits)
  next
    case False
    then have "\<not> ascending ((concat blocks @ cur @ [(k, e)]) @ es)"
      by (simp only: map_append sorted_wrt_append) simp
    then have "\<not> ascending (concat blocks @ cur @ p # es)" using p by simp
    then show ?thesis using builder_add_rejects [OF Cons.prems(1) False] p by simp
  qed
qed

section \<open>The finished file\<close>

definition footer_image :: "crc_fn \<Rightarrow> u64 \<Rightarrow> u64 \<Rightarrow> u64 \<Rightarrow> u64 \<Rightarrow> bytes" where
  "footer_image crc bo bs io is =
     (let m = encode_to_le bo @ encode_to_le bs @ encode_to_le io @ encode_to_le is
      in m @ encode_to_le (crc32 crc 0 m))"

definition data_part :: "crc_fn \<Rightarrow> block list \<Rightarrow> bytes" where
  "data_part crc blocks = sstable_header @ concat (map (block_bytes crc) blocks)"

definition table_image :: "crc_fn \<Rightarrow> bloom_filter \<Rightarrow> block list \<Rightarrow> bytes" where
  "table_image crc f blocks =
     (let d = data_part crc blocks; fb = bloom_block crc f; ib = index_block crc (index_from crc 8 blocks)
      in d @ fb @ ib @ footer_image crc (of_nat (length d)) (of_nat (length fb))
           (of_nat (length d + length fb)) (of_nat (length ib)))"

lemma footer_bytes_image: "running_crc crc \<Longrightarrow> footer_bytes crc bo bs io is = footer_image crc bo bs io is"
  by (simp add: footer_bytes_def footer_image_def crc32_append Let_def)

lemma builder_finish_image:
  assumes "running_crc crc" and inv: "builder_inv crc blocks cur b" and "concat blocks @ cur \<noteq> []"
    and bloom: "bloom_new (bits_per_key b) (of_nat (length (concat blocks @ cur))) = Inr f"
  shows "\<exists>blocks'. concat blocks' = concat blocks @ cur \<and> list_all block_ok blocks'
    \<and> builder_finish crc b = Inr (table_image crc (fold bloom_add (map fst (concat blocks @ cur)) f) blocks')"
proof -
  define blocks' where "blocks' = (if cur = [] then blocks else blocks @ [cur])"
  have inv': "builder_inv crc blocks' [] (flush_current_block crc b)"
    and bits: "bits_per_key (flush_current_block crc b) = bits_per_key b"
    using flush_inv [OF assms(1) inv] inv current_block_Nil_iff [OF inv]
    by (auto simp: blocks'_def flush_current_block_def)
  have cat: "concat blocks' = concat blocks @ cur" by (simp add: blocks'_def)
  have "builder_finish crc b = Inr (table_image crc (fold bloom_add (map fst (concat blocks @ cur)) f) blocks')"
    using inv' bits bloom assms(3) unfolding cat [symmetric]
    by (auto simp: builder_finish_def builder_inv_def table_image_def data_part_def Let_def
        footer_bytes_image [OF assms(1)] add.assoc)
  moreover have "list_all block_ok blocks'" using inv' by (simp add: builder_inv_def)
  ultimately show ?thesis using cat by blast
qed

text \<open>The whole builder run: what it accepts, and the file it leaves.\<close>

lemma sstable_build_image:
  assumes "running_crc crc" and "unat target < 2 ^ 32" and "list_all entry_fits es"
    and "es \<noteq> []" and "ascending es" and "bloom_new bits (of_nat (length es)) = Inr f"
  shows "\<exists>blocks. concat blocks = es \<and> list_all block_ok blocks
    \<and> sstable_build crc target bits es = Inr (table_image crc (fold bloom_add (map fst es) f) blocks)"
proof -
  let ?b = "builder_new target bits"
  have "unat (target_block_size ?b) < 2 ^ 32" "bits_per_key ?b = bits"
    using assms(2) by (simp_all add: builder_new_def)
  then obtain b' blocks cur where b: "builder_add_all crc es ?b = Inr b'"
    "builder_inv crc blocks cur b'" "concat blocks @ cur = es" "bits_per_key b' = bits"
    using builder_add_all_inv [OF assms(1) _ builder_inv_new assms(3)] assms(5) by fastforce
  show ?thesis
    using builder_finish_image [OF assms(1) b(2), of f] b assms(4,6) by (auto simp: sstable_build_def)
qed

lemma sstable_build_rejects:
  assumes "running_crc crc" and "unat target < 2 ^ 32" and "list_all entry_fits es" and "\<not> ascending es"
  shows "sstable_build crc target bits es = Inl Sst_Keys_Not_Increasing"
  using builder_add_all_inv [OF assms(1) _ builder_inv_new assms(3), of target bits] assms(2,4)
  by (simp add: sstable_build_def builder_new_def)

end
