(* ===== verification/Sstable_Reader.thy ===== *)
theory Sstable_Reader
  imports Bloom_Filter Sstable_Format
begin

text \<open>
  The reading half of src/src/sstable.cpp: opening a table (header, footer, Bloom filter, sparse
  index), point lookups and the iterator. A table file is immutable once published, so a reader
  holds its bytes. An in-memory cursor with its \<open>require_bytes\<close> check is the rest of the
  payload from the cursor on.

  An offset that does not fit \<open>off_t\<close> makes the seek fail. Failing system calls other than
  a short file and the memory a declared size would allocate are not modelled.
\<close>

section \<open>Reading bytes\<close>

text \<open>\<open>lseek\<close> to an offset, \<open>read_exact\<close> from there, and \<open>pread_exact\<close>.\<close>

definition seek_set :: "u64 \<Rightarrow> kerror + nat" where
  "seek_set off = (if 2 ^ 63 \<le> unat off then Inl Sst_Seek_Failed else Inr (unat off))"

definition read_exact :: "bytes \<Rightarrow> nat \<Rightarrow> nat \<Rightarrow> kerror + bytes" where
  "read_exact f pos len =
     (if length (drop pos f) < len then Inl Sst_Read_Failed else Inr (take len (drop pos f)))"

definition pread_exact :: "bytes \<Rightarrow> u64 \<Rightarrow> nat \<Rightarrow> kerror + bytes" where
  "pread_exact f off len =
     (if len = 0 then Inr []
      else if 2 ^ 63 \<le> unat off then Inl Sst_Read_Failed
      else if length (drop (unat off) f) < len then Inl Sst_Unexpected_Eof
      else Inr (take len (drop (unat off) f)))"

section \<open>Opening\<close>

record sstable_reader =
  rd_file :: bytes
  rd_bloom :: "bloom_filter option"
  rd_index :: "sparse_index_entry list"

record footer_info =
  footer_bloom_offset :: u64
  footer_bloom_size :: u64
  footer_index_offset :: u64
  footer_index_size :: u64

definition read_header :: "bytes \<Rightarrow> kerror + unit" where
  "read_header f =
     bind_res (read_exact f 0 4) (\<lambda>magic.
     if magic \<noteq> sstable_magic then Inl Sst_Invalid_Magic
     else bind_res (read_exact f 4 4) (\<lambda>v.
     if (decode_from_le v :: u32) \<noteq> sstable_version then Inl Sst_Unsupported_Version else Inr ()))"

definition read_footer :: "crc_fn \<Rightarrow> bytes \<Rightarrow> kerror + footer_info" where
  "read_footer crc f =
     (if length f < 36 then Inl Sst_Footer_Seek
      else bind_res (read_exact f (length f - 36) 36) (\<lambda>b.
        if (decode_from_le (drop 32 b) :: u32) \<noteq> crc32 crc 0 (take 32 b) then Inl Sst_Footer_Checksum
        else Inr \<lparr>footer_bloom_offset = decode_from_le b,
                  footer_bloom_size = decode_from_le (drop 8 b),
                  footer_index_offset = decode_from_le (drop 16 b),
                  footer_index_size = decode_from_le (drop 24 b)\<rparr>))"

definition load_bloom_filter :: "crc_fn \<Rightarrow> bytes \<Rightarrow> u64 \<Rightarrow> u64 \<Rightarrow> kerror + bloom_filter" where
  "load_bloom_filter crc f bloom_offset bloom_size =
     (if unat bloom_size < 12 then Inl Sst_Bloom_Size
      else
        bind_res (seek_set bloom_offset) (\<lambda>pos.
        bind_res (read_exact f pos (unat bloom_size)) (\<lambda>b.
        let bits_n = decode_from_le b :: u32;
            probes = decode_from_le (drop 4 b) :: u32;
            checksum_offset = length b - 4;
            stored = decode_from_le (drop checksum_offset b) :: u32
        in if stored \<noteq> crc32 crc 0 (take checksum_offset b) then Inl Sst_Bloom_Checksum
           else
             let bits = drop 8 (take checksum_offset b)
             in if bits_n = 0 \<or> probes = 0 \<or> bits = [] then Inl Sst_Bloom_Metadata
                else if length bits \<noteq> (unat bits_n + 7) div 8 then Inl Sst_Bloom_Bit_Count
                else bloom_restore (ucast bits_n) (ucast probes) bits)))"

definition dec_index_entry :: "bytes \<Rightarrow> kerror + (sparse_index_entry \<times> bytes)" where
  "dec_index_entry s =
     bind_res (take_le Sst_Index_Corrupted s) (\<lambda>(klen :: u32, s1).
     bind_res (take_bytes Sst_Index_Corrupted (unat klen) s1) (\<lambda>(key, s2).
     bind_res (take_le Sst_Index_Corrupted s2) (\<lambda>(off :: u64, s3).
     bind_res (take_le Sst_Index_Corrupted s3) (\<lambda>(size :: u32, s4).
     Inr (\<lparr>first_key = key, block_offset = off, block_size = size\<rparr>, s4)))))"

definition load_sparse_index ::
  "crc_fn \<Rightarrow> bytes \<Rightarrow> u64 \<Rightarrow> u64 \<Rightarrow> kerror + sparse_index_entry list" where
  "load_sparse_index crc f index_offset index_size =
     (if unat index_size < 8 then Inl Sst_Index_Size
      else
        bind_res (seek_set index_offset) (\<lambda>pos.
        bind_res (read_exact f pos (unat index_size)) (\<lambda>b.
        let payload = take (length b - 4) b;
            stored = decode_from_le (drop (length b - 4) b) :: u32
        in if crc32 crc 0 payload \<noteq> stored then Inl Sst_Index_Crc
           else
             bind_res (take_le Sst_Index_Corrupted payload) (\<lambda>(entry_count :: u32, s).
             if length s div 16 < unat entry_count then Inl Sst_Index_Entry_Count
             else
               bind_res (decode_n dec_index_entry (unat entry_count) s) (\<lambda>(idx, rest).
               if rest \<noteq> [] then Inl Sst_Index_Trailing else Inr idx)))))"

definition reader_open :: "crc_fn \<Rightarrow> bytes \<Rightarrow> kerror + sstable_reader" where
  "reader_open crc f =
     bind_res (read_header f) (\<lambda>_.
     bind_res (read_footer crc f) (\<lambda>footer.
     bind_res (load_bloom_filter crc f (footer_bloom_offset footer) (footer_bloom_size footer)) (\<lambda>bloom.
     bind_res (load_sparse_index crc f (footer_index_offset footer) (footer_index_size footer)) (\<lambda>idx.
     Inr \<lparr>rd_file = f, rd_bloom = Some bloom, rd_index = idx\<rparr>))))"

section \<open>Records\<close>

text \<open>One record of a block, as the lookup and the iterator both parse it: sequence, operation
  byte, key and value.\<close>

type_synonym raw_record = "u64 \<times> byte \<times> bytes \<times> bytes"

definition dec_raw_record :: "bytes \<Rightarrow> kerror + (raw_record \<times> bytes)" where
  "dec_raw_record s =
     bind_res (take_le Sst_Block_Corrupted s) (\<lambda>(sequence :: u64, s1).
     bind_res (take_bytes Sst_Block_Corrupted 1 s1) (\<lambda>(operation_byte, s2).
     bind_res (take_le Sst_Block_Corrupted s2) (\<lambda>(klen :: u32, s3).
     bind_res (take_le Sst_Block_Corrupted s3) (\<lambda>(vlen :: u32, s4).
     bind_res (take_bytes Sst_Block_Corrupted (unat klen) s4) (\<lambda>(key, s5).
     bind_res (take_bytes Sst_Block_Corrupted (unat vlen) s5) (\<lambda>(val, s6).
     Inr ((sequence, hd operation_byte, key, val), s6)))))))"

section \<open>Point lookup\<close>

text \<open>The loop over the sparse index: the last entry whose first key is not above the key.\<close>

fun scan_index :: "bytes \<Rightarrow> sparse_index_entry \<Rightarrow> sparse_index_entry list \<Rightarrow> sparse_index_entry" where
  "scan_index key target [] = target"
| "scan_index key target (s # ss) =
     (if first_key s \<le> key then scan_index key s ss else target)"

fun scan_block :: "bytes \<Rightarrow> nat \<Rightarrow> bytes \<Rightarrow> kerror + internal_entry option" where
  "scan_block key 0 s = (if s \<noteq> [] then Inl Sst_Block_Trailing else Inr None)"
| "scan_block key (Suc n) s =
     bind_res (dec_raw_record s) (\<lambda>((sequence, operation_byte, record_key, record_value), s').
     if record_key = key then
       (case operation_of_byte operation_byte of
          None \<Rightarrow> Inl Sst_Block_Operation
        | Some op \<Rightarrow>
            Inr (Some \<lparr>entry_value = record_value, entry_sequence = sequence, entry_operation = op\<rparr>))
     else if key < record_key then Inr None
     else scan_block key n s')"

definition lookup_entry :: "crc_fn \<Rightarrow> sstable_reader \<Rightarrow> bytes \<Rightarrow> kerror + internal_entry option" where
  "lookup_entry crc r key =
     (if \<exists>f\<in>set_option (rd_bloom r). \<not> may_contain f key then Inr None
      else
        case rd_index r of
          [] \<Rightarrow> Inr None
        | s0 # ss \<Rightarrow>
            (if key < first_key s0 then Inr None
             else
               let target = scan_index key s0 ss
               in bind_res (pread_exact (rd_file r) (block_offset target) (unat (block_size target))) (\<lambda>b.
                  if length b < 4 then Inl Sst_Block_Corrupted
                  else
                    let payload = take (length b - 4) b;
                        stored = decode_from_le (drop (length b - 4) b) :: u32
                    in if crc32 crc 0 payload \<noteq> stored then Inl Sst_Block_Crc
                       else
                         bind_res (take_le Sst_Block_Corrupted payload) (\<lambda>(record_count :: u32, s).
                         if length s div 17 < unat record_count then Inl Sst_Block_Record_Count
                         else scan_block key (unat record_count) s))))"

definition reader_get :: "crc_fn \<Rightarrow> sstable_reader \<Rightarrow> bytes \<Rightarrow> kerror + get_result" where
  "reader_get crc r key = bind_res (lookup_entry crc r key) (\<lambda>e. Inr (result_of_entry e))"

section \<open>Iterator\<close>

text \<open>
  \<open>it_rest\<close> is the payload of the loaded block from \<open>cursor_\<close> on. The iterator stores
  the operation byte with a cast, without checking it. An exception leaves an iterator that no
  caller uses again.
\<close>

record sst_iterator =
  it_block_index :: nat
  it_rest :: bytes
  it_record_count :: u32
  it_record_index :: u32
  it_valid :: bool
  it_key :: bytes
  it_entry :: internal_entry

definition load_block :: "crc_fn \<Rightarrow> sstable_reader \<Rightarrow> nat \<Rightarrow> sst_iterator \<Rightarrow> kerror + sst_iterator" where
  "load_block crc r block_index it =
     (if length (rd_index r) \<le> block_index then Inl Sst_Block_Range
      else
        let s = rd_index r ! block_index
        in if unat (block_size s) < 8 then Inl Sst_Block_Size
           else
             bind_res (seek_set (block_offset s)) (\<lambda>pos.
             bind_res (read_exact (rd_file r) pos (unat (block_size s))) (\<lambda>b.
             let payload = take (length b - 4) b;
                 stored = decode_from_le (drop (length b - 4) b) :: u32
             in if crc32 crc 0 payload \<noteq> stored then Inl Sst_Block_Crc
                else if length payload < 4 then Inl Sst_Block_Corrupted
                else if (decode_from_le payload :: u32) = 0 then Inl Sst_Block_Empty
                else Inr (it\<lparr>it_block_index := block_index, it_rest := drop 4 payload,
                             it_record_count := decode_from_le payload, it_record_index := 0\<rparr>))))"

definition parse_current_record :: "sst_iterator \<Rightarrow> kerror + sst_iterator" where
  "parse_current_record it =
     bind_res (dec_raw_record (it_rest it)) (\<lambda>((sequence, operation_byte, key, val), s).
     Inr (it\<lparr>it_rest := s, it_valid := True, it_key := key,
             it_entry := \<lparr>entry_value = val, entry_sequence = sequence,
                          entry_operation = operation_cast operation_byte\<rparr>\<rparr>))"

definition iterator_new :: "crc_fn \<Rightarrow> sstable_reader \<Rightarrow> kerror + sst_iterator" where
  "iterator_new crc r =
     (let it = \<lparr>it_block_index = 0, it_rest = [], it_record_count = 0, it_record_index = 0,
                it_valid = False, it_key = [],
                it_entry = \<lparr>entry_value = [], entry_sequence = 0, entry_operation = DELETE\<rparr>\<rparr>
      in if rd_index r = [] then Inr it
         else bind_res (load_block crc r 0 it) parse_current_record)"

definition iterator_key :: "sst_iterator \<Rightarrow> kerror + bytes" where
  "iterator_key it = (if it_valid it then Inr (it_key it) else Inl Sst_Iterator_Invalid)"

definition iterator_entry :: "sst_iterator \<Rightarrow> kerror + internal_entry" where
  "iterator_entry it = (if it_valid it then Inr (it_entry it) else Inl Sst_Iterator_Invalid)"

definition iterator_next :: "crc_fn \<Rightarrow> sstable_reader \<Rightarrow> sst_iterator \<Rightarrow> kerror + sst_iterator" where
  "iterator_next crc r it =
     (if \<not> it_valid it then Inr it
      else if it_record_index it + 1 < it_record_count it
      then parse_current_record (it\<lparr>it_record_index := it_record_index it + 1\<rparr>)
      else
        let next_block_index = it_block_index it + 1
        in if length (rd_index r) \<le> next_block_index then Inr (it\<lparr>it_valid := False\<rparr>)
           else bind_res (load_block crc r next_block_index it) parse_current_record)"

lemma dec_raw_record_shorter: "dec_raw_record s = Inr (x, s') \<Longrightarrow> length s = length s' + 17 + length (fst (snd (snd x))) + length (snd (snd (snd x)))"
  by (auto simp: dec_raw_record_def dest!: take_le_InrD take_bytes_InrD)

lemma parse_current_record_InrD:
  "parse_current_record it = Inr it' \<Longrightarrow>
   it_block_index it' = it_block_index it \<and> length (it_rest it') < length (it_rest it) \<and> it_valid it'"
  by (auto simp: parse_current_record_def dest!: dec_raw_record_shorter)

lemma load_block_InrD: "load_block crc r i it = Inr it' \<Longrightarrow> it_block_index it' = i"
  by (auto simp: load_block_def Let_def split: if_splits)

text \<open>The loop that drains an iterator: \<open>while (it.valid()) { ... it.next(); }\<close>. It ends on
  every file: a step ends the iteration, moves to a later block, or consumes bytes of the
  loaded one.\<close>

function iterate_from ::
  "crc_fn \<Rightarrow> sstable_reader \<Rightarrow> sst_iterator \<Rightarrow> kerror + (bytes \<times> internal_entry) list" where
  "iterate_from crc r it =
     (if it_valid it then
        bind_res (iterator_next crc r it) (\<lambda>it'.
        bind_res (iterate_from crc r it') (\<lambda>es. Inr ((it_key it, it_entry it) # es)))
      else Inr [])"
  by pat_completeness auto
termination
  by (relation "measures [\<lambda>(crc, r, it). if it_valid it then 1 else 0,
        \<lambda>(crc, r, it). length (rd_index r) - it_block_index it, \<lambda>(crc, r, it). length (it_rest it)]")
    (auto simp: iterator_next_def split: if_splits dest!: parse_current_record_InrD load_block_InrD)

declare iterate_from.simps [simp del]

definition iterate_table :: "crc_fn \<Rightarrow> sstable_reader \<Rightarrow> kerror + (bytes \<times> internal_entry) list" where
  "iterate_table crc r = bind_res (iterator_new crc r) (iterate_from crc r)"

end
