(* ===== verification/Sstable_Table.thy ===== *)
theory Sstable_Table
  imports Sstable_Builder Sstable_Reader
begin

text \<open>
  The reader on the files the builder writes: every part of the image is read back, a lookup is
  the lookup in the list of entries, and iteration returns that list. The section at the end
  states the interface of an immutable sorted table that the compactor and the engine rely on.
\<close>

section \<open>Reading one part of a file\<close>

lemma read_exact_at:
  "f = a @ b @ c \<Longrightarrow> pos = length a \<Longrightarrow> len = length b \<Longrightarrow> read_exact f pos len = Inr b"
  by (simp add: read_exact_def)

lemma pread_exact_at:
  "f = a @ b @ c \<Longrightarrow> unat off = length a \<Longrightarrow> length a < 2 ^ 63 \<Longrightarrow> len = length b
   \<Longrightarrow> pread_exact f off len = Inr b"
  by (simp add: pread_exact_def)

lemma seek_set_nat: "n < 2 ^ 63 \<Longrightarrow> seek_set (of_nat n) = Inr n"
  by (simp add: seek_set_def unat_of_nat)

lemma unat_of_nat_u64: "n < 2 ^ 64 \<Longrightarrow> unat (of_nat n :: u64) = n"
  by (simp add: unat_of_nat)

lemma unat_of_nat_u32: "n < 2 ^ 32 \<Longrightarrow> unat (of_nat n :: u32) = n"
  by (simp add: unat_of_nat)

section \<open>The item formats\<close>

lemma take_bytes_one [simp]: "take_bytes e (Suc 0) (x # s) = Inr ([x], s)"
  by (simp add: take_bytes_def)

interpretation index_codec: codec index_entry_bytes dec_index_entry "\<lambda>s. length (first_key s) < 2 ^ 32"
  by unfold_locales (simp add: index_entry_bytes_def dec_index_entry_def unat_of_nat_u32)

lemma dec_raw_record_bytes:
  "length k < 2 ^ 32 \<Longrightarrow> length (entry_value e) < 2 ^ 32 \<Longrightarrow>
   dec_raw_record (record_bytes k e @ s) =
     Inr ((entry_sequence e, operation_byte (entry_operation e), k, entry_value e), s)"
  by (simp add: record_bytes_def dec_raw_record_def unat_of_nat_u32)

lemma operation_of_operation_byte [simp]: "operation_of_byte (operation_byte op) = Some op"
  by (cases op) (simp_all add: operation_of_byte_def)

lemma operation_cast_operation_byte [simp]: "operation_cast (operation_byte op) = op"
  by (cases op) (simp_all add: operation_cast_def)

section \<open>Blocks\<close>

abbreviation records_bytes :: "block \<Rightarrow> bytes" where
  "records_bytes blk \<equiv> concat (map (\<lambda>(k, e). record_bytes k e) blk)"

lemma length_records_bytes: "17 * length blk \<le> length (records_bytes blk)"
  by (induction blk) auto

lemma entry_in_records:
  "(k, e) \<in> set blk \<Longrightarrow> length k + length (entry_value e) \<le> length (records_bytes blk)"
  by (induction blk) auto

lemma block_okD:
  assumes "block_ok blk"
  shows "blk \<noteq> []" "length blk < 2 ^ 32" "length (block_payload blk) + 4 < 2 ^ 32"
    "\<And>k e. (k, e) \<in> set blk \<Longrightarrow> length k < 2 ^ 32 \<and> length (entry_value e) < 2 ^ 32"
proof -
  have l: "length (records_bytes blk) + 8 < 2 ^ 32"
    using assms by (simp add: block_ok_def block_payload_def)
  show "blk \<noteq> []" "length (block_payload blk) + 4 < 2 ^ 32"
    using assms by (simp_all add: block_ok_def)
  show "length blk < 2 ^ 32" using l length_records_bytes [of blk] by linarith
  show "length k < 2 ^ 32 \<and> length (entry_value e) < 2 ^ 32" if "(k, e) \<in> set blk" for k e
    using l entry_in_records [OF that] by linarith
qed

text \<open>The scan of one block, with its early exit.\<close>

lemma scan_block_records:
  assumes "ascending blk" and "\<And>k e. (k, e) \<in> set blk \<Longrightarrow> length k < 2 ^ 32 \<and> length (entry_value e) < 2 ^ 32"
  shows "scan_block key (length blk) (records_bytes blk) = Inr (map_of blk key)"
  using assms
proof (induction blk)
  case (Cons p blk)
  obtain k e where p: "p = (k, e)" by (cases p)
  have d: "dec_raw_record (record_bytes k e @ records_bytes blk) =
      Inr ((entry_sequence e, operation_byte (entry_operation e), k, entry_value e), records_bytes blk)"
    using Cons.prems(2) p by (intro dec_raw_record_bytes) auto
  have none: "map_of blk key = None" if "key < k"
    using ascending_Cons_lookup [OF Cons.prems(1), of key] that p by (auto split: if_splits)
  have "scan_block key (length blk) (records_bytes blk) = Inr (map_of blk key)"
    using Cons.prems by (intro Cons.IH) auto
  then show ?case using none by (simp add: p d)
qed simp

section \<open>The index selects the block\<close>

abbreviation index_of_block :: "crc_fn \<Rightarrow> nat \<Rightarrow> block \<Rightarrow> sparse_index_entry" where
  "index_of_block crc off blk \<equiv>
     \<lparr>first_key = fst (hd blk), block_offset = of_nat off, block_size = of_nat (length (block_bytes crc blk))\<rparr>"

text \<open>The entry the scan returns belongs to a block at the offset it names, and the key can be in
  no other block.\<close>

lemma scan_index_block:
  assumes "list_all (\<lambda>b. b \<noteq> []) (blk # blks)" and "ascending (concat (blk # blks))"
    and "fst (hd blk) \<le> key"
  shows "\<exists>pre b post. blk # blks = pre @ b # post
    \<and> scan_index key (index_of_block crc off blk) (index_from crc (off + length (block_bytes crc blk)) blks)
       = index_of_block crc (off + length (concat (map (block_bytes crc) pre))) b
    \<and> map_of (concat (blk # blks)) key = map_of b key"
  using assms
proof (induction blks arbitrary: blk off)
  case Nil
  then show ?case by (intro exI [of _ "[]"] exI [of _ blk]) simp
next
  case (Cons b2 blks)
  have ne: "blk \<noteq> []" "b2 \<noteq> []" using Cons.prems(1) by auto
  show ?case
  proof (cases "fst (hd b2) \<le> key")
    case True
    have "fst p < key" if "p \<in> set blk" for p
    proof -
      have "hd b2 \<in> set b2" using ne by simp
      then have "fst p < fst (hd b2)"
        using Cons.prems(2) that by (auto simp: sorted_wrt_append)
      then show ?thesis using True by simp
    qed
    then have skip: "map_of blk key = None" by (auto simp: map_of_eq_None_iff)
    have asc: "ascending (concat (b2 # blks))" and all: "list_all (\<lambda>b. b \<noteq> []) (b2 # blks)"
      using Cons.prems(1,2) by (auto simp: sorted_wrt_append)
    from Cons.IH [OF all asc True, of "off + length (block_bytes crc blk)"]
    obtain pre b post where *: "b2 # blks = pre @ b # post"
      "scan_index key (index_of_block crc (off + length (block_bytes crc blk)) b2)
         (index_from crc (off + length (block_bytes crc blk) + length (block_bytes crc b2)) blks)
       = index_of_block crc (off + length (block_bytes crc blk) + length (concat (map (block_bytes crc) pre))) b"
      "map_of (concat (b2 # blks)) key = map_of b key" by blast
    have "scan_index key (index_of_block crc off blk) (index_from crc (off + length (block_bytes crc blk)) (b2 # blks))
        = index_of_block crc (off + length (concat (map (block_bytes crc) (blk # pre)))) b"
      using *(2) True by (simp add: add.assoc)
    moreover have "map_of (concat (blk # b2 # blks)) key = map_of b key"
      using *(3) skip by (simp add: map_add_def)
    moreover have "blk # b2 # blks = (blk # pre) @ b # post" using *(1) by simp
    ultimately show ?thesis by blast
  next
    case False
    have "key < fst p" if "p \<in> set (concat (b2 # blks))" for p
    proof -
      obtain q b2' where "b2 = q # b2'" using ne by (cases b2) auto
      then have "p = q \<or> fst q < fst p" using Cons.prems(2) that by (auto simp: sorted_wrt_append)
      then have "fst (hd b2) \<le> fst p" using \<open>b2 = q # b2'\<close> by auto
      then show ?thesis using False by simp
    qed
    then have "map_of (concat (b2 # blks)) key = None" by (auto simp: map_of_eq_None_iff)
    then have "map_of (concat (blk # b2 # blks)) key = map_of blk key"
      by (simp add: map_add_def split: option.splits)
    moreover have "scan_index key (index_of_block crc off blk) (index_from crc (off + length (block_bytes crc blk)) (b2 # blks))
        = index_of_block crc (off + length (concat (map (block_bytes crc) []))) blk"
      using False by simp
    ultimately show ?thesis by (metis append_Nil)
  qed
qed

section \<open>Opening an image\<close>

definition filter_ok :: "bloom_filter \<Rightarrow> bool" where
  "filter_ok f \<longleftrightarrow> bit_count f \<noteq> 0 \<and> unat (bit_count f) < 2 ^ 32 \<and> probe_count f \<noteq> 0
     \<and> unat (probe_count f) < 2 ^ 32 \<and> length (filter_bits f) = (unat (bit_count f) + 7) div 8"

definition table_ok :: "crc_fn \<Rightarrow> bloom_filter \<Rightarrow> block list \<Rightarrow> bool" where
  "table_ok crc f blocks \<longleftrightarrow>
     filter_ok f \<and> (\<forall>k\<in>fst ` set (concat blocks). may_contain f k)
     \<and> list_all block_ok blocks \<and> ascending (concat blocks)
     \<and> blocks \<noteq> [] \<and> length blocks < 2 ^ 32 \<and> length (table_image crc f blocks) < 2 ^ 63"

lemma length_footer_image [simp]: "length (footer_image crc a b c d) = 36"
  by (simp add: footer_image_def Let_def)

lemma length_bloom_block [simp]: "length (bloom_block crc f) = 12 + length (filter_bits f)"
  by (simp add: bloom_block_def Let_def)

lemma length_index_entry_bytes [simp]: "length (index_entry_bytes s) = 16 + length (first_key s)"
  by (simp add: index_entry_bytes_def)

lemma length_index_entries: "16 * length idx \<le> length (concat (map index_entry_bytes idx))"
  by (induction idx) auto

lemma read_header_image: "read_header (sstable_header @ s) = Inr ()"
proof -
  have "read_exact (sstable_header @ s) 0 4 = Inr sstable_magic"
    by (rule read_exact_at [of _ "[]" _ "encode_to_le sstable_version @ s"]) (simp_all add: sstable_header_def)
  moreover have "read_exact (sstable_header @ s) 4 4 = Inr (encode_to_le sstable_version)"
    by (rule read_exact_at [of _ sstable_magic _ s]) (simp_all add: sstable_header_def)
  ultimately show ?thesis by (simp add: read_header_def)
qed

lemma read_footer_image:
  "read_footer crc (s @ footer_image crc bo bs io is) =
     Inr \<lparr>footer_bloom_offset = bo, footer_bloom_size = bs, footer_index_offset = io, footer_index_size = is\<rparr>"
proof -
  have "read_exact (s @ footer_image crc bo bs io is) (length s) 36 = Inr (footer_image crc bo bs io is)"
    by (rule read_exact_at [of _ s _ "[]"]) simp_all
  then show ?thesis by (simp add: read_footer_def) (simp add: footer_image_def Let_def)
qed

lemma ucast_u64_u32:
  assumes "unat (w :: u64) < 2 ^ 32"
  shows "ucast (ucast w :: u32) = w" "unat (ucast w :: u32) = unat w"
proof -
  have "unat (ucast w :: u32) = unat w" using assms by (simp add: unsigned_ucast_eq take_bit_nat_eq_self)
  then show "unat (ucast w :: u32) = unat w" .
  have "ucast (ucast w :: u32) = take_bit 32 w"
    by (rule bit_eqI) (auto simp: bit_simps)
  moreover have "unat (take_bit 32 w) = unat w"
    using assms by (simp add: unsigned_take_bit_eq take_bit_nat_eq_self)
  then have "of_nat (unat (take_bit 32 w)) = (of_nat (unat w) :: u64)" by (rule arg_cong)
  then have "take_bit 32 w = w" by (metis of_nat_unat ucast_id)
  ultimately show "ucast (ucast w :: u32) = w" by simp
qed

lemma load_bloom_image:
  assumes "filter_ok f" and "unat bo = length a" and "length a < 2 ^ 63" and "unat bs = length (bloom_block crc f)"
  shows "load_bloom_filter crc (a @ bloom_block crc f @ c) bo bs = Inr f"
proof -
  have r: "read_exact (a @ bloom_block crc f @ c) (length a) (unat bs) = Inr (bloom_block crc f)"
    using assms by (intro read_exact_at [of _ a _ c]) simp_all
  have s: "seek_set bo = Inr (length a)" using assms by (simp add: seek_set_def)
  note w = ucast_u64_u32 [of "bit_count f"] ucast_u64_u32 [of "probe_count f"]
  have f: "bit_count f \<noteq> 0" "unat (bit_count f) < 2 ^ 32" "probe_count f \<noteq> 0" "unat (probe_count f) < 2 ^ 32"
    "length (filter_bits f) = (unat (bit_count f) + 7) div 8" using assms(1) by (auto simp: filter_ok_def)
  have "unat (bit_count f) \<noteq> 0" using f(1) by (simp add: unat_eq_0)
  then have "8 \<le> unat (bit_count f) + 7" by linarith
  then have "0 < length (filter_bits f)" unfolding f(5) by (simp add: div_greater_zero_iff)
  then have ne: "filter_bits f \<noteq> []" by simp
  have z: "(ucast (bit_count f) :: u32) \<noteq> 0" "(ucast (probe_count f) :: u32) \<noteq> 0"
    using w f by (metis unat_eq_0)+
  show ?thesis
    unfolding load_bloom_filter_def using r s f ne z w assms(4)
    by (simp add: bloom_block_def Let_def bloom_restore_def)
qed

lemma load_index_image:
  assumes "list_all (\<lambda>s. length (first_key s) < 2 ^ 32) idx" and "length idx < 2 ^ 32"
    and "unat io = length a" and "length a < 2 ^ 63" and "unat is = length (index_block crc idx)"
  shows "load_sparse_index crc (a @ index_block crc idx @ c) io is = Inr idx"
proof -
  have r: "read_exact (a @ index_block crc idx @ c) (length a) (unat is) = Inr (index_block crc idx)"
    using assms by (intro read_exact_at [of _ a _ c]) simp_all
  have s: "seek_set io = Inr (length a)" using assms by (simp add: seek_set_def)
  have d: "decode_n dec_index_entry (length idx) (concat (map index_entry_bytes idx)) = Inr (idx, [])"
    using index_codec.decode_n_enc [OF assms(1), of "[]"] by simp
  have n: "unat (of_nat (length idx) :: u32) = length idx" using assms(2) by (rule unat_of_nat_u32)
  have c: "length idx \<le> length (concat (map index_entry_bytes idx)) div 16"
    using length_index_entries [of idx] by (simp add: less_eq_div_iff_mult_less_eq mult.commute)
  show ?thesis
    unfolding load_sparse_index_def using r s d n c assms(5)
    by (simp add: index_block_def Let_def not_less)
qed

lemma first_keys_bound:
  "list_all block_ok blocks \<Longrightarrow> list_all (\<lambda>s. length (first_key s) < 2 ^ 32) (index_from crc off blocks)"
proof (induction blocks arbitrary: off)
  case (Cons b blocks)
  then have "hd b \<in> set b" using block_okD(1) [of b] by simp
  then have "length (fst (hd b)) < 2 ^ 32" using Cons.prems block_okD(4) [of b] by (metis list.pred_inject(2) prod.collapse)
  with Cons show ?case by simp
qed simp

definition image_reader :: "crc_fn \<Rightarrow> bloom_filter \<Rightarrow> block list \<Rightarrow> sstable_reader" where
  "image_reader crc f blocks =
     \<lparr>rd_file = table_image crc f blocks, rd_bloom = Some f, rd_index = index_from crc 8 blocks\<rparr>"

lemma reader_open_layout:
  assumes f: "filter_ok f" and idx: "list_all (\<lambda>s. length (first_key s) < 2 ^ 32) idx" "length idx < 2 ^ 32"
    and d: "d = sstable_header @ d'"
    and img: "img = d @ bloom_block crc f @ index_block crc idx
      @ footer_image crc (of_nat (length d)) (of_nat (length (bloom_block crc f)))
          (of_nat (length d + length (bloom_block crc f))) (of_nat (length (index_block crc idx)))"
    and "length img < 2 ^ 63"
  shows "reader_open crc img = Inr \<lparr>rd_file = img, rd_bloom = Some f, rd_index = idx\<rparr>"
proof -
  define fb ib where defs: "fb = bloom_block crc f" "ib = index_block crc idx"
  define ft where "ft = footer_image crc (of_nat (length d)) (of_nat (length fb))
    (of_nat (length d + length fb)) (of_nat (length ib))"
  have img: "img = d @ fb @ ib @ ft" by (simp add: img defs ft_def)
  have len: "length d < 2 ^ 63" "length fb < 2 ^ 63" "length d + length fb < 2 ^ 63" "length ib < 2 ^ 63"
    using assms(6) by (simp_all add: img)
  have "load_bloom_filter crc (d @ fb @ ib @ ft) (of_nat (length d)) (of_nat (length fb)) = Inr f"
    unfolding defs(1) using f len
    by (intro load_bloom_image) (simp_all add: unat_of_nat_u64 flip: defs(1))
  moreover have "load_sparse_index crc ((d @ fb) @ ib @ ft) (of_nat (length d + length fb)) (of_nat (length ib)) = Inr idx"
    unfolding defs(2) using idx len
    by (intro load_index_image) (simp_all add: unat_of_nat_u64 del: of_nat_add flip: defs(2))
  moreover have "read_header (d @ fb @ ib @ ft) = Inr ()"
    using read_header_image by (simp add: d)
  moreover have "read_footer crc ((d @ fb @ ib) @ ft) = Inr \<lparr>footer_bloom_offset = of_nat (length d),
      footer_bloom_size = of_nat (length fb), footer_index_offset = of_nat (length d + length fb),
      footer_index_size = of_nat (length ib)\<rparr>"
    unfolding ft_def by (rule read_footer_image)
  ultimately show ?thesis
    by (simp add: reader_open_def img del: of_nat_add)
qed

lemma reader_open_image:
  assumes "table_ok crc f blocks"
  shows "reader_open crc (table_image crc f blocks) = Inr (image_reader crc f blocks)"
  unfolding image_reader_def
  by (rule reader_open_layout [where d = "data_part crc blocks"])
    (use assms in \<open>simp_all add: table_ok_def first_keys_bound [simplified] table_image_def data_part_def Let_def\<close>)

section \<open>Lookup in an image\<close>

text \<open>Block \<open>b\<close> of the image lies at the offset the index names.\<close>

lemma image_block_at:
  assumes "table_ok crc f blocks" and "blocks = pre @ b # post"
    and "off = of_nat (8 + length (concat (map (block_bytes crc) pre)))"
  shows "pread_exact (table_image crc f blocks) off (unat (of_nat (length (block_bytes crc b)) :: u32))
      = Inr (block_bytes crc b)"
    and "bind_res (seek_set off) (\<lambda>pos. read_exact (table_image crc f blocks) pos
          (unat (of_nat (length (block_bytes crc b)) :: u32))) = Inr (block_bytes crc b)"
proof -
  let ?a = "sstable_header @ concat (map (block_bytes crc) pre)"
  obtain rest where img: "table_image crc f blocks = ?a @ block_bytes crc b @ rest"
    using assms(2) by (auto simp: table_image_def data_part_def Let_def)
  have a: "length ?a < 2 ^ 63" using assms(1) img by (simp add: table_ok_def)
  have "off = of_nat (length ?a)" using assms(3) by simp
  then have o: "unat off = length ?a" using a unat_of_nat_u64 [of "length ?a"] by simp
  have "block_ok b" using assms(1,2) by (simp add: table_ok_def)
  then have n: "unat (of_nat (length (block_bytes crc b)) :: u32) = length (block_bytes crc b)"
    using block_okD(3) [of b] by (intro unat_of_nat_u32) (simp add: length_block_bytes)
  show "pread_exact (table_image crc f blocks) off (unat (of_nat (length (block_bytes crc b)) :: u32))
      = Inr (block_bytes crc b)"
    using img o a n by (rule pread_exact_at)
  have "seek_set off = Inr (length ?a)" using o a by (simp add: seek_set_def)
  then show "bind_res (seek_set off) (\<lambda>pos. read_exact (table_image crc f blocks) pos
          (unat (of_nat (length (block_bytes crc b)) :: u32))) = Inr (block_bytes crc b)"
    using read_exact_at [OF img refl n] by simp
qed

lemma block_bytes_payload:
  "take (length (block_bytes crc b) - 4) (block_bytes crc b) = block_payload b"
  "decode_from_le (drop (length (block_bytes crc b) - 4) (block_bytes crc b)) = (crc32 crc 0 (block_payload b) :: u32)"
  by (simp_all add: block_bytes_def)

lemma block_bytes_long: "\<not> length (block_bytes crc b) < 4"
  by (simp add: block_bytes_def)

lemma lookup_image:
  assumes ok: "table_ok crc f blocks"
  shows "lookup_entry crc (image_reader crc f blocks) key = Inr (map_of (concat blocks) key)"
proof (cases "may_contain f key")
  case False
  then have "key \<notin> fst ` set (concat blocks)" using ok by (auto simp: table_ok_def)
  then have "map_of (concat blocks) key = None" by (simp only: map_of_eq_None_iff not_False_eq_True)
  then show ?thesis using False by (simp add: lookup_entry_def image_reader_def)
next
  case contains: True
  obtain b0 bs where blocks: "blocks = b0 # bs" using ok by (cases blocks) (auto simp: table_ok_def)
  have oks: "list_all block_ok blocks" and asc: "ascending (concat blocks)"
    using ok by (simp_all add: table_ok_def)
  then have ne: "list_all (\<lambda>b. b \<noteq> []) (b0 # bs)"
    unfolding blocks by (auto simp: list_all_iff block_ok_def)
  show ?thesis
  proof (cases "key < fst (hd b0)")
    case True
    obtain p b0' where b0: "b0 = p # b0'" using ne by (cases b0) auto
    have "map_of (p # concat (b0' # bs)) key = None"
      using asc True unfolding blocks b0 by (intro ascending_Cons_lookup) simp_all
    then have "map_of (concat blocks) key = None" by (simp add: blocks b0)
    then show ?thesis using True
      by (simp add: lookup_entry_def image_reader_def contains blocks map_add_def)
  next
    case False
    then have le: "fst (hd b0) \<le> key" by simp
    from scan_index_block [OF ne asc [unfolded blocks] le, where crc = crc and off = 8] obtain pre b post where
      sel: "b0 # bs = pre @ b # post"
      "scan_index key (index_of_block crc 8 b0) (index_from crc (8 + length (block_bytes crc b0)) bs)
         = index_of_block crc (8 + length (concat (map (block_bytes crc) pre))) b"
      "map_of (concat (b0 # bs)) key = map_of b key" by blast
    have "block_ok b" using oks by (simp add: blocks sel(1))
    note b = block_okD [OF this]
    have "ascending b" using asc by (simp add: blocks sel(1) sorted_wrt_append)
    then have scan: "scan_block key (length b) (records_bytes b) = Inr (map_of b key)"
      using b(4) by (rule scan_block_records)
    have count: "length b \<le> length (records_bytes b) div 17"
      using length_records_bytes [of b] by (simp add: less_eq_div_iff_mult_less_eq mult.commute)
    note read = image_block_at(1) [OF ok [unfolded blocks] sel(1) refl]
    show ?thesis
      using False sel(2,3) read scan count b(2)
      by (simp add: lookup_entry_def image_reader_def contains blocks Let_def block_bytes_payload
          block_bytes_long)
        (rule exI [of _ "of_nat (length b)"], rule exI [of _ "records_bytes b"],
          simp add: block_payload_def unat_of_nat_u32)
  qed
qed

section \<open>Iteration over an image\<close>

text \<open>The iterator stands on the entry \<open>(k, e)\<close> of the block after \<open>pre\<close>, with
  \<open>todo\<close> behind it in the block and the blocks \<open>post\<close> after that.\<close>

definition iterator_at ::
  "block list \<Rightarrow> sst_iterator \<Rightarrow> block list \<Rightarrow> block \<Rightarrow> bytes \<times> internal_entry \<Rightarrow> block \<Rightarrow> block list \<Rightarrow> bool" where
  "iterator_at blocks it pre before p todo post \<longleftrightarrow>
     blocks = pre @ (before @ p # todo) # post
     \<and> it_block_index it = length pre \<and> it_rest it = records_bytes todo
     \<and> it_record_count it = of_nat (length (before @ p # todo))
     \<and> it_record_index it = of_nat (length before)
     \<and> it_valid it \<and> it_key it = fst p \<and> it_entry it = snd p"

lemma dec_raw_record_block:
  assumes "block_ok (before @ (k, e) # todo)"
  shows "dec_raw_record (record_bytes k e @ records_bytes todo) =
    Inr ((entry_sequence e, operation_byte (entry_operation e), k, entry_value e), records_bytes todo)"
  using block_okD(4) [OF assms, of k e] by (intro dec_raw_record_bytes) auto

lemma load_block_image:
  assumes ok: "table_ok crc f blocks" and blocks: "blocks = pre @ (p # todo) # post"
  shows "\<exists>it'. bind_res (load_block crc (image_reader crc f blocks) (length pre) it) parse_current_record = Inr it'
    \<and> iterator_at blocks it' pre [] p todo post"
proof -
  obtain k e where p: "p = (k, e)" by (cases p)
  let ?b = "(k, e) # todo"
  have bok: "block_ok ?b" using ok by (simp add: table_ok_def blocks p)
  note b = block_okD [OF bok]
  have nth: "index_from crc 8 blocks ! length pre = index_of_block crc (8 + length (concat (map (block_bytes crc) pre))) ?b"
    by (simp add: blocks p index_from_append nth_append)
  have n: "unat (of_nat (length (block_bytes crc ?b)) :: u32) = length (block_bytes crc ?b)"
    using b(3) by (intro unat_of_nat_u32) (simp only: length_block_bytes)
  have big: "8 \<le> length (block_bytes crc ?b)" by (simp add: length_block_bytes block_payload_def)
  have cnt: "(of_nat (length ?b) :: u32) \<noteq> 0"
    using b(2) unat_of_nat_u32 [of "length ?b"] by (metis length_0_conv list.discI unat_0)
  from image_block_at(2) [OF ok blocks [unfolded p] refl] obtain pos where
    pos: "seek_set (of_nat (8 + length (concat (map (block_bytes crc) pre)))) = Inr pos"
    "read_exact (table_image crc f blocks) pos (length (block_bytes crc ?b)) = Inr (block_bytes crc ?b)"
    unfolding n by (auto simp del: of_nat_add)
  let ?it = "it\<lparr>it_block_index := length pre, it_rest := record_bytes k e @ records_bytes todo,
      it_record_count := of_nat (length ?b), it_record_index := 0\<rparr>"
  have "load_block crc (image_reader crc f blocks) (length pre) it = Inr ?it"
  proof -
    have len: "length pre < length (index_from crc 8 blocks)" by (simp add: blocks)
    show ?thesis
      unfolding load_block_def image_reader_def sstable_reader.simps Let_def nth sparse_index_entry.simps n
      using len big pos cnt
      by (simp add: block_bytes_payload del: of_nat_add length_Cons) (simp add: block_payload_def)
  qed
  moreover have "parse_current_record ?it = Inr (?it\<lparr>it_rest := records_bytes todo, it_valid := True, it_key := k, it_entry := e\<rparr>)"
    using dec_raw_record_block [of "[]" k e todo] bok by (simp add: parse_current_record_def)
  ultimately show ?thesis by (simp add: iterator_at_def blocks p)
qed

lemma next_in_block:
  assumes ok: "table_ok crc f blocks" and at: "iterator_at blocks it pre before p (q # todo) post"
  shows "\<exists>it'. iterator_next crc r it = Inr it' \<and> iterator_at blocks it' pre (before @ [p]) q todo post"
proof -
  obtain k e where q: "q = (k, e)" by (cases q)
  have bok: "block_ok ((before @ [p]) @ (k, e) # todo)"
    using ok at by (auto simp: table_ok_def iterator_at_def q)
  have len: "length before + 1 < 2 ^ 32" "length before + 2 + length todo < 2 ^ 32"
    using block_okD(2) [OF bok] by simp_all
  have idx: "unat (it_record_index it + 1) = length before + 1"
    using at unat_of_nat_u32 [of "length before + 1"] len by (simp add: iterator_at_def add.commute)
  have cnt: "unat (it_record_count it) = length before + 2 + length todo"
    using at unat_of_nat_u32 [of "length before + 2 + length todo"] len by (simp add: iterator_at_def)
  have less: "it_record_index it + 1 < it_record_count it" by (simp add: word_less_nat_alt idx cnt)
  show ?thesis
    using at less dec_raw_record_block [OF bok]
    by (simp add: iterator_at_def iterator_next_def parse_current_record_def q add.commute)
qed

lemma next_at_block_end:
  assumes ok: "table_ok crc f blocks" and at: "iterator_at blocks it pre before p [] post"
  shows "iterator_next crc (image_reader crc f blocks) it =
    (if post = [] then Inr (it\<lparr>it_valid := False\<rparr>)
     else bind_res (load_block crc (image_reader crc f blocks) (length pre + 1) it) parse_current_record)"
proof -
  have bok: "block_ok (before @ [p])" using ok at by (auto simp: table_ok_def iterator_at_def)
  have len: "length before + 1 < 2 ^ 32" using block_okD(2) [OF bok] by simp
  have "it_record_index it + 1 = it_record_count it" using at by (simp add: iterator_at_def add.commute)
  then have less: "\<not> it_record_index it + 1 < it_record_count it" by simp
  have l: "length (rd_index (image_reader crc f blocks)) = length pre + 1 + length post"
    using at by (simp add: iterator_at_def image_reader_def)
  show ?thesis using at less l by (simp add: iterator_next_def iterator_at_def)
qed

lemma iterate_from_at:
  assumes ok: "table_ok crc f blocks" and at: "iterator_at blocks it pre before p todo post"
  shows "iterate_from crc (image_reader crc f blocks) it = Inr (p # todo @ concat post)"
  using at
proof (induction "length todo + length (concat post)" arbitrary: it pre before p todo post rule: less_induct)
  case less
  let ?r = "image_reader crc f blocks"
  have v: "it_valid it" "(it_key it, it_entry it) = p"
    using less.prems by (auto simp: iterator_at_def)
  note unfold = iterate_from.simps [of crc ?r it]
  show ?case
  proof (cases todo)
    case (Cons q todo')
    from next_in_block [OF ok less.prems [unfolded Cons], of ?r] obtain it' where
      it': "iterator_next crc ?r it = Inr it'" "iterator_at blocks it' pre (before @ [p]) q todo' post" by blast
    then show ?thesis using less.hyps [OF _ it'(2)] v by (simp add: unfold Cons)
  next
    case Nil
    note step = next_at_block_end [OF ok less.prems [unfolded Nil]]
    show ?thesis
    proof (cases post)
      case Nil
      then show ?thesis
        using step v \<open>todo = []\<close> iterate_from.simps [of crc ?r "it\<lparr>it_valid := False\<rparr>"] by (simp add: unfold)
    next
      case (Cons b post')
      have blocks: "blocks = (pre @ [before @ [p]]) @ b # post'"
        using less.prems \<open>todo = []\<close> Cons by (simp add: iterator_at_def)
      have "b \<noteq> []" using ok blocks by (auto simp: table_ok_def block_ok_def)
      then obtain q b' where b: "b = q # b'" by (cases b) auto
      from load_block_image [OF ok blocks [unfolded b], of it] obtain it' where
        it': "bind_res (load_block crc ?r (length (pre @ [before @ [p]])) it) parse_current_record = Inr it'"
        "iterator_at blocks it' (pre @ [before @ [p]]) [] q b' post'" by blast
      have "iterator_next crc ?r it = Inr it'" using step it'(1) Cons by simp
      then show ?thesis
        using less.hyps [OF _ it'(2)] v Cons b \<open>todo = []\<close> by (simp add: unfold)
    qed
  qed
qed

lemma iterate_image:
  assumes ok: "table_ok crc f blocks"
  shows "iterate_table crc (image_reader crc f blocks) = Inr (concat blocks)"
proof -
  obtain b post where "blocks = b # post" and "b \<noteq> []"
    using ok by (cases blocks) (auto simp: table_ok_def block_ok_def)
  then obtain p todo where blocks: "blocks = [] @ (p # todo) # post" by (cases b) auto
  have ne: "rd_index (image_reader crc f blocks) \<noteq> []" by (simp add: image_reader_def blocks)
  show ?thesis
    using load_block_image [OF ok blocks] iterate_from_at [OF ok] ne
    by (fastforce simp: iterate_table_def iterator_new_def blocks Let_def)
qed

section \<open>The interface of a sorted table\<close>

text \<open>
  What the compactor and the engine rely on: a published table file stands for one ascending
  list of entries, a lookup is the lookup in that list and draining an iterator returns it.
\<close>

locale sorted_table =
  fixes holds :: "'f \<Rightarrow> ('k::linorder \<times> 'v) list \<Rightarrow> bool"
    and lookup :: "'f \<Rightarrow> 'k \<Rightarrow> 'e + 'v option"
    and iterate :: "'f \<Rightarrow> 'e + ('k \<times> 'v) list"
  assumes content_ascending: "holds f es \<Longrightarrow> ascending es"
    and lookup_content: "holds f es \<Longrightarrow> lookup f k = Inr (map_of es k)"
    and iterate_content: "holds f es \<Longrightarrow> iterate f = Inr es"
begin

lemma content_unique: "holds f es \<Longrightarrow> holds f es' \<Longrightarrow> es = es'"
  using iterate_content by (metis Inr_inject)

lemma found_iff_iterated:
  "holds f es \<Longrightarrow> iterate f = Inr xs \<Longrightarrow> lookup f k = Inr (Some v) \<longleftrightarrow> (k, v) \<in> set xs"
  using content_ascending [of f es] lookup_content [of f es] iterate_content [of f es]
  by (simp add: ascending_map_of_mem)

end

definition table_holds :: "crc_fn \<Rightarrow> bytes \<Rightarrow> (bytes \<times> internal_entry) list \<Rightarrow> bool" where
  "table_holds crc tbl es \<longleftrightarrow>
     (\<exists>f blocks. table_ok crc f blocks \<and> tbl = table_image crc f blocks \<and> es = concat blocks)"

text \<open>Opening a table and using it once, as the engine does for a lookup and the compactor for a
  scan.\<close>

definition table_lookup :: "crc_fn \<Rightarrow> bytes \<Rightarrow> bytes \<Rightarrow> kerror + internal_entry option" where
  "table_lookup crc tbl key = bind_res (reader_open crc tbl) (\<lambda>r. lookup_entry crc r key)"

definition table_scan :: "crc_fn \<Rightarrow> bytes \<Rightarrow> kerror + (bytes \<times> internal_entry) list" where
  "table_scan crc tbl = bind_res (reader_open crc tbl) (iterate_table crc)"

interpretation sst: sorted_table "table_holds crc" "table_lookup crc" "table_scan crc"
proof unfold_locales
  fix tbl es k
  assume "table_holds crc tbl es"
  then obtain f blocks where h: "table_ok crc f blocks" "tbl = table_image crc f blocks" "es = concat blocks"
    by (auto simp: table_holds_def)
  show "ascending es" using h by (simp add: table_ok_def)
  show "table_lookup crc tbl k = Inr (map_of es k)"
    using h lookup_image [OF h(1), of k] reader_open_image [OF h(1)] by (simp add: table_lookup_def)
  show "table_scan crc tbl = Inr es"
    using h iterate_image [OF h(1)] reader_open_image [OF h(1)] by (simp add: table_scan_def)
qed

end
