(* ===== verification/Sstable_Properties.thy ===== *)
theory Sstable_Properties
  imports Sstable_Table
begin

text \<open>
  The properties of the table file: what the builder accepts, that the reader gives back exactly
  what was added, what a successful lookup guarantees on a file of unknown content, and a size
  the write-ahead log accepts but the table format cannot represent.
\<close>

section \<open>What the builder produces\<close>

lemma bloom_new_filter:
  assumes "bloom_new bits (of_nat n) = Inr f" and "unat bits * n + 7 < 2 ^ 32" and "n < 2 ^ 64"
  shows "filter_ok (fold bloom_add ks f)" and "\<forall>k\<in>set ks. may_contain (fold bloom_add ks f) k"
proof -
  have n: "unat (of_nat n :: u64) = n" using assms(3) by (rule unat_of_nat_u64)
  have "unat bits * unat (of_nat n :: u64) + 7 < 2 ^ 64" using assms(2) n by simp
  note wf = bloom_new_wf [OF assms(1) this]
  have "bits \<noteq> 0" "(of_nat n :: u64) \<noteq> 0" using assms(1) by (auto simp: bloom_new_def split: if_splits)
  then have ne: "bits \<noteq> 0" "n \<noteq> 0" by (auto intro: ccontr)
  then have "unat bits \<le> unat bits * n" by simp
  then have b: "unat bits < 2 ^ 32" using assms(2) by linarith
  have probes: "unat (probe_count f) < 2 ^ 32" using bloom_probes_bound [OF assms(1)] b by simp
  have keep: "bit_count (fold bloom_add ks g) = bit_count g \<and> probe_count (fold bloom_add ks g) = probe_count g
      \<and> length (filter_bits (fold bloom_add ks g)) = length (filter_bits g)" for g
    by (induction ks arbitrary: g) (auto simp: bloom_add_def Let_def)
  show "filter_ok (fold bloom_add ks f)"
    using keep [of f] wf probes assms(2) n by (auto simp: filter_ok_def bloom_wf_def)
  show "\<forall>k\<in>set ks. may_contain (fold bloom_add ks f) k" using bloom.contains_fold [OF wf(1)] by blast
qed

lemma length_blocks: "list_all block_ok blocks \<Longrightarrow> length blocks \<le> length (concat blocks)"
proof (induction blocks)
  case (Cons b blocks)
  then have "1 \<le> length b" by (cases b) (auto simp: block_ok_def)
  with Cons show ?case by simp
qed simp

lemma builder_add_all_ascending:
  assumes "running_crc crc" and "unat target < 2 ^ 32" and "list_all entry_fits es" and "ascending es"
  shows "\<exists>b blocks cur. builder_add_all crc es (builder_new target bits) = Inr b
    \<and> builder_inv crc blocks cur b \<and> concat blocks @ cur = es \<and> bits_per_key b = bits"
  using builder_add_all_inv [OF assms(1) _ builder_inv_new assms(3), of target bits] assms(2,4)
  by (auto simp: builder_new_def)

lemma builder_finish_Inl:
  assumes "builder_inv crc blocks cur b" and "running_crc crc"
    and "concat blocks @ cur = [] \<or> bits_per_key b = 0"
  shows "builder_finish crc b = Inl (if concat blocks @ cur = [] then Sst_Empty else Bloom_Zero_Argument)"
proof -
  have inv: "bloom_keys (flush_current_block crc b) = map fst (concat blocks @ cur)"
    "bits_per_key (flush_current_block crc b) = bits_per_key b"
    using assms(1) flush_inv [OF assms(2,1)] current_block_Nil_iff [OF assms(1)]
    by (auto simp: builder_inv_def flush_current_block_def Let_def)
  show ?thesis
    using assms(3) by (auto simp: builder_finish_def inv bloom_new_def Let_def)
qed

text \<open>The size of a finished file in terms of the size of its records.\<close>

lemma length_index_entries_le:
  "list_all block_ok blocks \<Longrightarrow>
   length (concat (map index_entry_bytes (index_from crc off blocks)))
     \<le> 16 * length blocks + length (records_bytes (concat blocks))"
proof (induction blocks arbitrary: off)
  case (Cons b blocks)
  then have "hd b \<in> set b" by (simp add: block_ok_def)
  then have "length (fst (hd b)) \<le> length (records_bytes b)"
    using entry_in_records [of "fst (hd b)" "snd (hd b)" b] by simp
  with Cons.IH [of "off + length (block_bytes crc b)"] Cons.prems show ?case by simp
qed simp

lemma length_block_list: "length (concat (map (block_bytes crc) blocks)) = 8 * length blocks + length (records_bytes (concat blocks))"
  by (induction blocks) (auto simp: block_bytes_def block_payload_def)

lemma length_table_image:
  assumes "list_all block_ok blocks"
  shows "length (table_image crc f blocks)
    \<le> 64 + 24 * length (concat blocks) + 2 * length (records_bytes (concat blocks)) + length (filter_bits f)"
  using length_index_entries_le [OF assms, of crc 8] length_blocks [OF assms]
  by (simp add: table_image_def data_part_def Let_def length_block_list index_block_def)

lemma sstable_build_cases:
  assumes "running_crc crc" and "unat target < 2 ^ 32" and "list_all entry_fits es"
    and "unat bits * length es + 7 < 2 ^ 32"
  shows "if \<not> ascending es then sstable_build crc target bits es = Inl Sst_Keys_Not_Increasing
    else if es = [] then sstable_build crc target bits es = Inl Sst_Empty
    else if bits = 0 then sstable_build crc target bits es = Inl Bloom_Zero_Argument
    else \<exists>f blocks. sstable_build crc target bits es = Inr (table_image crc f blocks)
      \<and> concat blocks = es \<and> list_all block_ok blocks \<and> length (filter_bits f) < 2 ^ 32
      \<and> (length (table_image crc f blocks) < 2 ^ 63 \<longrightarrow> table_ok crc f blocks)"
proof (cases "ascending es")
  case True
  obtain b blocks cur where b: "builder_add_all crc es (builder_new target bits) = Inr b"
    "builder_inv crc blocks cur b" "concat blocks @ cur = es" "bits_per_key b = bits"
    using builder_add_all_ascending [OF assms(1-3) True] by blast
  show ?thesis
  proof (cases "es = [] \<or> bits = 0")
    case True
    then show ?thesis
      using builder_finish_Inl [OF b(2) assms(1)] b \<open>ascending es\<close> by (auto simp: sstable_build_def)
  next
    case False
    then have ne: "es \<noteq> []" "bits \<noteq> 0" by auto
    then have "length es \<le> unat bits * length es" by (simp add: unat_gt_0 Suc_le_eq)
    then have n: "length es < 2 ^ 32" using assms(4) by linarith
    then have n64: "length es < 2 ^ 64" by simp
    then have "(of_nat (length es) :: u64) \<noteq> 0"
      using unat_of_nat_u64 [OF n64] ne by (metis length_0_conv unat_0)
    then obtain f where f: "bloom_new bits (of_nat (length es)) = Inr f"
      using bloom_new_Inl ne by (metis sum.exhaust)
    obtain blks where blks: "concat blks = es" "list_all block_ok blks"
      "sstable_build crc target bits es = Inr (table_image crc (fold bloom_add (map fst es) f) blks)"
      using sstable_build_image [OF assms(1-3) ne(1) \<open>ascending es\<close> f] by blast
    let ?f = "fold bloom_add (map fst es) f"
    note filt = bloom_new_filter [OF f assms(4) n64, of "map fst es"]
    have "length blks < 2 ^ 32" using length_blocks [OF blks(2)] blks(1) n by simp
    then have ok: "length (table_image crc ?f blks) < 2 ^ 63 \<longrightarrow> table_ok crc ?f blks"
      using filt blks \<open>ascending es\<close> ne(1) by (auto simp: table_ok_def)
    have "length (filter_bits ?f) < 2 ^ 32" using filt(1) by (auto simp: filter_ok_def)
    with ok blks ne \<open>ascending es\<close> show ?thesis by (simp only: if_False not_True_eq_False) blast
  qed
qed (use sstable_build_rejects [OF assms(1-3)] in simp)

lemma sstable_build_holds:
  assumes "running_crc crc" and "unat target < 2 ^ 32" and "list_all entry_fits es"
    and "unat bits * length es + 7 < 2 ^ 32"
    and "sstable_build crc target bits es = Inr out" and "length out < 2 ^ 63"
  shows "table_holds crc out es"
  using sstable_build_cases [OF assms(1-4)] assms(5,6)
  by (auto simp: table_holds_def split: if_splits)

section \<open>Round trips\<close>

text \<open>C25: A lookup in a table returns exactly what was added. For any entries the builder accepted,
  under any checksum that can be computed incrementally, opening the finished file and looking
  up a key gives the entry of the key, and nothing for a key that was not added.\<close>
theorem sstable_lookup_round_trip:
  assumes "running_crc crc" and "unat target < 2 ^ 32" and "list_all entry_fits es"
    and "unat bits * length es + 7 < 2 ^ 32"
    and "sstable_build crc target bits es = Inr out" and "length out < 2 ^ 63"
  shows "table_lookup crc out key = Inr (map_of es key)"
  by (rule sst.lookup_content [OF sstable_build_holds [OF assms]])

abbreviation example_entries :: "(bytes \<times> internal_entry) list" where
  "example_entries \<equiv>
     [([1], \<lparr>entry_value = [7], entry_sequence = 5, entry_operation = PUT\<rparr>),
      ([1, 2], \<lparr>entry_value = [], entry_sequence = 6, entry_operation = DELETE\<rparr>),
      ([3], \<lparr>entry_value = [8, 9], entry_sequence = 2, entry_operation = PUT\<rparr>)]"

lemma example_fits: "list_all entry_fits example_entries" "unat (40 :: u64) < 2 ^ 32"
  "unat (10 :: u64) * length example_entries + 7 < 2 ^ 32"
  by (simp_all add: entry_fits_def)

lemma example_build:
  "\<exists>out. sstable_build sum_crc 40 10 example_entries = Inr out \<and> length out < 2 ^ 63"
proof -
  have asc: "ascending example_entries" by simp
  obtain f blocks where b: "sstable_build sum_crc 40 10 example_entries = Inr (table_image sum_crc f blocks)"
    "concat blocks = example_entries" "list_all block_ok blocks" "length (filter_bits f) < 2 ^ 32"
    using sstable_build_cases [OF running_crc_sum_crc example_fits(2,1,3)] asc by (auto split: if_splits)
  have "length (table_image sum_crc f blocks) < 2 ^ 63"
    using length_table_image [OF b(3), of sum_crc f] b(4) by (simp add: b(2))
  with b(1) show ?thesis by blast
qed

theorem sstable_lookup_round_trip_witness:
  "\<exists>out. sstable_build sum_crc 40 10 example_entries = Inr out
     \<and> table_lookup sum_crc out [1, 2] = Inr (Some \<lparr>entry_value = [], entry_sequence = 6, entry_operation = DELETE\<rparr>)
     \<and> table_lookup sum_crc out [2] = Inr None"
proof -
  obtain out where out: "sstable_build sum_crc 40 10 example_entries = Inr out" "length out < 2 ^ 63"
    using example_build by blast
  show ?thesis
    using sstable_lookup_round_trip [OF running_crc_sum_crc example_fits(2,1,3) out, of "[1, 2]"]
      sstable_lookup_round_trip [OF running_crc_sum_crc example_fits(2,1,3) out, of "[2]"] out(1)
    by simp
qed

text \<open>Draining an iterator over a finished table returns the entries that were added, all of
  them, once each and in key order, whatever the blocks they were cut into.\<close>
theorem sstable_scan_round_trip:
  assumes "running_crc crc" and "unat target < 2 ^ 32" and "list_all entry_fits es"
    and "unat bits * length es + 7 < 2 ^ 32"
    and "sstable_build crc target bits es = Inr out" and "length out < 2 ^ 63"
  shows "table_scan crc out = Inr es"
  by (rule sst.iterate_content [OF sstable_build_holds [OF assms]])

theorem sstable_scan_round_trip_witness:
  "\<exists>out. sstable_build sum_crc 40 10 example_entries = Inr out \<and> table_scan sum_crc out = Inr example_entries"
proof -
  obtain out where out: "sstable_build sum_crc 40 10 example_entries = Inr out" "length out < 2 ^ 63"
    using example_build by blast
  show ?thesis
    using sstable_scan_round_trip [OF running_crc_sum_crc example_fits(2,1,3) out] out(1) by blast
qed

text \<open>What the builder accepts. A sequence of additions followed by \<open>finish\<close> succeeds exactly
  for a non-empty sequence of strictly increasing keys and a non-zero number of filter bits;
  keys out of order are refused before an empty table or a bad filter setting is noticed.\<close>
theorem sstable_build_accepts:
  assumes "running_crc crc" and "unat target < 2 ^ 32" and "list_all entry_fits es"
    and "unat bits * length es + 7 < 2 ^ 32"
  shows "((\<exists>out. sstable_build crc target bits es = Inr out) \<longleftrightarrow> ascending es \<and> es \<noteq> [] \<and> bits \<noteq> 0)
    \<and> (\<forall>e. sstable_build crc target bits es = Inl e \<longrightarrow>
         e = (if \<not> ascending es then Sst_Keys_Not_Increasing
              else if es = [] then Sst_Empty else Bloom_Zero_Argument))"
  using sstable_build_cases [OF assms] by (auto split: if_splits)

theorem sstable_build_accepts_witness:
  "(\<exists>out. sstable_build sum_crc 40 10 example_entries = Inr out)
   \<and> \<not> (\<exists>out. sstable_build sum_crc 40 10 (rev example_entries) = Inr out)"
  using sstable_build_accepts [OF running_crc_sum_crc example_fits(2,1,3)]
    sstable_build_accepts [OF running_crc_sum_crc example_fits(2), of "rev example_entries" 10] example_fits(1,3)
  by (auto simp: entry_fits_def)

section \<open>Reading a file of unknown content\<close>

lemma take_le32_InrD: "take_le e s = Inr (v :: u32, s') \<Longrightarrow> s = encode_to_le v @ s'"
  by (auto simp: take_le_def encode_decode_le32 dest!: take_bytes_InrD)

lemma take_le64_InrD: "take_le e s = Inr (v :: u64, s') \<Longrightarrow> s = encode_to_le v @ s'"
  by (auto simp: take_le_def encode_decode_le64 dest!: take_bytes_InrD)

lemma dec_raw_record_InrD:
  assumes "dec_raw_record s = Inr ((sequence, b, k, v), s')" and "operation_of_byte b = Some op"
  shows "s = record_bytes k \<lparr>entry_value = v, entry_sequence = sequence, entry_operation = op\<rparr> @ s'"
proof -
  have b: "b = operation_byte op" using assms(2) by (auto simp: operation_of_byte_def split: if_splits)
  have one: "\<exists>x. u = [x]" if "length u = Suc 0" for u :: bytes using that by (cases u) auto
  show ?thesis
    using assms(1) b
    by (auto simp: dec_raw_record_def record_bytes_def dest!: take_le32_InrD take_le64_InrD take_bytes_InrD one)
qed

lemma scan_block_found:
  "scan_block key n s = Inr (Some e) \<Longrightarrow> \<exists>before after. s = before @ record_bytes key e @ after"
proof (induction key n s rule: scan_block.induct)
  case (2 key n s)
  from "2.prems" obtain sequence b k v s' where d: "dec_raw_record s = Inr ((sequence, b, k, v), s')" by auto
  then obtain front where front: "s = front @ s'"
    by (auto simp: dec_raw_record_def dest!: take_le_InrD take_bytes_InrD)
  show ?case
  proof (cases "k = key")
    case True
    then show ?thesis
      using "2.prems" d by (auto split: option.splits dest!: dec_raw_record_InrD intro: exI [of _ "[]"])
  next
    case False
    then have "scan_block key n s' = Inr (Some e)" using "2.prems" d by (auto split: if_splits)
    then obtain before after where "s' = before @ record_bytes key e @ after"
      using "2.IH" [OF _ refl refl refl refl] d "2.prems" False by (simp split: if_splits) blast
    then show ?thesis using front by (intro exI [of _ "front @ before"] exI [of _ after]) simp
  qed
qed (auto split: if_splits)

lemma pread_exact_InrD:
  "pread_exact f off len = Inr b \<Longrightarrow> (\<exists>front behind. f = front @ b @ behind) \<and> length b = len"
  by (auto simp: pread_exact_def split: if_splits)
    (metis append_take_drop_id append.assoc)

lemma lookup_entry_found:
  assumes "lookup_entry crc r key = Inr (Some e)"
  shows "\<exists>front payload behind before after.
    rd_file r = front @ payload @ encode_to_le (crc32 crc 0 payload) @ behind
    \<and> payload = before @ record_bytes key e @ after"
proof -
  obtain off len b count s where b: "pread_exact (rd_file r) off len = Inr b" "\<not> length b < 4"
    "crc32 crc 0 (take (length b - 4) b) = (decode_from_le (drop (length b - 4) b) :: u32)"
    "take_le Sst_Block_Corrupted (take (length b - 4) b) = Inr (count :: u32, s)"
    "scan_block key (unat count) s = Inr (Some e)"
    using assms by (auto simp: lookup_entry_def Let_def split: if_splits list.splits)
  have "length (drop (length b - 4) b) = 4" using b(2) by simp
  then have "encode_to_le (crc32 crc 0 (take (length b - 4) b)) = drop (length b - 4) b"
    using b(3) by (simp add: encode_decode_le32)
  then have split: "b = take (length b - 4) b @ encode_to_le (crc32 crc 0 (take (length b - 4) b))" by simp
  obtain c where "take (length b - 4) b = c @ s" using take_le_InrD [OF b(4)] by blast
  moreover obtain before after where "s = before @ record_bytes key e @ after"
    using scan_block_found [OF b(5)] by blast
  moreover obtain front behind where "rd_file r = front @ b @ behind" using pread_exact_InrD [OF b(1)] by blast
  ultimately show ?thesis
    using split by (metis append.assoc)
qed

text \<open>C26: A lookup that finds something is backed by the file. Whatever the bytes of a table file
  are, if it opens and a lookup of a key returns an entry, then the file contains a block whose
  stored checksum is the checksum of its payload, and in that payload the serialized record of
  exactly that key, value, sequence and operation.\<close>
theorem sstable_lookup_sound:
  assumes "table_lookup crc tbl key = Inr (Some e)"
  shows "\<exists>front payload behind before after.
    tbl = front @ payload @ encode_to_le (crc32 crc 0 payload) @ behind
    \<and> payload = before @ record_bytes key e @ after"
proof -
  obtain r where r: "reader_open crc tbl = Inr r" "lookup_entry crc r key = Inr (Some e)"
    using assms by (auto simp: table_lookup_def)
  then have "rd_file r = tbl" by (auto simp: reader_open_def)
  then show ?thesis using lookup_entry_found [OF r(2)] by simp
qed

theorem sstable_lookup_sound_witness:
  "\<exists>out front payload behind before after. sstable_build sum_crc 40 10 example_entries = Inr out
     \<and> out = front @ payload @ encode_to_le (crc32 sum_crc 0 payload) @ behind
     \<and> payload = before @ record_bytes [3] \<lparr>entry_value = [8, 9], entry_sequence = 2, entry_operation = PUT\<rparr> @ after"
proof -
  obtain out where out: "sstable_build sum_crc 40 10 example_entries = Inr out" "length out < 2 ^ 63"
    using example_build by blast
  have "table_lookup sum_crc out [3] = Inr (Some \<lparr>entry_value = [8, 9], entry_sequence = 2, entry_operation = PUT\<rparr>)"
    using sst.lookup_content [OF sstable_build_holds [OF running_crc_sum_crc example_fits(2,1,3) out], of "[3]"] by simp
  from sstable_lookup_sound [OF this] show ?thesis using out(1) by blast
qed

section \<open>A size the format cannot represent\<close>

text \<open>C28: Block sizes are truncated to 32 bits. The write-ahead log accepts any key and value whose
  lengths fit 32 bits each, but a block that holds the pair adds 25 bytes. When the sum is
  exactly \<open>2 ^ 32\<close> the builder finishes without an error and the file opens, but the index
  says the block is 0 bytes long: looking up the key throws, and so does every iteration.\<close>
theorem sstable_oversized_block_unreadable:
  assumes "running_crc crc" and "length k + length (entry_value e) + 25 = 2 ^ 32"
    and "bits \<noteq> 0" and "unat bits + 7 < 2 ^ 32"
  shows "\<exists>out r. sstable_build crc target bits [(k, e)] = Inr out \<and> reader_open crc out = Inr r
    \<and> lookup_entry crc r k = Inl Sst_Block_Corrupted \<and> iterator_new crc r = Inl Sst_Block_Size"
proof -
  obtain f0 where f0: "bloom_new bits (of_nat 1) = Inr f0"
    using bloom_new_Inl [of bits 1] assms(3) by (metis of_nat_1 sum.exhaust zero_neq_one)
  let ?f = "fold bloom_add [k] f0"
  have filt: "filter_ok ?f" "may_contain ?f k"
    using bloom_new_filter [OF f0, of "[k]"] assms(4) by simp_all
  let ?c = "encode_to_le (1 :: u32)"
  let ?d = "sstable_header @ ?c @ record_bytes k e @ encode_to_le (crc32 crc (crc32 crc 0 ?c) (record_bytes k e))"
  let ?idx = "[\<lparr>first_key = k, block_offset = 8, block_size = 0\<rparr>]"
  define out where "out = ?d @ bloom_block crc ?f @ index_block crc ?idx
      @ footer_image crc (of_nat (length ?d)) (of_nat (length (bloom_block crc ?f)))
          (of_nat (length ?d + length (bloom_block crc ?f))) (of_nat (length (index_block crc ?idx)))"
  have sz: "(of_nat (length ?c + length (record_bytes k e) + 4) :: u32) = 0"
  proof -
    have "length ?c + length (record_bytes k e) + 4 = 2 ^ 32" using assms(2) by simp
    then show ?thesis by (simp only: of_nat_power) simp
  qed
  have "sstable_build crc target bits [(k, e)] = Inr out"
    using f0 sz
    by (simp add: sstable_build_def builder_new_def builder_add_def append_record_def builder_finish_def
        flush_current_block_def Let_def out_def footer_bytes_image [OF assms(1)] add.assoc)
  moreover have "length out < 2 ^ 63"
  proof -
    have "length (filter_bits ?f) < 2 ^ 32" using filt(1) by (auto simp: filter_ok_def)
    then show ?thesis using assms(2) by (simp add: out_def index_block_def Let_def)
  qed
  then have "reader_open crc out = Inr \<lparr>rd_file = out, rd_bloom = Some ?f, rd_index = ?idx\<rparr>"
    using assms(2) by (intro reader_open_layout [OF filt(1) _ _ refl out_def]) simp_all
  moreover have "lookup_entry crc \<lparr>rd_file = out, rd_bloom = Some ?f, rd_index = ?idx\<rparr> k = Inl Sst_Block_Corrupted"
    using filt(2) by (simp add: lookup_entry_def pread_exact_def)
  moreover have "iterator_new crc \<lparr>rd_file = out, rd_bloom = Some ?f, rd_index = ?idx\<rparr> = Inl Sst_Block_Size"
    by (simp add: iterator_new_def load_block_def Let_def)
  ultimately show ?thesis by blast
qed

theorem sstable_oversized_block_unreadable_witness:
  "\<exists>out r. sstable_build sum_crc 4096 10
       [([1], \<lparr>entry_value = replicate (2 ^ 32 - 26) 0, entry_sequence = 0, entry_operation = PUT\<rparr>)] = Inr out
     \<and> reader_open sum_crc out = Inr r
     \<and> lookup_entry sum_crc r [1] = Inl Sst_Block_Corrupted \<and> iterator_new sum_crc r = Inl Sst_Block_Size"
  by (rule sstable_oversized_block_unreadable [OF running_crc_sum_crc]) simp_all

end
