(* ===== verification/Compaction_Policy.thy ===== *)
theory Compaction_Policy
  imports Kronos_Types "HOL-Library.Multiset"
begin

text \<open>
  src/src/compaction_policy.cpp: when to compact and which files take part. The policy has one
  field, the number of L0 files that triggers a compaction; everything else is computed from the
  list of live files.
\<close>

section \<open>The policy\<close>

definition default_l0_file_trigger :: u64 where "default_l0_file_trigger = 4"
definition bottom_level :: u64 where "bottom_level = 1"

definition policy_new :: "u64 \<Rightarrow> kerror + u64" where
  "policy_new l0_file_trigger =
     (if l0_file_trigger = 0 then Inl Policy_Zero_Trigger else Inr l0_file_trigger)"

definition ranges_overlap :: "bytes \<Rightarrow> bytes \<Rightarrow> bytes \<Rightarrow> bytes \<Rightarrow> bool" where
  "ranges_overlap a_smallest a_largest b_smallest b_largest \<longleftrightarrow>
     \<not> (a_largest < b_smallest \<or> b_largest < a_smallest)"

definition should_compact :: "u64 \<Rightarrow> sstable_metadata list \<Rightarrow> bool" where
  "should_compact trigger live \<longleftrightarrow> unat trigger \<le> length (filter (\<lambda>m. md_level m = 0) live)"

text \<open>The two collecting loops of \<open>pickCompaction\<close>; each throws at the first file of its level
  whose range is reversed.\<close>

fun collect_l0 :: "sstable_metadata list \<Rightarrow> kerror + sstable_metadata list" where
  "collect_l0 [] = Inr []"
| "collect_l0 (m # ms) =
     (if md_level m \<noteq> 0 then collect_l0 ms
      else if md_largest m < md_smallest m then Inl Policy_Invalid_L0_Range
      else bind_res (collect_l0 ms) (\<lambda>fs. Inr (m # fs)))"

fun collect_l1 :: "bytes \<Rightarrow> bytes \<Rightarrow> sstable_metadata list \<Rightarrow> kerror + sstable_metadata list" where
  "collect_l1 lo hi [] = Inr []"
| "collect_l1 lo hi (m # ms) =
     (if md_level m \<noteq> 1 then collect_l1 lo hi ms
      else if md_largest m < md_smallest m then Inl Policy_Invalid_L1_Range
      else if ranges_overlap lo hi (md_smallest m) (md_largest m)
      then bind_res (collect_l1 lo hi ms) (\<lambda>fs. Inr (m # fs))
      else collect_l1 lo hi ms)"

definition pick_compaction :: "u64 \<Rightarrow> sstable_metadata list \<Rightarrow> kerror + compaction_plan option" where
  "pick_compaction trigger live =
     bind_res (collect_l0 live) (\<lambda>l0_files.
     if length l0_files < unat trigger then Inr None
     else
       let lo = fold (\<lambda>m k. min k (md_smallest m)) l0_files (md_smallest (hd l0_files));
           hi = fold (\<lambda>m k. max k (md_largest m)) l0_files (md_largest (hd l0_files))
       in bind_res (collect_l1 lo hi live) (\<lambda>l1_files.
          Inr (Some \<lparr>input_files = sort (l0_files @ l1_files), output_level = 1,
                     can_drop_tombstones = (1 = bottom_level)\<rparr>)))"

section \<open>What the loops collect\<close>

definition valid_range :: "sstable_metadata \<Rightarrow> bool" where
  "valid_range m \<longleftrightarrow> md_smallest m \<le> md_largest m"

definition in_range :: "bytes \<Rightarrow> sstable_metadata \<Rightarrow> bool" where
  "in_range k m \<longleftrightarrow> md_smallest m \<le> k \<and> k \<le> md_largest m"

abbreviation overlaps :: "sstable_metadata \<Rightarrow> sstable_metadata \<Rightarrow> bool" where
  "overlaps a b \<equiv> ranges_overlap (md_smallest a) (md_largest a) (md_smallest b) (md_largest b)"

lemma overlaps_iff_common_key:
  assumes "valid_range a" "valid_range b"
  shows "overlaps a b \<longleftrightarrow> (\<exists>k. in_range k a \<and> in_range k b)"
proof
  assume o: "overlaps a b"
  show "\<exists>k. in_range k a \<and> in_range k b"
    using assms o
    by (intro exI [of _ "max (md_smallest a) (md_smallest b)"])
      (auto simp: in_range_def ranges_overlap_def valid_range_def not_less)
qed (auto simp: in_range_def ranges_overlap_def)

lemma collect_l0_valid:
  "(\<forall>m\<in>set live. md_level m = 0 \<longrightarrow> valid_range m) \<Longrightarrow>
   collect_l0 live = Inr (filter (\<lambda>m. md_level m = 0) live)"
  by (induction live) (auto simp: valid_range_def)

lemma collect_l0_InrD:
  "collect_l0 live = Inr fs \<Longrightarrow>
   fs = filter (\<lambda>m. md_level m = 0) live \<and> (\<forall>m\<in>set fs. valid_range m)"
  by (induction live arbitrary: fs) (auto simp: valid_range_def split: if_splits)

lemma collect_l1_valid:
  "(\<forall>m\<in>set live. md_level m = 1 \<longrightarrow> valid_range m) \<Longrightarrow>
   collect_l1 lo hi live =
     Inr (filter (\<lambda>m. md_level m = 1 \<and> ranges_overlap lo hi (md_smallest m) (md_largest m)) live)"
  by (induction live) (auto simp: valid_range_def)

lemma collect_l1_InrD:
  "collect_l1 lo hi live = Inr fs \<Longrightarrow>
   fs = filter (\<lambda>m. md_level m = 1 \<and> ranges_overlap lo hi (md_smallest m) (md_largest m)) live
   \<and> (\<forall>m\<in>set live. md_level m = 1 \<longrightarrow> valid_range m)"
  by (induction live arbitrary: fs) (auto simp: valid_range_def split: if_splits)

lemma fold_min: "fold (\<lambda>m k. min k (f m)) ms (a :: 'a::linorder) = Min (insert a (f ` set ms))"
proof (induction ms arbitrary: a)
  case (Cons m ms)
  have "fold (\<lambda>m k. min k (f m)) (m # ms) a = Min (insert (min a (f m)) (f ` set ms))"
    using Cons.IH [of "min a (f m)"] by simp
  also have "\<dots> = Min (insert a (f ` set (m # ms)))"
    by (cases "ms = []") (simp_all add: Min_insert insert_commute min.assoc)
  finally show ?case .
qed simp

lemma fold_max: "fold (\<lambda>m k. max k (f m)) ms (a :: 'a::linorder) = Max (insert a (f ` set ms))"
proof (induction ms arbitrary: a)
  case (Cons m ms)
  have "fold (\<lambda>m k. max k (f m)) (m # ms) a = Max (insert (max a (f m)) (f ` set ms))"
    using Cons.IH [of "max a (f m)"] by simp
  also have "\<dots> = Max (insert a (f ` set (m # ms)))"
    by (cases "ms = []") (simp_all add: Max_insert insert_commute max.assoc)
  finally show ?case .
qed simp

text \<open>The combined range of a non-empty list of files.\<close>

definition hull_low :: "sstable_metadata list \<Rightarrow> bytes" where
  "hull_low ms = Min (md_smallest ` set ms)"

definition hull_high :: "sstable_metadata list \<Rightarrow> bytes" where
  "hull_high ms = Max (md_largest ` set ms)"

lemma hull_bounds: "m \<in> set ms \<Longrightarrow> hull_low ms \<le> md_smallest m \<and> md_largest m \<le> hull_high ms"
  by (simp add: hull_low_def hull_high_def)

lemma hull_attained:
  assumes "ms \<noteq> []"
  shows "\<exists>a\<in>set ms. md_smallest a = hull_low ms" and "\<exists>b\<in>set ms. md_largest b = hull_high ms"
proof -
  have "Min (md_smallest ` set ms) \<in> md_smallest ` set ms" by (rule Min_in) (use assms in auto)
  then show "\<exists>a\<in>set ms. md_smallest a = hull_low ms" unfolding hull_low_def by (metis imageE)
  have "Max (md_largest ` set ms) \<in> md_largest ` set ms" by (rule Max_in) (use assms in auto)
  then show "\<exists>b\<in>set ms. md_largest b = hull_high ms" unfolding hull_high_def by (metis imageE)
qed

abbreviation l0_of :: "sstable_metadata list \<Rightarrow> sstable_metadata list" where
  "l0_of live \<equiv> filter (\<lambda>m. md_level m = 0) live"

abbreviation l1_touched :: "sstable_metadata list \<Rightarrow> sstable_metadata list" where
  "l1_touched live \<equiv> filter (\<lambda>m. md_level m = 1
     \<and> ranges_overlap (hull_low (l0_of live)) (hull_high (l0_of live)) (md_smallest m) (md_largest m)) live"

lemma pick_compaction_SomeD:
  assumes "pick_compaction trigger live = Inr (Some plan)" and "trigger \<noteq> 0"
  shows "plan = \<lparr>input_files = sort (l0_of live @ l1_touched live), output_level = 1, can_drop_tombstones = True\<rparr>"
    and "l0_of live \<noteq> []" and "unat trigger \<le> length (l0_of live)"
    and "\<forall>m\<in>set live. md_level m \<le> 1 \<longrightarrow> valid_range m"
proof -
  obtain l0 l1 where l0: "collect_l0 live = Inr l0" "\<not> length l0 < unat trigger"
    and l1: "collect_l1 (fold (\<lambda>m k. min k (md_smallest m)) l0 (md_smallest (hd l0)))
        (fold (\<lambda>m k. max k (md_largest m)) l0 (md_largest (hd l0))) live = Inr l1"
    and plan: "plan = \<lparr>input_files = sort (l0 @ l1), output_level = 1, can_drop_tombstones = (1 = bottom_level)\<rparr>"
    using assms(1) by (auto simp: pick_compaction_def Let_def split: if_splits)
  note c0 = collect_l0_InrD [OF l0(1)]
  have ne: "l0 \<noteq> []" using l0(2) assms(2) by (auto simp: unat_eq_0)
  then have "md_smallest (hd l0) \<in> md_smallest ` set l0" "md_largest (hd l0) \<in> md_largest ` set l0" by auto
  then have "fold (\<lambda>m k. min k (md_smallest m)) l0 (md_smallest (hd l0)) = hull_low l0"
    "fold (\<lambda>m k. max k (md_largest m)) l0 (md_largest (hd l0)) = hull_high l0"
    by (simp_all add: fold_min fold_max hull_low_def hull_high_def insert_absorb)
  with l1 have "collect_l1 (hull_low l0) (hull_high l0) live = Inr l1" by simp
  from collect_l1_InrD [OF this] have c1: "l1 = l1_touched live" "\<forall>m\<in>set live. md_level m = 1 \<longrightarrow> valid_range m"
    using c0 by simp_all
  show "plan = \<lparr>input_files = sort (l0_of live @ l1_touched live), output_level = 1, can_drop_tombstones = True\<rparr>"
    using plan c0 c1(1) by (simp add: bottom_level_def)
  show "l0_of live \<noteq> []" "unat trigger \<le> length (l0_of live)" using ne l0(2) c0 by auto
  show "\<forall>m\<in>set live. md_level m \<le> 1 \<longrightarrow> valid_range m"
  proof (intro ballI impI)
    fix m assume "m \<in> set live" "md_level m \<le> 1"
    moreover from this(2) have "md_level m = 0 \<or> md_level m = 1" by (simp add: word_le_nat_alt) unat_arith
    ultimately show "valid_range m" using c0 c1(2) by auto
  qed
qed

section \<open>Levels\<close>

text \<open>The shape of the live set that the engine maintains: two levels, and no key in the range of
  two different L1 files.\<close>

definition levels_ok :: "sstable_metadata list \<Rightarrow> bool" where
  "levels_ok live \<longleftrightarrow>
     (\<forall>m\<in>set live. valid_range m \<and> md_level m \<le> 1)
     \<and> (\<forall>a\<in>set live. \<forall>b\<in>set live. md_level a = 1 \<and> md_level b = 1 \<and> a \<noteq> b \<longrightarrow> \<not> overlaps a b)"

lemma level_cases: "md_level m \<le> 1 \<Longrightarrow> md_level m = 0 \<or> md_level m = 1"
  by (simp add: word_le_nat_alt) unat_arith

lemma in_hull:
  "in_range k m \<Longrightarrow> m \<in> set ms \<Longrightarrow> hull_low ms \<le> k \<and> k \<le> hull_high ms"
  using hull_bounds [of m ms] by (auto simp: in_range_def)

lemma touched_common_key:
  "in_range k m \<Longrightarrow> hull_low ms \<le> k \<Longrightarrow> k \<le> hull_high ms \<Longrightarrow>
   ranges_overlap (hull_low ms) (hull_high ms) (md_smallest m) (md_largest m)"
  by (auto simp: in_range_def ranges_overlap_def)

text \<open>The plan is closed: a key in the range of an input is in the range of no file left out.\<close>

lemma plan_closed:
  assumes lv: "levels_ok live" and plan: "ins = set (l0_of live @ l1_touched live)"
    and a: "a \<in> ins" "in_range k a" and b: "b \<in> set live" "in_range k b"
  shows "b \<in> ins"
proof -
  have "md_level b = 0 \<or> md_level b = 1" using lv b(1) by (auto simp: levels_ok_def dest: level_cases)
  moreover have ?thesis if "md_level b = 1"
  proof -
    from a(1) plan consider "a \<in> set (l0_of live)" | "a \<in> set (l1_touched live)" by auto
    then show ?thesis
    proof cases
      case 1
      then show ?thesis
        using touched_common_key [OF b(2)] in_hull [OF a(2) 1] b(1) that plan by auto
    next
      case 2
      have "overlaps a b" using a(2) b(2) by (auto simp: in_range_def ranges_overlap_def)
      then have "a = b" using lv 2 b(1) that by (auto simp: levels_ok_def)
      then show ?thesis using a(1) by simp
    qed
  qed
  ultimately show ?thesis using plan b(1) by auto
qed

text \<open>A file left out lies on one side of everything that goes in, so it does not overlap the
  combined range of the inputs either.\<close>

lemma left_out_beside_hull:
  assumes lv: "levels_ok live" and ins: "ins = l0_of live @ l1_touched live" and ne: "l0_of live \<noteq> []"
    and b: "b \<in> set live" "b \<notin> set ins"
  shows "md_largest b < hull_low ins \<or> hull_high ins < md_smallest b"
proof -
  let ?lo = "hull_low (l0_of live)" and ?hi = "hull_high (l0_of live)"
  have vb: "valid_range b" and lb: "md_level b = 1"
    using lv b ins by (auto simp: levels_ok_def dest: level_cases)
  have away: "md_largest b < md_smallest a \<or> md_largest a < md_smallest b" if "a \<in> set ins" for a
  proof -
    have "valid_range a" using lv that ins by (auto simp: levels_ok_def)
    moreover have "\<not> (in_range k a \<and> in_range k b)" for k
      using plan_closed [OF lv _ that _ b(1)] ins b(2) by blast
    ultimately have "\<not> overlaps a b" using vb by (simp add: overlaps_iff_common_key)
    then show ?thesis by (auto simp: ranges_overlap_def)
  qed
  have hull: "md_largest b < ?lo \<or> ?hi < md_smallest b"
    using b ins lb by (auto simp: ranges_overlap_def)
  have insne: "ins \<noteq> []" using ins ne by simp
  from hull show ?thesis
  proof
    assume left: "md_largest b < ?lo"
    have "md_largest b < md_smallest a" if a: "a \<in> set ins" for a
    proof (cases "a \<in> set (l0_of live)")
      case True
      then show ?thesis using left hull_bounds [of a "l0_of live"] by auto
    next
      case False
      then have "\<not> md_largest a < ?lo" using a ins by (auto simp: ranges_overlap_def)
      then have "\<not> md_largest a < md_smallest b"
        using left vb by (auto simp: valid_range_def)
      then show ?thesis using away [OF a] by simp
    qed
    then show ?thesis using hull_attained(1) [OF insne] by metis
  next
    assume right: "?hi < md_smallest b"
    have "md_largest a < md_smallest b" if a: "a \<in> set ins" for a
    proof (cases "a \<in> set (l0_of live)")
      case True
      then show ?thesis using right hull_bounds [of a "l0_of live"] by auto
    next
      case False
      then have "\<not> ?hi < md_smallest a" using a ins by (auto simp: ranges_overlap_def)
      then have "\<not> md_largest b < md_smallest a"
        using right vb by (auto simp: valid_range_def)
      then show ?thesis using away [OF a] by simp
    qed
    then show ?thesis using hull_attained(2) [OF insne] by metis
  qed
qed

section \<open>Properties of the policy\<close>

lemma pick_compaction_valid:
  assumes "levels_ok live" and "trigger \<noteq> 0"
  shows "pick_compaction trigger live =
    (if should_compact trigger live
     then Inr (Some \<lparr>input_files = sort (l0_of live @ l1_touched live), output_level = 1, can_drop_tombstones = True\<rparr>)
     else Inr None)"
proof (cases "should_compact trigger live")
  case True
  have "collect_l0 live = Inr (l0_of live)" "\<And>lo hi. \<exists>fs. collect_l1 lo hi live = Inr fs"
    using assms(1) collect_l0_valid [of live] collect_l1_valid [of live] by (auto simp: levels_ok_def)
  then obtain plan where p: "pick_compaction trigger live = Inr (Some plan)"
    using True by (fastforce simp: pick_compaction_def should_compact_def Let_def)
  then show ?thesis using pick_compaction_SomeD(1) [OF p assms(2)] True by simp
next
  case False
  have "collect_l0 live = Inr (l0_of live)"
    using assms(1) collect_l0_valid [of live] by (auto simp: levels_ok_def)
  then show ?thesis using False by (simp add: pick_compaction_def should_compact_def)
qed

text \<open>C32: \<open>pickCompaction\<close> plans a compaction exactly when \<open>shouldCompact\<close> holds. The plan takes
  every L0 file and every L1 file whose range meets the combined L0 range, each once and in
  level and path order, and writes to L1, the bottom level.\<close>
theorem pick_compaction_exact:
  assumes "levels_ok live" and "trigger \<noteq> 0"
  shows "if should_compact trigger live
    then \<exists>plan. pick_compaction trigger live = Inr (Some plan)
      \<and> mset (input_files plan) = mset (l0_of live) + mset (l1_touched live)
      \<and> sorted (input_files plan) \<and> output_level plan = 1 \<and> can_drop_tombstones plan
    else pick_compaction trigger live = Inr None"
  using pick_compaction_valid [OF assms] by simp

abbreviation example_live :: "sstable_metadata list" where
  "example_live \<equiv>
     [Sstable_Metadata [3] 0 [10] [20], Sstable_Metadata [2] 0 [15] [40],
      Sstable_Metadata [1] 1 [35] [50], Sstable_Metadata [4] 1 [60] [70]]"

lemma example_levels: "levels_ok example_live"
  by (simp add: levels_ok_def valid_range_def ranges_overlap_def)

lemma example_files:
  "length (l0_of example_live) = 2" "length (l1_touched example_live) = 1"
  by (simp_all add: hull_low_def hull_high_def ranges_overlap_def)

theorem pick_compaction_exact_witness:
  "\<exists>plan. pick_compaction 2 example_live = Inr (Some plan) \<and> length (input_files plan) = 3"
proof -
  have "should_compact 2 example_live" by (simp add: should_compact_def)
  then obtain plan where "pick_compaction 2 example_live = Inr (Some plan)"
    and m: "mset (input_files plan) = mset (l0_of example_live) + mset (l1_touched example_live)"
    using pick_compaction_exact [OF example_levels, of 2] by auto
  moreover have "length (input_files plan) = length (l0_of example_live) + length (l1_touched example_live)"
    using arg_cong [OF m, of size] by (simp only: size_union size_mset)
  ultimately show ?thesis by (simp only: example_files) auto
qed

text \<open>C33: Dropping tombstones is safe. A key that lies in the range of a planned input lies in the
  range of no live file outside the plan, so no older version of it can reappear once the
  inputs are replaced.\<close>
theorem compaction_inputs_closed:
  assumes "levels_ok live" and "trigger \<noteq> 0"
    and "pick_compaction trigger live = Inr (Some plan)"
    and "a \<in> set (input_files plan)" and "in_range k a" and "b \<in> set live" and "in_range k b"
  shows "b \<in> set (input_files plan)"
  using plan_closed [OF assms(1) refl _ assms(5-7)] pick_compaction_SomeD(1) [OF assms(3,2)] assms(4)
  by auto

theorem compaction_inputs_closed_witness:
  "\<exists>plan. pick_compaction 2 example_live = Inr (Some plan)
     \<and> Sstable_Metadata [1] 1 [35] [50] \<in> set (input_files plan)"
proof -
  have n: "should_compact 2 example_live" by (simp add: should_compact_def)
  obtain plan where p: "pick_compaction 2 example_live = Inr (Some plan)"
    "plan = \<lparr>input_files = sort (l0_of example_live @ l1_touched example_live), output_level = 1, can_drop_tombstones = True\<rparr>"
    using pick_compaction_valid [OF example_levels, of 2] n by simp
  have "Sstable_Metadata [2] 0 [15] [40] \<in> set (input_files plan)" by (simp add: p(2))
  from compaction_inputs_closed [OF example_levels _ p(1) this, of "[36]" "Sstable_Metadata [1] 1 [35] [50]"]
  show ?thesis using p(1) by (simp add: in_range_def)
qed

text \<open>Compaction keeps L1 free of overlaps. When the planned inputs are replaced by one L1 file
  whose range lies between the smallest and the largest key of the inputs, the live set still
  has valid ranges, two levels and pairwise disjoint L1 files.\<close>
theorem compaction_keeps_levels:
  assumes "levels_ok live" and "trigger \<noteq> 0"
    and "pick_compaction trigger live = Inr (Some plan)"
    and "valid_range out" and "md_level out = output_level plan"
    and "\<exists>a\<in>set (input_files plan). md_smallest a \<le> md_smallest out"
    and "\<exists>b\<in>set (input_files plan). md_largest out \<le> md_largest b"
  shows "levels_ok (filter (\<lambda>m. m \<notin> set (input_files plan)) live @ [out])"
proof -
  note plan = pick_compaction_SomeD [OF assms(3,2)]
  let ?ins = "l0_of live @ l1_touched live"
  have ins: "set (input_files plan) = set ?ins" using plan(1) by simp
  have out: "hull_low ?ins \<le> md_smallest out" "md_largest out \<le> hull_high ?ins"
    using assms(6,7) hull_bounds [of _ ?ins] unfolding ins by (meson order_trans)+
  have beside: "\<not> overlaps b out \<and> \<not> overlaps out b" if "b \<in> set live" "b \<notin> set ?ins" for b
    using left_out_beside_hull [OF assms(1) refl plan(2) that] out
    by (auto simp: ranges_overlap_def intro: less_le_trans le_less_trans)
  show ?thesis
    using assms(1,4,5) plan(1) beside unfolding levels_ok_def ins
    by (simp only: set_append set_filter list.set ball_Un) auto
qed

theorem compaction_keeps_levels_witness:
  "\<exists>plan. pick_compaction 2 example_live = Inr (Some plan)
     \<and> levels_ok (filter (\<lambda>m. m \<notin> set (input_files plan)) example_live @ [Sstable_Metadata [9] 1 [10] [50]])"
proof -
  have n: "should_compact 2 example_live" by (simp add: should_compact_def)
  obtain plan where p: "pick_compaction 2 example_live = Inr (Some plan)"
    "plan = \<lparr>input_files = sort (l0_of example_live @ l1_touched example_live), output_level = 1, can_drop_tombstones = True\<rparr>"
    using pick_compaction_valid [OF example_levels, of 2] n by simp
  have a: "Sstable_Metadata [3] 0 [10] [20] \<in> set (input_files plan)" by (simp add: p(2))
  have b: "Sstable_Metadata [1] 1 [35] [50] \<in> set (input_files plan)"
    by (simp add: p(2) hull_low_def hull_high_def ranges_overlap_def)
  have "levels_ok (filter (\<lambda>m. m \<notin> set (input_files plan)) example_live @ [Sstable_Metadata [9] 1 [10] [50]])"
  proof (rule compaction_keeps_levels [OF example_levels _ p(1)])
    show "md_level (Sstable_Metadata [9] 1 [10] [50]) = output_level plan" by (simp add: p(2))
    show "\<exists>a\<in>set (input_files plan). md_smallest a \<le> md_smallest (Sstable_Metadata [9] 1 [10] [50])"
      by (rule bexI [OF _ a]) simp
    show "\<exists>b\<in>set (input_files plan). md_largest (Sstable_Metadata [9] 1 [10] [50]) \<le> md_largest b"
      by (rule bexI [OF _ b]) simp
  qed (simp_all add: valid_range_def)
  then show ?thesis using p(1) by blast
qed

end
