(* ===== verification/Compactor.thy ===== *)
theory Compactor
  imports Sstable_Builder Sstable_Reader
begin

text \<open>
  src/src/compactor.cpp: the k-way merge of several tables into one. The merge keeps one iterator
  per input and a \<open>std::priority_queue\<close> of their current keys, which only promises that
  \<open>top\<close> is some item with the smallest key; which of several items with equal keys comes
  first is left open. The queue is therefore a parameter, a record of its five operations, and
  the laws are those of the standard.

  The loops over the queue end only if the queue keeps its laws, so they are partial functions:
  not returning is \<open>None\<close>. A file system maps a path to the content of the file there.
\<close>

section \<open>The queue of current keys\<close>

type_synonym heap_item = "bytes \<times> nat"

record 'h heap_ops =
  hp_empty :: 'h
  hp_is_empty :: "'h \<Rightarrow> bool"
  hp_push :: "heap_item \<Rightarrow> 'h \<Rightarrow> 'h"
  hp_top :: "'h \<Rightarrow> heap_item"
  hp_pop :: "'h \<Rightarrow> 'h"

type_synonym file_system = "path \<Rightarrow> bytes option"

text \<open>The local state of \<open>compact\<close>: readers with their iterators, the queue, and the output
  builder, which does not exist before the first record.\<close>

type_synonym table_cursor = "sstable_reader \<times> sst_iterator"

record 'h merge_state =
  ms_cursors :: "table_cursor list"
  ms_heap :: 'h
  ms_builder :: "sstable_builder option"

section \<open>Opening the inputs\<close>

definition open_cursor :: "crc_fn \<Rightarrow> file_system \<Rightarrow> path \<Rightarrow> kerror + table_cursor" where
  "open_cursor crc fs p =
     (case fs p of
        None \<Rightarrow> Inl Sst_Open_Failed
      | Some f \<Rightarrow>
          bind_res (reader_open crc f) (\<lambda>r.
          bind_res (iterator_new crc r) (\<lambda>it. Inr (r, it))))"

fun open_inputs ::
  "'h heap_ops \<Rightarrow> crc_fn \<Rightarrow> file_system \<Rightarrow> path list \<Rightarrow> 'h merge_state \<Rightarrow> kerror + 'h merge_state" where
  "open_inputs ops crc fs [] st = Inr st"
| "open_inputs ops crc fs (p # ps) st =
     bind_res (open_cursor crc fs p) (\<lambda>(r, it).
     let cursors = ms_cursors st @ [(r, it)]
     in if it_valid it then
          bind_res (iterator_key it) (\<lambda>key.
          open_inputs ops crc fs ps
            (st\<lparr>ms_cursors := cursors, ms_heap := hp_push ops (key, length cursors - 1) (ms_heap st)\<rparr>))
        else open_inputs ops crc fs ps (st\<lparr>ms_cursors := cursors\<rparr>))"

section \<open>One merge step\<close>

text \<open>Remove every queue item with the current key and collect the iterator indices.\<close>

partial_function (option) pop_same_key ::
  "'h heap_ops \<Rightarrow> bytes \<Rightarrow> 'h \<Rightarrow> nat list \<Rightarrow> (nat list \<times> 'h) option" where
  "pop_same_key ops key h acc =
     (if hp_is_empty ops h then Some (acc, h)
      else if fst (hp_top ops h) = key
      then pop_same_key ops key (hp_pop ops h) (acc @ [snd (hp_top ops h)])
      else Some (acc, h))"

text \<open>The loop that looks for the largest sequence; a later candidate has to be strictly newer.\<close>

fun select_winner :: "table_cursor list \<Rightarrow> nat list \<Rightarrow> nat \<Rightarrow> kerror + nat" where
  "select_winner cursors [] w = Inr w"
| "select_winner cursors (i # is) w =
     bind_res (iterator_entry (snd (cursors ! i))) (\<lambda>candidate.
     bind_res (iterator_entry (snd (cursors ! w))) (\<lambda>winner.
     select_winner cursors is (if entry_sequence winner < entry_sequence candidate then i else w)))"

fun advance_cursors ::
  "'h heap_ops \<Rightarrow> crc_fn \<Rightarrow> nat list \<Rightarrow> 'h merge_state \<Rightarrow> kerror + 'h merge_state" where
  "advance_cursors ops crc [] st = Inr st"
| "advance_cursors ops crc (i # is) st =
     bind_res (iterator_next crc (fst (ms_cursors st ! i)) (snd (ms_cursors st ! i))) (\<lambda>it.
     let st1 = st\<lparr>ms_cursors := (ms_cursors st)[i := (fst (ms_cursors st ! i), it)]\<rparr>
     in if it_valid it then
          bind_res (iterator_key it) (\<lambda>key.
          advance_cursors ops crc is (st1\<lparr>ms_heap := hp_push ops (key, i) (ms_heap st1)\<rparr>))
        else advance_cursors ops crc is st1)"

text \<open>The body of the merge loop after the indices with the current key have been collected.\<close>

definition write_winner ::
  "crc_fn \<Rightarrow> u64 \<Rightarrow> u64 \<Rightarrow> bool \<Rightarrow> bytes \<Rightarrow> internal_entry \<Rightarrow> sstable_builder option
   \<Rightarrow> kerror + sstable_builder option" where
  "write_winner crc bsz bits can_drop key e builder =
     (let should_write = \<not> (entry_operation e = DELETE \<and> can_drop)
      in if should_write then
           let b = (case builder of None \<Rightarrow> builder_new bsz bits | Some b \<Rightarrow> b)
           in bind_res (builder_add crc key e b) (\<lambda>b'. Inr (Some b'))
         else Inr builder)"

definition merge_step ::
  "'h heap_ops \<Rightarrow> crc_fn \<Rightarrow> u64 \<Rightarrow> u64 \<Rightarrow> bool \<Rightarrow> bytes \<Rightarrow> nat list \<Rightarrow> 'h merge_state
   \<Rightarrow> kerror + 'h merge_state" where
  "merge_step ops crc bsz bits can_drop key same st =
     bind_res (select_winner (ms_cursors st) same (hd same)) (\<lambda>w.
     bind_res (iterator_entry (snd (ms_cursors st ! w))) (\<lambda>winner_entry.
     bind_res (write_winner crc bsz bits can_drop key winner_entry (ms_builder st)) (\<lambda>b.
     advance_cursors ops crc same (st\<lparr>ms_builder := b\<rparr>))))"

section \<open>The merge loop and the whole operation\<close>

partial_function (option) merge_loop ::
  "'h heap_ops \<Rightarrow> crc_fn \<Rightarrow> u64 \<Rightarrow> u64 \<Rightarrow> bool \<Rightarrow> 'h merge_state
   \<Rightarrow> (kerror + 'h merge_state) option" where
  "merge_loop ops crc bsz bits can_drop st =
     (if hp_is_empty ops (ms_heap st) then Some (Inr st)
      else
        Option.bind (pop_same_key ops (fst (hp_top ops (ms_heap st))) (ms_heap st) []) (\<lambda>p.
        case merge_step ops crc bsz bits can_drop (fst (hp_top ops (ms_heap st)))
               (fst p) (st\<lparr>ms_heap := snd p\<rparr>) of
          Inl e \<Rightarrow> Some (Inl e)
        | Inr st' \<Rightarrow> merge_loop ops crc bsz bits can_drop st'))"

definition compact ::
  "'h heap_ops \<Rightarrow> crc_fn \<Rightarrow> file_system \<Rightarrow> path list \<Rightarrow> path \<Rightarrow> u64 \<Rightarrow> u64 \<Rightarrow> bool
   \<Rightarrow> (kerror + compaction_result \<times> file_system) option" where
  "compact ops crc fs inputs out bsz bits can_drop =
     (if inputs = [] then Some (Inl Compaction_No_Input)
      else if fs out \<noteq> None then Some (Inl Compaction_Output_Exists)
      else if \<exists>p\<in>set inputs. path_eq p out then Some (Inl Compaction_Output_Is_Input)
      else
        case open_inputs ops crc fs inputs \<lparr>ms_cursors = [], ms_heap = hp_empty ops, ms_builder = None\<rparr> of
          Inl e \<Rightarrow> Some (Inl e)
        | Inr st \<Rightarrow>
            Option.bind (merge_loop ops crc bsz bits can_drop st) (\<lambda>res.
            case res of
              Inl e \<Rightarrow> Some (Inl e)
            | Inr st' \<Rightarrow>
                (case ms_builder st' of
                   None \<Rightarrow> Some (Inr (\<lparr>result_input_files = inputs, result_output_files = []\<rparr>, fs))
                 | Some b \<Rightarrow>
                     (case builder_finish crc b of
                        Inl e \<Rightarrow> Some (Inl e)
                      | Inr f \<Rightarrow>
                          Some (Inr (\<lparr>result_input_files = inputs, result_output_files = [out]\<rparr>,
                                     fs(out \<mapsto> f)))))))"

end
