(* ===== verification/Table_Cursor.thy ===== *)
theory Table_Cursor
  imports Sstable_Table
begin

text \<open>
  The interface of an iterator as the merge uses it: a cursor stands in front of a list of
  remaining entries, exposes the first one and steps over it. The reader's iterator on a
  finished table provides it.
\<close>

locale cursor =
  fixes at :: "'c \<Rightarrow> ('k \<times> 'v) list \<Rightarrow> bool"
    and valid :: "'c \<Rightarrow> bool"
    and key :: "'c \<Rightarrow> 'e + 'k"
    and entry :: "'c \<Rightarrow> 'e + 'v"
    and advance :: "'c \<Rightarrow> 'e + 'c"
  assumes at_Nil: "at c [] \<Longrightarrow> \<not> valid c"
    and at_Cons: "at c (p # es) \<Longrightarrow> valid c \<and> key c = Inr (fst p) \<and> entry c = Inr (snd p)"
    and advance_Cons: "at c (p # es) \<Longrightarrow> \<exists>c'. advance c = Inr c' \<and> at c' es"
begin

lemma valid_iff: "at c es \<Longrightarrow> valid c \<longleftrightarrow> es \<noteq> []"
  using at_Nil at_Cons by (cases es) auto

lemma key_hd: "at c es \<Longrightarrow> es \<noteq> [] \<Longrightarrow> key c = Inr (fst (hd es))"
  using at_Cons by (cases es) auto

lemma entry_hd: "at c es \<Longrightarrow> es \<noteq> [] \<Longrightarrow> entry c = Inr (snd (hd es))"
  using at_Cons by (cases es) auto

lemma advance_tl: "at c es \<Longrightarrow> es \<noteq> [] \<Longrightarrow> \<exists>c'. advance c = Inr c' \<and> at c' (tl es)"
  using advance_Cons by (cases es) auto

end

text \<open>A reader of a finished table together with an iterator over it, in front of \<open>es\<close>.\<close>

definition cursor_at :: "crc_fn \<Rightarrow> sstable_reader \<times> sst_iterator \<Rightarrow> (bytes \<times> internal_entry) list \<Rightarrow> bool" where
  "cursor_at crc c es \<longleftrightarrow>
     (\<exists>f blocks. table_ok crc f blocks \<and> fst c = image_reader crc f blocks
        \<and> (es = [] \<and> \<not> it_valid (snd c)
           \<or> (\<exists>pre before p todo post. iterator_at blocks (snd c) pre before p todo post
                \<and> es = p # todo @ concat post)))"

abbreviation cursor_next :: "crc_fn \<Rightarrow> sstable_reader \<times> sst_iterator \<Rightarrow> kerror + sstable_reader \<times> sst_iterator" where
  "cursor_next crc c \<equiv> bind_res (iterator_next crc (fst c) (snd c)) (\<lambda>it. Inr (fst c, it))"

lemma cursor_atI:
  assumes "table_ok crc f blocks" and "iterator_at blocks it pre before p todo post"
  shows "cursor_at crc (image_reader crc f blocks, it) (p # todo @ concat post)"
  unfolding cursor_at_def using assms by (metis fst_conv snd_conv)

lemma iterator_next_tail:
  assumes ok: "table_ok crc f blocks" and at: "iterator_at blocks it pre before p todo post"
  shows "\<exists>it'. iterator_next crc (image_reader crc f blocks) it = Inr it'
    \<and> cursor_at crc (image_reader crc f blocks, it') (todo @ concat post)"
proof (cases todo)
  case (Cons q todo')
  from next_in_block [OF ok at [unfolded Cons], of "image_reader crc f blocks"] show ?thesis
    using cursor_atI [OF ok] unfolding Cons by fastforce
next
  case Nil
  note step = next_at_block_end [OF ok at [unfolded Nil]]
  show ?thesis
  proof (cases post)
    case (Cons b post')
    have blocks: "blocks = (pre @ [before @ [p]]) @ b # post'"
      using at Nil Cons by (simp add: iterator_at_def)
    then have "b \<noteq> []" using ok by (auto simp: table_ok_def block_ok_def)
    then obtain q b' where b: "b = q # b'" by (cases b) auto
    from load_block_image [OF ok blocks [unfolded b], of it] obtain it' where
      it': "bind_res (load_block crc (image_reader crc f blocks) (length (pre @ [before @ [p]])) it) parse_current_record = Inr it'"
      "iterator_at blocks it' (pre @ [before @ [p]]) [] q b' post'" by blast
    have "iterator_next crc (image_reader crc f blocks) it = Inr it'" using step it'(1) Cons by simp
    moreover have "cursor_at crc (image_reader crc f blocks, it') (todo @ concat post)"
      using cursor_atI [OF ok it'(2)] Nil Cons b by simp
    ultimately show ?thesis by blast
  qed (use step Nil ok in \<open>auto simp: cursor_at_def\<close>)
qed

interpretation tc: cursor "cursor_at crc" "\<lambda>c. it_valid (snd c)" "\<lambda>c. iterator_key (snd c)"
  "\<lambda>c. iterator_entry (snd c)" "cursor_next crc"
proof unfold_locales
  fix c p es
  show "\<not> it_valid (snd c)" if "cursor_at crc c []" using that by (auto simp: cursor_at_def)
  assume at: "cursor_at crc c (p # es)"
  then obtain f blocks pre before todo post where a: "table_ok crc f blocks" "fst c = image_reader crc f blocks"
    "iterator_at blocks (snd c) pre before p todo post" "es = todo @ concat post"
    by (auto simp: cursor_at_def)
  then show "it_valid (snd c) \<and> iterator_key (snd c) = Inr (fst p) \<and> iterator_entry (snd c) = Inr (snd p)"
    by (simp add: iterator_at_def iterator_key_def iterator_entry_def)
  show "\<exists>c'. cursor_next crc c = Inr c' \<and> cursor_at crc c' es"
    using iterator_next_tail [OF a(1,3)] a(2,4) by auto
qed

lemma cursor_open:
  assumes "table_holds crc tbl es"
  shows "\<exists>r it. reader_open crc tbl = Inr r \<and> iterator_new crc r = Inr it \<and> cursor_at crc (r, it) es"
proof -
  obtain f blocks where h: "table_ok crc f blocks" "tbl = table_image crc f blocks" "es = concat blocks"
    using assms by (auto simp: table_holds_def)
  obtain b post where "blocks = b # post" and "b \<noteq> []"
    using h(1) by (cases blocks) (auto simp: table_ok_def block_ok_def)
  then obtain p todo where blocks: "blocks = [] @ (p # todo) # post" by (cases b) auto
  have "rd_index (image_reader crc f blocks) \<noteq> []" by (simp add: image_reader_def blocks)
  then obtain it where it: "iterator_new crc (image_reader crc f blocks) = Inr it"
    "iterator_at blocks it [] [] p todo post"
    using load_block_image [OF h(1) blocks] by (fastforce simp: iterator_new_def Let_def)
  have "cursor_at crc (image_reader crc f blocks, it) es"
    using cursor_atI [OF h(1) it(2)] h(3) blocks by simp
  then show ?thesis using reader_open_image [OF h(1)] h(2) it(1) by blast
qed

text \<open>Every entry of a finished table fits a table again.\<close>

lemma table_holds_fits:
  assumes "table_holds crc tbl es"
  shows "list_all entry_fits es" and "es \<noteq> []"
proof -
  obtain f blocks where h: "table_ok crc f blocks" "es = concat blocks"
    using assms by (auto simp: table_holds_def)
  have "entry_fits (k, e)" if "b \<in> set blocks" "(k, e) \<in> set b" for b k e
  proof -
    have "block_ok b" using h(1) that(1) by (auto simp: table_ok_def list_all_iff)
    moreover have "17 + length k + length (entry_value e) \<le> length (records_bytes b)"
      using that(2) by (induction b) auto
    ultimately show ?thesis by (simp add: block_ok_def block_payload_def entry_fits_def)
  qed
  then show "list_all entry_fits es" by (auto simp: h(2) list_all_iff)
  show "es \<noteq> []" using h by (cases blocks) (auto simp: table_ok_def block_ok_def)
qed

end
