(* ===== verification/Compaction_Merge.thy ===== *)
theory Compaction_Merge
  imports Compactor Table_Cursor "HOL-Library.Multiset"
begin

text \<open>
  Correctness of the merge: under the laws of a priority queue the loops end, and the output is
  the sorted list of the newest versions of all keys, without the tombstones that may be dropped.
\<close>

section \<open>The priority queue\<close>

locale min_heap =
  fixes ops :: "'h heap_ops"
    and invar :: "'h \<Rightarrow> bool"
    and items :: "'h \<Rightarrow> heap_item multiset"
  assumes empty: "invar (hp_empty ops)" "items (hp_empty ops) = {#}"
    and is_empty: "invar h \<Longrightarrow> hp_is_empty ops h \<longleftrightarrow> items h = {#}"
    and push: "invar h \<Longrightarrow> invar (hp_push ops x h)" "invar h \<Longrightarrow> items (hp_push ops x h) = add_mset x (items h)"
    and top: "invar h \<Longrightarrow> items h \<noteq> {#} \<Longrightarrow> hp_top ops h \<in># items h"
      "invar h \<Longrightarrow> x \<in># items h \<Longrightarrow> fst (hp_top ops h) \<le> fst x"
    and pop: "invar h \<Longrightarrow> items h \<noteq> {#} \<Longrightarrow> invar (hp_pop ops h)"
      "invar h \<Longrightarrow> items h \<noteq> {#} \<Longrightarrow> items (hp_pop ops h) = items h - {#hp_top ops h#}"
begin

text \<open>Removing the items with the smallest key ends, and yields their indices in some order.\<close>

lemma pop_same_key_ends:
  "invar h \<Longrightarrow> (\<forall>x\<in>#items h. key \<le> fst x) \<Longrightarrow>
   \<exists>same h'. pop_same_key ops key h acc = Some (acc @ same, h') \<and> invar h'
     \<and> mset same = image_mset snd (filter_mset (\<lambda>x. fst x = key) (items h))
     \<and> items h' = filter_mset (\<lambda>x. fst x \<noteq> key) (items h)"
proof (induction "size (items h)" arbitrary: h acc rule: less_induct)
  case less
  note unfold = pop_same_key.simps [of ops key h]
  show ?case
  proof (cases "items h = {#}")
    case True
    then show ?thesis using less.prems(1) by (auto simp: unfold is_empty)
  next
    case False
    let ?t = "hp_top ops h"
    have t: "?t \<in># items h" using top(1) less.prems(1) False by blast
    then have split: "items h = add_mset ?t (items (hp_pop ops h))" and inv: "invar (hp_pop ops h)"
      using pop less.prems(1) False by (auto simp: insert_DiffM)
    show ?thesis
    proof (cases "fst ?t = key")
      case True
      have "size (items (hp_pop ops h)) < size (items h)" by (simp add: split)
      moreover have "\<forall>x\<in>#items (hp_pop ops h). key \<le> fst x" using less.prems(2) split by auto
      ultimately obtain same h' where h': "pop_same_key ops key (hp_pop ops h) (acc @ [snd ?t]) = Some ((acc @ [snd ?t]) @ same, h')"
        "invar h'" "mset same = image_mset snd (filter_mset (\<lambda>x. fst x = key) (items (hp_pop ops h)))"
        "items h' = filter_mset (\<lambda>x. fst x \<noteq> key) (items (hp_pop ops h))"
        using less.hyps inv by blast
      have "filter_mset (\<lambda>x. fst x = key) (items h) = add_mset ?t (filter_mset (\<lambda>x. fst x = key) (items (hp_pop ops h)))"
        "filter_mset (\<lambda>x. fst x \<noteq> key) (items h) = filter_mset (\<lambda>x. fst x \<noteq> key) (items (hp_pop ops h))"
        using True by (subst split, simp)+
      then show ?thesis
        using h' True False less.prems(1) by (intro exI [of _ "snd ?t # same"] exI [of _ h']) (simp add: unfold is_empty)
    next
      case other: False
      have "fst x \<noteq> key" if "x \<in># items h" for x
        using top(2) [OF less.prems(1) that] less.prems(2) t other by fastforce
      then have "filter_mset (\<lambda>x. fst x = key) (items h) = {#}" "filter_mset (\<lambda>x. fst x \<noteq> key) (items h) = items h"
        using filter_mset_cong [of "items h" "items h" "\<lambda>x. fst x = key" "\<lambda>_. False"]
          filter_mset_cong [of "items h" "items h" "\<lambda>x. fst x \<noteq> key" "\<lambda>_. True"] by simp_all
      then show ?thesis using other False less.prems(1) by (auto simp: unfold is_empty)
    qed
  qed
qed

end

text \<open>A queue that keeps its items in a list and looks for the first smallest key.\<close>

definition list_top :: "heap_item list \<Rightarrow> heap_item" where
  "list_top h = hd (filter (\<lambda>x. \<forall>y\<in>set h. fst x \<le> fst y) h)"

definition list_heap :: "heap_item list heap_ops" where
  "list_heap = \<lparr>hp_empty = [], hp_is_empty = (\<lambda>h. h = []), hp_push = (#), hp_top = list_top,
     hp_pop = (\<lambda>h. remove1 (list_top h) h)\<rparr>"

lemma list_top_least: "h \<noteq> [] \<Longrightarrow> list_top h \<in> set h \<and> (\<forall>y\<in>set h. fst (list_top h) \<le> fst y)"
proof -
  assume ne: "h \<noteq> []"
  let ?m = "Min (fst ` set h)"
  have "?m \<in> fst ` set h" using ne by (intro Min_in) auto
  then obtain x where x: "x \<in> set h" "fst x = ?m" by auto
  then have "\<forall>y\<in>set h. fst x \<le> fst y" by simp
  then have "filter (\<lambda>x. \<forall>y\<in>set h. fst x \<le> fst y) h \<noteq> []" using x(1) by (auto simp: filter_empty_conv)
  then have "list_top h \<in> set (filter (\<lambda>x. \<forall>y\<in>set h. fst x \<le> fst y) h)" unfolding list_top_def by (rule hd_in_set)
  then show ?thesis by auto
qed

lemma list_top_le: "y \<in> set h \<Longrightarrow> fst (list_top h) \<le> fst y"
  using list_top_least [of h] by (cases "h = []") auto

interpretation lh: min_heap list_heap "\<lambda>_. True" mset
  by unfold_locales (simp_all add: list_heap_def list_top_least list_top_le)

section \<open>The result of a merge\<close>

type_synonym entries = "(bytes \<times> internal_entry) list"

text \<open>A version of a key is newest among the inputs when no input has a larger sequence for it.\<close>

definition newest_of :: "entries list \<Rightarrow> bytes \<Rightarrow> internal_entry \<Rightarrow> bool" where
  "newest_of xss k e \<longleftrightarrow>
     (\<exists>xs\<in>set xss. map_of xs k = Some e)
     \<and> (\<forall>xs\<in>set xss. \<forall>e'. map_of xs k = Some e' \<longrightarrow> entry_sequence e' \<le> entry_sequence e)"

definition merged :: "entries list \<Rightarrow> bool \<Rightarrow> entries \<Rightarrow> bool" where
  "merged xss can_drop out \<longleftrightarrow>
     ascending out
     \<and> (\<forall>k. if \<exists>xs\<in>set xss. map_of xs k \<noteq> None
            then \<exists>e. newest_of xss k e
              \<and> map_of out k = (if entry_operation e = DELETE \<and> can_drop then None else Some e)
            else map_of out k = None)"

lemma merged_key_from_input:
  "merged xss d out \<Longrightarrow> k \<in> fst ` set out \<Longrightarrow> \<exists>xs\<in>set xss. k \<in> fst ` set xs"
proof -
  assume m: "merged xss d out" and k: "k \<in> fst ` set out"
  then have "map_of out k \<noteq> None" by (simp add: map_of_eq_None_iff)
  then have "\<exists>xs\<in>set xss. map_of xs k \<noteq> None" using m unfolding merged_def by (metis (full_types))
  then show ?thesis by (auto simp: map_of_eq_None_iff image_iff)
qed

lemma merged_entry_from_input:
  "merged xss d out \<Longrightarrow> (k, e) \<in> set out \<Longrightarrow> \<exists>xs\<in>set xss. (k, e) \<in> set xs"
proof -
  assume m: "merged xss d out" and k: "(k, e) \<in> set out"
  then have o: "map_of out k = Some e" by (simp add: merged_def ascending_map_of_mem)
  then have "\<exists>xs\<in>set xss. map_of xs k \<noteq> None" using m unfolding merged_def by (metis (full_types) option.distinct(1))
  then obtain e' where "newest_of xss k e'" "map_of out k = (if entry_operation e' = DELETE \<and> d then None else Some e')"
    using m unfolding merged_def by (metis (full_types))
  then have "newest_of xss k e" using o by (auto split: if_splits)
  then show ?thesis by (auto simp: newest_of_def dest: map_of_SomeD)
qed

text \<open>One step on the abstract inputs: the heads with the smallest key are consumed.\<close>

definition heads_dropped :: "nat set \<Rightarrow> entries list \<Rightarrow> entries list \<Rightarrow> bool" where
  "heads_dropped I xss xss' \<longleftrightarrow>
     length xss' = length xss \<and> (\<forall>i<length xss. xss' ! i = (if i \<in> I then tl (xss ! i) else xss ! i))"

lemma heads_dropped_above:
  assumes asc: "\<forall>xs\<in>set xss. ascending xs"
    and low: "\<forall>i<length xss. xss ! i \<noteq> [] \<longrightarrow> k \<le> fst (hd (xss ! i))"
    and I: "I = {i. i < length xss \<and> xss ! i \<noteq> [] \<and> fst (hd (xss ! i)) = k}"
    and drop: "heads_dropped I xss xss'"
    and i: "i < length xss" and p: "p \<in> set (xss' ! i)"
  shows "k < fst p"
proof -
  have a: "ascending (xss ! i)" using asc i by simp
  show ?thesis
  proof (cases "i \<in> I")
    case True
    then obtain q ys where q: "xss ! i = q # ys" "fst q = k" unfolding I by (cases "xss ! i") simp_all
    then have "p \<in> set ys" using p i True drop by (simp add: heads_dropped_def)
    then show ?thesis using a q by auto
  next
    case False
    then have x: "p \<in> set (xss ! i)" using p i drop by (auto simp: heads_dropped_def)
    then obtain q ys where q: "xss ! i = q # ys" by (cases "xss ! i") auto
    have "k \<le> fst q" using low [rule_format, OF i] q by simp
    moreover have "fst q \<noteq> k" using False i q unfolding I by simp
    ultimately have "k < fst q" by simp
    then show ?thesis using x q a by auto
  qed
qed

lemma merged_step:
  assumes asc: "\<forall>xs\<in>set xss. ascending xs"
    and low: "\<forall>i<length xss. xss ! i \<noteq> [] \<longrightarrow> k \<le> fst (hd (xss ! i))"
    and I: "I = {i. i < length xss \<and> xss ! i \<noteq> [] \<and> fst (hd (xss ! i)) = k}"
    and w: "w \<in> I" and e: "e = snd (hd (xss ! w))"
    and best: "\<forall>i\<in>I. entry_sequence (snd (hd (xss ! i))) \<le> entry_sequence e"
    and drop: "heads_dropped I xss xss'" and rest: "merged xss' d rest"
  shows "merged xss d ((if entry_operation e = DELETE \<and> d then [] else [(k, e)]) @ rest)"
    and "\<forall>p\<in>set rest. k < fst p"
proof -
  note above = heads_dropped_above [OF asc low I drop]
  have same: "map_of (xss' ! i) key = map_of (xss ! i) key" if "i < length xss" "key \<noteq> k" for i key
  proof (cases "i \<in> I")
    case True
    then obtain q ys where q: "xss ! i = q # ys" "fst q = k" unfolding I by (cases "xss ! i") simp_all
    have "xss' ! i = ys" using drop that(1) True q(1) by (simp add: heads_dropped_def)
    then show ?thesis using q that(2) by (cases q) simp
  next
    case False
    then show ?thesis using drop that(1) by (simp add: heads_dropped_def)
  qed
  have gone: "map_of (xss' ! i) k = None" if "i < length xss" for i
    using above [OF that] by (auto simp: map_of_eq_None_iff)
  have at_k: "map_of (xss ! i) k = (if i \<in> I then Some (snd (hd (xss ! i))) else None)" if "i < length xss" for i
  proof (cases "i \<in> I")
    case True
    then obtain q ys where q: "xss ! i = q # ys" "fst q = k" unfolding I by (cases "xss ! i") simp_all
    then show ?thesis using True by (cases q) simp
  next
    case False
    then show ?thesis using gone [OF that] drop that by (simp add: heads_dropped_def)
  qed
  have len: "length xss' = length xss" using drop by (simp add: heads_dropped_def)
  show keys: "\<forall>p\<in>set rest. k < fst p"
  proof
    fix p assume "p \<in> set rest"
    then obtain xs where "xs \<in> set xss'" "fst p \<in> fst ` set xs"
      using merged_key_from_input [OF rest, of "fst p"] by auto
    then obtain i q where "i < length xss" "q \<in> set (xss' ! i)" "fst q = fst p"
      by (auto simp: in_set_conv_nth len)
    then show "k < fst p" using above by metis
  qed
  let ?out = "(if entry_operation e = DELETE \<and> d then [] else [(k, e)]) @ rest"
  have "ascending ?out" using keys rest by (auto simp: merged_def)
  moreover have "if \<exists>xs\<in>set xss. map_of xs key \<noteq> None
      then \<exists>e. newest_of xss key e \<and> map_of ?out key = (if entry_operation e = DELETE \<and> d then None else Some e)
      else map_of ?out key = None" for key
  proof (cases "key = k")
    case True
    have wl: "w < length xss" using w I by simp
    then have "map_of (xss ! w) k = Some e" using at_k w e by simp
    then have ex: "\<exists>xs\<in>set xss. map_of xs k = Some e" using nth_mem [OF wl] by blast
    moreover have "entry_sequence e' \<le> entry_sequence e" if "xs \<in> set xss" "map_of xs k = Some e'" for xs e'
    proof -
      note xs = that
      obtain i where i: "i < length xss" "xs = xss ! i" using xs(1) by (metis in_set_conv_nth)
      then have "i \<in> I" "e' = snd (hd (xss ! i))" using at_k [OF i(1)] xs(2) by (auto split: if_splits)
      then show ?thesis using best by simp
    qed
    ultimately have "newest_of xss k e" by (auto simp: newest_of_def)
    moreover have "map_of rest k = None" using keys by (auto simp: map_of_eq_None_iff)
    ultimately show ?thesis using True ex by auto
  next
    case False
    have eq: "(\<exists>xs\<in>set xss. P (map_of xs key)) \<longleftrightarrow> (\<exists>xs\<in>set xss'. P (map_of xs key))" for P
      using same [OF _ False] len by (metis in_set_conv_nth)
    have "newest_of xss key = newest_of xss' key"
      using eq [of "\<lambda>m. m = Some x" for x] eq [of "\<lambda>m. \<exists>e'. m = Some e' \<and> \<not> entry_sequence e' \<le> entry_sequence x" for x]
      unfolding newest_of_def by (intro ext) meson
    moreover have "map_of ?out key = map_of rest key" using False by simp
    ultimately show ?thesis
      using rest eq [of "\<lambda>m. m \<noteq> None"] unfolding merged_def by (metis (no_types, lifting))
  qed
  ultimately show "merged xss d ?out" unfolding merged_def by blast
qed

section \<open>One step of the loop\<close>

lemma select_winner_max:
  "(\<forall>i\<in>set is. iterator_entry (snd (cs ! i)) = Inr (ent i)) \<Longrightarrow>
   iterator_entry (snd (cs ! w)) = Inr (ent w) \<Longrightarrow>
   \<exists>w'. select_winner cs is w = Inr w' \<and> w' \<in> insert w (set is)
     \<and> (\<forall>i\<in>insert w (set is). entry_sequence (ent i) \<le> entry_sequence (ent w'))"
proof (induction "is" arbitrary: w)
  case (Cons i "is")
  let ?w = "if entry_sequence (ent w) < entry_sequence (ent i) then i else w"
  have w: "iterator_entry (snd (cs ! ?w)) = Inr (ent ?w)" using Cons.prems by simp
  obtain w' where w': "select_winner cs is ?w = Inr w'" "w' \<in> insert ?w (set is)"
    "\<forall>j\<in>insert ?w (set is). entry_sequence (ent j) \<le> entry_sequence (ent w')"
    using Cons.IH [of ?w] Cons.prems(1) w by (simp only: list.set ball_simps) blast
  have "entry_sequence (ent w) \<le> entry_sequence (ent ?w)" "entry_sequence (ent i) \<le> entry_sequence (ent ?w)"
    by auto
  then have "\<forall>j\<in>insert w (set (i # is)). entry_sequence (ent j) \<le> entry_sequence (ent w')"
    using w'(3) by (auto intro: order_trans)
  then show ?case using w'(1,2) Cons.prems by (auto split: if_splits)
qed simp

text \<open>The queue shows the head of every input that is not exhausted, except for the indices that
  wait to be advanced.\<close>

definition visible :: "entries list \<Rightarrow> nat set \<Rightarrow> heap_item multiset" where
  "visible xss P = image_mset (\<lambda>i. (fst (hd (xss ! i)), i)) (mset_set {i. i < length xss \<and> xss ! i \<noteq> [] \<and> i \<notin> P})"

lemma set_visible: "set_mset (visible xss P) = {(fst (hd (xss ! i)), i) |i. i < length xss \<and> xss ! i \<noteq> [] \<and> i \<notin> P}"
  by (auto simp: visible_def)

lemma visible_advance:
  assumes "i < length xss" and "i \<in> P"
  shows "visible (xss[i := ys]) (P - {i}) =
    (if ys = [] then visible xss P else add_mset (fst (hd ys), i) (visible xss P))"
proof -
  let ?A = "{j. j < length xss \<and> xss ! j \<noteq> [] \<and> j \<notin> P}"
  have set: "{j. j < length (xss[i := ys]) \<and> xss[i := ys] ! j \<noteq> [] \<and> j \<notin> P - {i}}
      = (if ys = [] then ?A else insert i ?A)"
    using assms by (auto simp: nth_list_update)
  have "image_mset (\<lambda>j. (fst (hd (xss[i := ys] ! j)), j)) (mset_set ?A) = visible xss P"
    unfolding visible_def
  proof (rule image_mset_cong)
    fix j assume "j \<in># mset_set ?A"
    then have "j \<noteq> i" using assms(2) by auto
    then show "(fst (hd (xss[i := ys] ! j)), j) = (fst (hd (xss ! j)), j)" by simp
  qed
  moreover have "visible (xss[i := ys]) (P - {i}) =
      image_mset (\<lambda>j. (fst (hd (xss[i := ys] ! j)), j)) (mset_set (if ys = [] then ?A else insert i ?A))"
    unfolding visible_def set ..
  moreover have "i \<notin> ?A" "finite ?A" using assms(2) by auto
  ultimately show ?thesis using assms(1) by (cases "ys = []") (simp_all del: Collect_conj_eq)
qed

lemma heads_dropped_Cons:
  assumes "heads_dropped (set is) (xss[i := tl (xss ! i)]) xss'" and "i \<notin> set is" and "i < length xss"
  shows "heads_dropped (set (i # is)) xss xss'"
  using assms by (auto simp: heads_dropped_def nth_list_update)

context min_heap
begin

lemma advance_cursors_ends:
  assumes "distinct is" and "\<forall>i\<in>set is. i < length xss \<and> xss ! i \<noteq> []"
    and "list_all2 (cursor_at crc) (ms_cursors st) xss"
    and "invar (ms_heap st)" and "items (ms_heap st) = visible xss (set is)"
  shows "\<exists>st' xss'. advance_cursors ops crc is st = Inr st' \<and> heads_dropped (set is) xss xss'
    \<and> list_all2 (cursor_at crc) (ms_cursors st') xss' \<and> invar (ms_heap st')
    \<and> items (ms_heap st') = visible xss' {} \<and> ms_builder st' = ms_builder st"
  using assms
proof (induction "is" arbitrary: xss st)
  case Nil
  then show ?case by (auto simp: heads_dropped_def)
next
  case (Cons i "is")
  let ?c = "ms_cursors st ! i" and ?xs = "tl (xss ! i)"
  have i: "i < length xss" "xss ! i \<noteq> []" "i < length (ms_cursors st)" "cursor_at crc ?c (xss ! i)"
    using Cons.prems(2,3) by (auto simp: list_all2_conv_all_nth)
  then obtain c' where c': "cursor_next crc ?c = Inr c'" "cursor_at crc c' ?xs"
    using tc.advance_tl by blast
  then obtain it where it: "iterator_next crc (fst ?c) (snd ?c) = Inr it" "c' = (fst ?c, it)" by auto
  let ?st1 = "st\<lparr>ms_cursors := (ms_cursors st)[i := (fst ?c, it)]\<rparr>"
  let ?xss = "xss[i := ?xs]"
  have rel: "list_all2 (cursor_at crc) (ms_cursors ?st1) ?xss"
    using Cons.prems(3) c'(2) it(2) i(3) by (simp add: list_all2_update_cong)
  have valid: "it_valid it \<longleftrightarrow> ?xs \<noteq> []" using tc.valid_iff [OF c'(2)] it(2) by simp
  have vis: "visible ?xss (set is) = (if ?xs = [] then items (ms_heap st)
      else add_mset (fst (hd ?xs), i) (items (ms_heap st)))"
    using visible_advance [OF i(1), of "set (i # is)" ?xs] Cons.prems(1,5) by simp
  have ready: "distinct is" "\<forall>j\<in>set is. j < length ?xss \<and> ?xss ! j \<noteq> []"
    using Cons.prems(1,2) by (auto simp: nth_list_update)
  define st2 where "st2 = (if ?xs = [] then ?st1 else ?st1\<lparr>ms_heap := hp_push ops (fst (hd ?xs), i) (ms_heap ?st1)\<rparr>)"
  have step: "advance_cursors ops crc (i # is) st = advance_cursors ops crc is st2"
    using it(1) valid tc.key_hd [OF c'(2)] it(2) by (auto simp: st2_def)
  have "list_all2 (cursor_at crc) (ms_cursors st2) ?xss" "invar (ms_heap st2)"
    "items (ms_heap st2) = visible ?xss (set is)" "ms_builder st2 = ms_builder st"
    using rel vis push Cons.prems(4) by (auto simp: st2_def)
  with Cons.IH [OF ready this(1-3)] obtain st' xss' where
    "advance_cursors ops crc is st2 = Inr st'" "heads_dropped (set is) ?xss xss'"
    "list_all2 (cursor_at crc) (ms_cursors st') xss'" "invar (ms_heap st')"
    "items (ms_heap st') = visible xss' {}" "ms_builder st' = ms_builder st" by auto
  then show ?case
    using step heads_dropped_Cons [of "is" xss i xss'] Cons.prems(1) i(1) by auto
qed

end

text \<open>The lazily created builder has received exactly the output so far.\<close>

definition builder_for :: "crc_fn \<Rightarrow> u64 \<Rightarrow> u64 \<Rightarrow> entries \<Rightarrow> sstable_builder option \<Rightarrow> bool" where
  "builder_for crc bsz bits out bo \<longleftrightarrow>
     (if out = [] then bo = None
      else \<exists>b. bo = Some b \<and> builder_add_all crc out (builder_new bsz bits) = Inr b)"

lemma builder_add_all_append:
  "builder_add_all crc (xs @ ys) b = bind_res (builder_add_all crc xs b) (builder_add_all crc ys)"
proof (induction xs arbitrary: b)
  case (Cons p xs)
  then show ?case by (cases p; cases "builder_add crc (fst p) (snd p) b") auto
qed simp

lemma write_winner_for:
  assumes "running_crc crc" and "unat bsz < 2 ^ 32" and "builder_for crc bsz bits out bo"
    and asc: "ascending (out @ [(k, e)])" and fits: "list_all entry_fits (out @ [(k, e)])"
  shows "\<exists>bo'. write_winner crc bsz bits d k e bo = Inr bo'
    \<and> builder_for crc bsz bits (out @ (if entry_operation e = DELETE \<and> d then [] else [(k, e)])) bo'"
proof (cases "entry_operation e = DELETE \<and> d")
  case False
  let ?b = "case bo of None \<Rightarrow> builder_new bsz bits | Some b \<Rightarrow> b"
  have b: "builder_add_all crc out (builder_new bsz bits) = Inr ?b"
    using assms(3) by (cases "out = []") (auto simp: builder_for_def)
  obtain b' where "builder_add_all crc (out @ [(k, e)]) (builder_new bsz bits) = Inr b'"
    using builder_add_all_inv [OF assms(1) _ builder_inv_new fits, of bsz bits] asc assms(2)
    by (auto simp: builder_new_def)
  then have "builder_add crc k e ?b = Inr b'" "builder_add_all crc (out @ [(k, e)]) (builder_new bsz bits) = Inr b'"
    using b by (auto simp: builder_add_all_append)
  then show ?thesis using False by (auto simp: write_winner_def builder_for_def Let_def)
qed (use assms(3) in \<open>simp add: write_winner_def\<close>)

section \<open>The loop\<close>

lemma heads_dropped_mem:
  assumes "heads_dropped I xss xss'" and "xs \<in> set xss'"
  shows "\<exists>ys\<in>set xss. xs = tl ys \<or> xs = ys"
proof -
  obtain i where i: "i < length xss'" "xs = xss' ! i" using assms(2) by (metis in_set_conv_nth)
  then have "xss ! i \<in> set xss" "xs = tl (xss ! i) \<or> xs = xss ! i"
    using assms(1) by (auto simp: heads_dropped_def)
  then show ?thesis by blast
qed

lemma ascending_fits_tl:
  "ascending xs \<and> list_all entry_fits xs \<Longrightarrow> ascending (tl xs) \<and> list_all entry_fits (tl xs)"
  by (cases xs) auto

lemma heads_dropped_ascending:
  "heads_dropped I xss xss' \<Longrightarrow> \<forall>xs\<in>set xss. ascending xs \<and> list_all entry_fits xs \<Longrightarrow>
   \<forall>xs\<in>set xss'. ascending xs \<and> list_all entry_fits xs"
  using heads_dropped_mem ascending_fits_tl by metis

lemma heads_dropped_subset:
  assumes "heads_dropped I xss xss'" and "xs' \<in> set xss'"
  shows "\<exists>xs\<in>set xss. set xs' \<subseteq> set xs"
proof -
  have "set (tl ys) \<subseteq> set ys" for ys :: entries by (cases ys) auto
  then show ?thesis using heads_dropped_mem [OF assms] by blast
qed

lemma heads_dropped_fewer:
  assumes "heads_dropped I xss xss'" and "w \<in> I" and "w < length xss" and "xss ! w \<noteq> []"
  shows "(\<Sum>i<length xss'. length (xss' ! i)) < (\<Sum>i<length xss. length (xss ! i))"
proof -
  have len: "length xss' = length xss" using assms(1) by (simp add: heads_dropped_def)
  show ?thesis
    unfolding len
    by (rule sum_strict_mono_ex1) (use assms in \<open>auto simp: heads_dropped_def intro!: bexI [of _ w]\<close>)
qed

text \<open>What holds of the merge state when the inputs still have \<open>xss\<close> to give and \<open>out\<close> has been
  written.\<close>

definition merge_inputs_ok :: "entries list \<Rightarrow> entries \<Rightarrow> bool" where
  "merge_inputs_ok xss out \<longleftrightarrow>
     (\<forall>xs\<in>set xss. ascending xs \<and> list_all entry_fits xs)
     \<and> ascending out \<and> list_all entry_fits out
     \<and> (\<forall>p\<in>set out. \<forall>xs\<in>set xss. \<forall>q\<in>set xs. fst p < fst q)"

end
