(* ===== verification/Versions.thy ===== *)
theory Versions
  imports Kronos_Types
begin

text \<open>
  Choosing among several versions of a key: what folding \<open>considerNewer\<close> over the candidates
  yields. The engine does this over the memtables and tables, the merge over its inputs.
\<close>

definition newest :: "internal_entry option list \<Rightarrow> internal_entry option" where
  "newest vs = fold (\<lambda>c w. consider_newer w c) vs None"

lemma newest_Nil [simp]: "newest [] = None"
  by (simp add: newest_def)

lemma fold_consider_newer: "fold (\<lambda>c w. consider_newer w c) vs w = consider_newer w (newest vs)"
proof (induction vs arbitrary: w)
  case (Cons v vs)
  have "newest (v # vs) = consider_newer v (newest vs)" using Cons [of v] by (simp add: newest_def)
  then show ?case using Cons [of "consider_newer w v"] by (simp add: consider_newer_assoc)
qed simp

lemma newest_Cons [simp]: "newest (v # vs) = consider_newer v (newest vs)"
  using fold_consider_newer [of vs v] by (simp add: newest_def)

lemma newest_append [simp]: "newest (vs @ ws) = consider_newer (newest vs) (newest ws)"
  by (induction vs) (simp_all add: consider_newer_assoc)

lemma newest_eq_None [simp]: "newest vs = None \<longleftrightarrow> (\<forall>v\<in>set vs. v = None)"
  by (induction vs) auto

lemma consider_newer_Some:
  "consider_newer a b = Some e \<Longrightarrow>
   (a = Some e \<or> b = Some e) \<and> (\<forall>e'. a = Some e' \<or> b = Some e' \<longrightarrow> entry_sequence e' \<le> entry_sequence e)"
  by (cases a; cases b) (auto split: if_splits)

lemma newest_SomeD:
  "newest vs = Some e \<Longrightarrow> Some e \<in> set vs \<and> (\<forall>e'. Some e' \<in> set vs \<longrightarrow> entry_sequence e' \<le> entry_sequence e)"
proof (induction vs arbitrary: e)
  case (Cons v vs)
  note n = consider_newer_Some [OF Cons.prems [unfolded newest_Cons]]
  have "\<exists>e0. newest vs = Some e0 \<and> entry_sequence e' \<le> entry_sequence e0" if "Some e' \<in> set vs" for e'
    using Cons.IH that by (metis newest_eq_None not_None_eq option.distinct(1))
  then have "entry_sequence e' \<le> entry_sequence e" if "Some e' \<in> set vs" for e'
    using n that by (meson order_trans)
  then show ?case using n Cons.IH by auto
qed simp

text \<open>Two versions of one key never share a sequence number.\<close>

definition versions_distinct :: "internal_entry option list \<Rightarrow> bool" where
  "versions_distinct vs \<longleftrightarrow>
     (\<forall>a b. Some a \<in> set vs \<and> Some b \<in> set vs \<and> entry_sequence a = entry_sequence b \<longrightarrow> a = b)"

lemma newest_eq_Some:
  assumes "versions_distinct vs" and "Some e \<in> set vs"
    and "\<And>e'. Some e' \<in> set vs \<Longrightarrow> entry_sequence e' \<le> entry_sequence e"
  shows "newest vs = Some e"
proof -
  obtain e' where e': "newest vs = Some e'" using assms(2) newest_eq_None by fastforce
  then have "entry_sequence e' = entry_sequence e"
    using newest_SomeD [OF e'] assms(2,3) by (meson order_antisym)
  then show ?thesis using newest_SomeD [OF e'] assms(1,2) e' unfolding versions_distinct_def by auto
qed

end
