(* ===== verification/Compaction_Properties.thy ===== *)
theory Compaction_Properties
  imports Compaction_Merge Sstable_Properties Versions
begin

text \<open>
  What a whole compaction promises: the merge loop ends, the output table holds the newest
  version of every key of the inputs without the tombstones that may be dropped, no other file
  changes, and every refused call changes nothing.
\<close>

section \<open>The loop ends with the merged list\<close>

lemma mset_eq_mset_setD: "finite A \<Longrightarrow> mset xs = mset_set A \<Longrightarrow> set xs = A \<and> distinct xs"
proof
  assume A: "finite A" and m: "mset xs = mset_set A"
  have "set_mset (mset xs) = A" using A by (simp add: m)
  then show s: "set xs = A" by simp
  show "distinct xs" unfolding distinct_count_atmost_1 m by (simp add: s A)
qed

lemma visible_split:
  assumes "I = {i. i < length xss \<and> xss ! i \<noteq> [] \<and> fst (hd (xss ! i)) = k}"
  shows "image_mset snd (filter_mset (\<lambda>x. fst x = k) (visible xss {})) = mset_set I"
    and "filter_mset (\<lambda>x. fst x \<noteq> k) (visible xss {}) = visible xss I"
proof -
  have "{j. (j < length xss \<and> xss ! j \<noteq> []) \<and> fst (hd (xss ! j)) = k} = I"
    "{j. (j < length xss \<and> xss ! j \<noteq> []) \<and> fst (hd (xss ! j)) \<noteq> k} = {j. j < length xss \<and> xss ! j \<noteq> [] \<and> j \<notin> I}"
    using assms by auto
  then show "image_mset snd (filter_mset (\<lambda>x. fst x = k) (visible xss {})) = mset_set I"
    and "filter_mset (\<lambda>x. fst x \<noteq> k) (visible xss {}) = visible xss I"
    by (simp_all add: visible_def filter_mset_image_mset multiset.map_comp comp_def)
qed

lemma merge_inputs_ok_step:
  assumes "merge_inputs_ok xss out" and "heads_dropped I xss xss'"
    and "w < length xss" and "xss ! w \<noteq> []" and "hd (xss ! w) = (k, e)"
    and low: "\<forall>i<length xss. xss ! i \<noteq> [] \<longrightarrow> k \<le> fst (hd (xss ! i))"
    and I: "I = {i. i < length xss \<and> xss ! i \<noteq> [] \<and> fst (hd (xss ! i)) = k}"
  shows "ascending (out @ [(k, e)])" "list_all entry_fits (out @ [(k, e)])"
    and "merge_inputs_ok xss' (out @ (if b then [] else [(k, e)]))"
proof -
  have mem: "(k, e) \<in> set (xss ! w)" "xss ! w \<in> set xss" using assms(3-5) hd_in_set [of "xss ! w"] by auto
  have o: "ascending out" "list_all entry_fits out" "\<forall>p\<in>set out. \<forall>xs\<in>set xss. \<forall>q\<in>set xs. fst p < fst q"
    and x: "\<forall>xs\<in>set xss. list_all entry_fits xs"
    using assms(1) by (simp_all add: merge_inputs_ok_def)
  have below: "\<forall>p\<in>set out. fst p < k" using o(3) mem by (metis fst_conv)
  have "entry_fits (k, e)" using x mem unfolding list_all_iff by blast
  then show asc: "ascending (out @ [(k, e)])" and fits: "list_all entry_fits (out @ [(k, e)])"
    using o(1,2) below by (simp_all add: sorted_wrt_append)
  have above: "k < fst q" if "xs \<in> set xss'" "q \<in> set xs" for xs q
  proof -
    note x = that
    have "length xss' = length xss" using assms(2) by (simp add: heads_dropped_def)
    then obtain i where i: "i < length xss" "xs = xss' ! i" using x(1) by (auto simp: in_set_conv_nth)
    show ?thesis
      by (rule heads_dropped_above [OF _ low I assms(2) i(1)])
        (use assms(1) x i in \<open>auto simp: merge_inputs_ok_def\<close>)
  qed
  have "\<forall>xs\<in>set xss'. ascending xs \<and> list_all entry_fits xs"
    using heads_dropped_ascending [OF assms(2)] assms(1) by (simp add: merge_inputs_ok_def)
  moreover have "\<forall>p\<in>set out. \<forall>xs\<in>set xss'. \<forall>q\<in>set xs. fst p < fst q"
    using heads_dropped_subset [OF assms(2)] assms(1) unfolding merge_inputs_ok_def by blast
  ultimately show "merge_inputs_ok xss' (out @ (if b then [] else [(k, e)]))"
    using asc fits above by (auto simp: merge_inputs_ok_def sorted_wrt_append)
qed

text \<open>A path whose file is a finished table with the given entries.\<close>

definition input_holds :: "crc_fn \<Rightarrow> file_system \<Rightarrow> path \<Rightarrow> entries \<Rightarrow> bool" where
  "input_holds crc fs p es \<longleftrightarrow> (\<exists>f. fs p = Some f \<and> table_holds crc f es)"

lemma inputs_hold_fits:
  assumes "list_all2 (input_holds crc fs) ps ess"
  shows "\<forall>es\<in>set ess. ascending es \<and> list_all entry_fits es"
proof
  fix es assume "es \<in> set ess"
  then obtain p f where "fs p = Some f" "table_holds crc f es"
    using assms by (auto simp: list_all2_conv_all_nth in_set_conv_nth input_holds_def)
  then show "ascending es \<and> list_all entry_fits es" using sst.content_ascending table_holds_fits(1) by blast
qed

lemma visible_append:
  assumes "xs \<noteq> []"
  shows "visible (xss @ [xs]) {} = add_mset (fst (hd xs), length xss) (visible xss {})"
proof -
  let ?A = "{i. i < length xss \<and> xss ! i \<noteq> [] \<and> i \<notin> {}}"
  have set: "{i. i < length (xss @ [xs]) \<and> (xss @ [xs]) ! i \<noteq> [] \<and> i \<notin> {}} = insert (length xss) ?A"
    using assms by (auto simp: nth_append less_Suc_eq split: if_splits)
  have "image_mset (\<lambda>i. (fst (hd ((xss @ [xs]) ! i)), i)) (mset_set ?A) = visible xss {}"
    unfolding visible_def by (rule image_mset_cong) (auto simp: nth_append)
  moreover have "finite ?A" "length xss \<notin> ?A" by auto
  ultimately show ?thesis unfolding visible_def set by (simp del: Collect_conj_eq)
qed

context min_heap
begin

lemma merge_loop_step:
  assumes "running_crc crc" and "unat bsz < 2 ^ 32"
    and rel: "list_all2 (cursor_at crc) (ms_cursors st) xss" and ok: "merge_inputs_ok xss out"
    and inv: "invar (ms_heap st)" and vis: "items (ms_heap st) = visible xss {}"
    and bf: "builder_for crc bsz bits out (ms_builder st)" and ne: "items (ms_heap st) \<noteq> {#}"
  shows "\<exists>I k w e st' xss'. merge_loop ops crc bsz bits d st = merge_loop ops crc bsz bits d st'
    \<and> (\<forall>i<length xss. xss ! i \<noteq> [] \<longrightarrow> k \<le> fst (hd (xss ! i)))
    \<and> I = {i. i < length xss \<and> xss ! i \<noteq> [] \<and> fst (hd (xss ! i)) = k}
    \<and> w \<in> I \<and> hd (xss ! w) = (k, e) \<and> (\<forall>i\<in>I. entry_sequence (snd (hd (xss ! i))) \<le> entry_sequence e)
    \<and> heads_dropped I xss xss' \<and> list_all2 (cursor_at crc) (ms_cursors st') xss'
    \<and> invar (ms_heap st') \<and> items (ms_heap st') = visible xss' {}
    \<and> builder_for crc bsz bits (out @ (if entry_operation e = DELETE \<and> d then [] else [(k, e)])) (ms_builder st')"
proof -
  let ?k = "fst (hp_top ops (ms_heap st))"
  define I where "I = {i. i < length xss \<and> xss ! i \<noteq> [] \<and> fst (hd (xss ! i)) = ?k}"
  have low: "\<forall>x\<in>#items (ms_heap st). ?k \<le> fst x" using top(2) [OF inv] by blast
  then have low': "\<forall>i<length xss. xss ! i \<noteq> [] \<longrightarrow> ?k \<le> fst (hd (xss ! i))"
    unfolding vis set_visible by auto
  obtain same h where pop: "pop_same_key ops ?k (ms_heap st) [] = Some (same, h)" "invar h"
    "mset same = mset_set I" "items h = visible xss I"
    using pop_same_key_ends [OF inv low, of "[]"] by (auto simp: vis visible_split [OF I_def])
  then have same: "set same = I" "distinct same" using mset_eq_mset_setD [of I same] by (auto simp: I_def)
  have "hp_top ops (ms_heap st) \<in># items (ms_heap st)" using top(1) inv ne by blast
  then have "I \<noteq> {}" by (auto simp: vis set_visible I_def)
  then have hd: "hd same \<in> I" using same hd_in_set [of same] by auto
  let ?st = "st\<lparr>ms_heap := h\<rparr>" and ?ent = "\<lambda>i. snd (hd (xss ! i))"
  have len: "length (ms_cursors st) = length xss" using rel by (simp add: list_all2_lengthD)
  have ent: "iterator_entry (snd (ms_cursors ?st ! i)) = Inr (?ent i)" if "i \<in> I" for i
    using tc.entry_hd [OF list_all2_nthD2 [OF rel]] that by (simp add: I_def)
  obtain w where w: "select_winner (ms_cursors ?st) same (hd same) = Inr w" "w \<in> I"
    "\<forall>i\<in>I. entry_sequence (?ent i) \<le> entry_sequence (?ent w)"
    using select_winner_max [of same "ms_cursors ?st" ?ent "hd same"] ent hd same(1) by (auto simp: insert_absorb)
  let ?e = "?ent w"
  have wI: "w < length xss" "xss ! w \<noteq> []" "hd (xss ! w) = (?k, ?e)" using w(2) by (auto simp: I_def prod_eq_iff)
  let ?out = "out @ (if entry_operation ?e = DELETE \<and> d then [] else [(?k, ?e)])"
  have "heads_dropped I xss (map (\<lambda>i. if i \<in> I then tl (xss ! i) else xss ! i) [0..<length xss])"
    by (simp add: heads_dropped_def)
  note grow = merge_inputs_ok_step(1,2) [OF ok this wI low' I_def]
  obtain bo where bo: "write_winner crc bsz bits d ?k ?e (ms_builder ?st) = Inr bo" "builder_for crc bsz bits ?out bo"
    using write_winner_for [OF assms(1,2) bf grow, of d] by auto
  have "\<forall>i\<in>set same. i < length xss \<and> xss ! i \<noteq> []" using same(1) by (auto simp: I_def)
  then obtain st' xss' where st': "advance_cursors ops crc same (?st\<lparr>ms_builder := bo\<rparr>) = Inr st'"
    "heads_dropped I xss xss'" "list_all2 (cursor_at crc) (ms_cursors st') xss'" "invar (ms_heap st')"
    "items (ms_heap st') = visible xss' {}" "ms_builder st' = bo"
    using advance_cursors_ends [OF same(2), of xss crc "?st\<lparr>ms_builder := bo\<rparr>"] rel pop(2,4) same(1) by auto
  have "merge_step ops crc bsz bits d ?k same ?st = Inr st'"
    using w(1) ent [OF w(2)] bo(1) st'(1) by (simp add: merge_step_def)
  then have "merge_loop ops crc bsz bits d st = merge_loop ops crc bsz bits d st'"
    using pop(1) ne inv is_empty by (simp add: merge_loop.simps [of ops crc bsz bits d st])
  then show ?thesis using low' I_def w wI(3) st' bo(2) by blast
qed

lemma merge_loop_ends:
  assumes "running_crc crc" and "unat bsz < 2 ^ 32"
  shows "list_all2 (cursor_at crc) (ms_cursors st) xss \<Longrightarrow> merge_inputs_ok xss out \<Longrightarrow>
    invar (ms_heap st) \<Longrightarrow> items (ms_heap st) = visible xss {} \<Longrightarrow> builder_for crc bsz bits out (ms_builder st) \<Longrightarrow>
    \<exists>rest st'. merge_loop ops crc bsz bits d st = Some (Inr st') \<and> merged xss d rest
      \<and> builder_for crc bsz bits (out @ rest) (ms_builder st')"
proof (induction "\<Sum>i<length xss. length (xss ! i)" arbitrary: st xss out rule: less_induct)
  case less
  show ?case
  proof (cases "items (ms_heap st) = {#}")
    case True
    then have none: "xss ! i = []" if "i < length xss" for i
      using that less.prems(4) set_visible [of xss "{}"] by fastforce
    have "map_of xs k = None" if "xs \<in> set xss" for xs k
    proof -
      obtain i where "i < length xss" "xs = xss ! i" using \<open>xs \<in> set xss\<close> by (metis in_set_conv_nth)
      then show ?thesis using none by simp
    qed
    then have "merged xss d []" by (auto simp: merged_def)
    moreover have "merge_loop ops crc bsz bits d st = Some (Inr st)"
      using True less.prems(3) is_empty by (simp add: merge_loop.simps [of ops crc bsz bits d st])
    ultimately show ?thesis using less.prems(5) by (intro exI [of _ "[]"] exI [of _ st]) simp
  next
    case False
    obtain I k w e st' xss' where s: "merge_loop ops crc bsz bits d st = merge_loop ops crc bsz bits d st'"
      "\<forall>i<length xss. xss ! i \<noteq> [] \<longrightarrow> k \<le> fst (hd (xss ! i))"
      "I = {i. i < length xss \<and> xss ! i \<noteq> [] \<and> fst (hd (xss ! i)) = k}"
      "w \<in> I" "hd (xss ! w) = (k, e)" "\<forall>i\<in>I. entry_sequence (snd (hd (xss ! i))) \<le> entry_sequence e"
      "heads_dropped I xss xss'" "list_all2 (cursor_at crc) (ms_cursors st') xss'"
      "invar (ms_heap st')" "items (ms_heap st') = visible xss' {}"
      "builder_for crc bsz bits (out @ (if entry_operation e = DELETE \<and> d then [] else [(k, e)])) (ms_builder st')"
      using merge_loop_step [OF assms less.prems False, of d] by (elim exE conjE) (rule that)
    let ?piece = "if entry_operation e = DELETE \<and> d then [] else [(k, e)]"
    have w: "w < length xss" "xss ! w \<noteq> []" using s(3,4) by auto
    have ok: "merge_inputs_ok xss' (out @ ?piece)"
      by (rule merge_inputs_ok_step(3) [OF less.prems(2) s(7) w s(5,2,3)])
    obtain rest st'' where r: "merge_loop ops crc bsz bits d st' = Some (Inr st'')" "merged xss' d rest"
      "builder_for crc bsz bits ((out @ ?piece) @ rest) (ms_builder st'')"
      using less.hyps [OF heads_dropped_fewer [OF s(7,4) w] s(8) ok s(9-11)] by auto
    have asc: "\<forall>xs\<in>set xss. ascending xs" using less.prems(2) by (simp add: merge_inputs_ok_def)
    have "merged xss d (?piece @ rest)"
      using merged_step(1) [OF asc s(2,3,4) _ _ s(7) r(2), of e] s(5,6) by simp
    then show ?thesis using s(1) r(1,3) by (intro exI [of _ "?piece @ rest"] exI [of _ st'']) simp
  qed
qed

text \<open>Opening the inputs puts the head of every table into the queue.\<close>

lemma open_inputs_ends:
  "list_all2 (input_holds crc fs) ps ess \<Longrightarrow>
   list_all2 (cursor_at crc) (ms_cursors st) xss \<Longrightarrow> invar (ms_heap st) \<Longrightarrow> items (ms_heap st) = visible xss {} \<Longrightarrow>
   \<exists>st'. open_inputs ops crc fs ps st = Inr st' \<and> list_all2 (cursor_at crc) (ms_cursors st') (xss @ ess)
     \<and> invar (ms_heap st') \<and> items (ms_heap st') = visible (xss @ ess) {} \<and> ms_builder st' = ms_builder st"
proof (induction ps arbitrary: ess st xss)
  case Nil
  then show ?case by auto
next
  case (Cons p ps)
  obtain es ess' where ess: "ess = es # ess'" "input_holds crc fs p es" "list_all2 (input_holds crc fs) ps ess'"
    using Cons.prems(1) by (auto simp: list_all2_Cons1)
  obtain r it where c: "open_cursor crc fs p = Inr (r, it)" "cursor_at crc (r, it) es"
    using ess(2) cursor_open by (fastforce simp: input_holds_def open_cursor_def)
  have n: "length (ms_cursors st) = length xss" using Cons.prems(2) by (simp add: list_all2_lengthD)
  have ne: "es \<noteq> []" using ess(2) table_holds_fits(2) by (auto simp: input_holds_def)
  define st1 where "st1 = st\<lparr>ms_cursors := ms_cursors st @ [(r, it)], ms_heap := hp_push ops (fst (hd es), length xss) (ms_heap st)\<rparr>"
  have step: "open_inputs ops crc fs (p # ps) st = open_inputs ops crc fs ps st1"
    using c tc.valid_iff [OF c(2)] tc.key_hd [OF c(2) ne] ne n by (simp add: st1_def)
  have "list_all2 (cursor_at crc) (ms_cursors st1) (xss @ [es])" "invar (ms_heap st1)"
    "items (ms_heap st1) = visible (xss @ [es]) {}" "ms_builder st1 = ms_builder st"
    using Cons.prems(2-4) c(2) push visible_append [OF ne, of xss] by (simp_all add: st1_def list_all2_appendI)
  with Cons.IH [OF ess(3) this(1-3)] show ?case unfolding step ess(1) by simp
qed

lemma compact_ends:
  assumes "running_crc crc" and "unat bsz < 2 ^ 32" and "list_all2 (input_holds crc fs) inputs ess"
    and "inputs \<noteq> []" and "fs out = None" and "\<forall>p\<in>set inputs. \<not> path_eq p out"
  shows "\<exists>m. merged ess d m \<and> compact ops crc fs inputs out bsz bits d = Some
    (if m = [] then Inr (\<lparr>result_input_files = inputs, result_output_files = []\<rparr>, fs)
     else case sstable_build crc bsz bits m of
       Inl e \<Rightarrow> Inl e
     | Inr f \<Rightarrow> Inr (\<lparr>result_input_files = inputs, result_output_files = [out]\<rparr>, fs(out \<mapsto> f)))"
proof -
  let ?st = "\<lparr>ms_cursors = [], ms_heap = hp_empty ops, ms_builder = None\<rparr> :: 'h merge_state"
  obtain st where st: "open_inputs ops crc fs inputs ?st = Inr st" "list_all2 (cursor_at crc) (ms_cursors st) ess"
    "invar (ms_heap st)" "items (ms_heap st) = visible ess {}" "ms_builder st = None"
    using open_inputs_ends [OF assms(3), of ?st "[]"] empty by (auto simp: visible_def)
  have ok: "merge_inputs_ok ess []"
    using inputs_hold_fits [OF assms(3)] by (simp add: merge_inputs_ok_def)
  obtain m st' where m: "merge_loop ops crc bsz bits d st = Some (Inr st')" "merged ess d m"
    "builder_for crc bsz bits m (ms_builder st')"
    using merge_loop_ends [OF assms(1,2) st(2) ok st(3,4), of bits d] st(5) by (auto simp: builder_for_def)
  show ?thesis
    using assms(4-6) st(1) m
    by (intro exI [of _ m]) (auto simp: compact_def builder_for_def sstable_build_def split: sum.split)
qed

end

section \<open>What the merged list says about a key\<close>

abbreviation versions_of :: "entries list \<Rightarrow> bytes \<Rightarrow> internal_entry option list" where
  "versions_of ess k \<equiv> map (\<lambda>es. map_of es k) ess"

text \<open>The version that remains of a key, when tombstones may or may not be dropped.\<close>

fun surviving :: "bool \<Rightarrow> internal_entry option \<Rightarrow> internal_entry option" where
  "surviving can_drop None = None"
| "surviving can_drop (Some e) = (if entry_operation e = DELETE \<and> can_drop then None else Some e)"

lemma merged_lookup:
  assumes "merged ess d m" and "versions_distinct (versions_of ess k)"
  shows "map_of m k = surviving d (newest (versions_of ess k))"
proof (cases "\<exists>es\<in>set ess. map_of es k \<noteq> None")
  case True
  then obtain e where e: "newest_of ess k e"
    "map_of m k = (if entry_operation e = DELETE \<and> d then None else Some e)"
    using assms(1) unfolding merged_def by (metis (no_types, lifting))
  have "newest (versions_of ess k) = Some e"
    by (rule newest_eq_Some [OF assms(2)]) (use e(1) in \<open>force simp: newest_of_def\<close>)+
  then show ?thesis using e(2) by simp
next
  case False
  then have "newest (versions_of ess k) = None" by simp
  moreover have "map_of m k = None" using False assms(1) unfolding merged_def by (metis (full_types))
  ultimately show ?thesis by (simp only: surviving.simps)
qed

lemma merged_unique:
  assumes "merged ess d m" and "merged ess d m'" and "\<And>k. versions_distinct (versions_of ess k)"
  shows "m = m'"
proof (rule ascending_unique)
  show "map_of m = map_of m'" using merged_lookup assms by (intro ext) metis
qed (use assms in \<open>auto simp: merged_def\<close>)

lemma ascending_length_le:
  fixes m :: entries
  assumes "ascending m" and "set m \<subseteq> \<Union> (set ` set ess)"
  shows "length m \<le> sum_list (map length ess)"
proof -
  have "distinct m" using ascending_distinct [OF assms(1)] by (simp add: distinct_map)
  then have "length m = card (set m)" by (simp add: distinct_card)
  also have "\<dots> \<le> card (set (concat ess))" using assms(2) by (intro card_mono) auto
  also have "\<dots> \<le> length (concat ess)" by (rule card_length)
  finally show ?thesis by (simp add: length_concat)
qed

lemma merged_fits:
  assumes "merged ess d m" and "\<forall>es\<in>set ess. ascending es \<and> list_all entry_fits es"
  shows "list_all entry_fits m" and "length m \<le> sum_list (map length ess)"
proof -
  have sub: "p \<in> \<Union> (set ` set ess)" if "p \<in> set m" for p
    using merged_entry_from_input [OF assms(1), of "fst p" "snd p"] that by auto
  then show "list_all entry_fits m" using assms(2) by (fastforce simp: list_all_iff)
  show "length m \<le> sum_list (map length ess)"
    by (rule ascending_length_le) (use assms(1) sub in \<open>auto simp: merged_def\<close>)
qed

text \<open>A merged list is empty or can be built into a table.\<close>

lemma merged_build:
  assumes "running_crc crc" and "unat bsz < 2 ^ 32" and "bits \<noteq> 0"
    and "unat bits * sum_list (map length ess) + 7 < 2 ^ 32"
    and "\<forall>es\<in>set ess. ascending es \<and> list_all entry_fits es" and "merged ess d m" and "m \<noteq> []"
  shows "\<exists>f. sstable_build crc bsz bits m = Inr f \<and> (length f < 2 ^ 63 \<longrightarrow> table_holds crc f m)"
proof -
  note fits = merged_fits [OF assms(6,5)]
  have "unat bits * length m \<le> unat bits * sum_list (map length ess)" using fits(2) by simp
  then have small: "unat bits * length m + 7 < 2 ^ 32" using assms(4) by linarith
  have "ascending m" using assms(6) by (simp add: merged_def)
  then show ?thesis
    using sstable_build_cases [OF assms(1,2) fits(1) small] assms(3,7)
      sstable_build_holds [OF assms(1,2) fits(1) small] by auto
qed

section \<open>The merge ends on every input\<close>

text \<open>How many steps an iterator has left, on a file of any content.\<close>

function steps_left :: "crc_fn \<Rightarrow> sstable_reader \<Rightarrow> sst_iterator \<Rightarrow> nat" where
  "steps_left crc r it =
     (if it_valid it then
        (case iterator_next crc r it of Inl e \<Rightarrow> 0 | Inr it' \<Rightarrow> Suc (steps_left crc r it'))
      else 0)"
  by pat_completeness auto
termination
  by (relation "measures [\<lambda>(crc, r, it). if it_valid it then 1 else 0,
        \<lambda>(crc, r, it). length (rd_index r) - it_block_index it, \<lambda>(crc, r, it). length (it_rest it)]")
    (auto simp: iterator_next_def split: if_splits dest!: parse_current_record_InrD load_block_InrD)

declare steps_left.simps [simp del]

lemma steps_left_next:
  "it_valid it \<Longrightarrow> iterator_next crc r it = Inr it' \<Longrightarrow> steps_left crc r it = Suc (steps_left crc r it')"
  by (simp add: steps_left.simps [of crc r it])

abbreviation steps_all :: "crc_fn \<Rightarrow> table_cursor list \<Rightarrow> nat" where
  "steps_all crc cs \<equiv> \<Sum>c\<leftarrow>cs. steps_left crc (fst c) (snd c)"

text \<open>The queue holds an index at most once, and only while its iterator is valid.\<close>

definition indices_ok :: "table_cursor list \<Rightarrow> nat multiset \<Rightarrow> bool" where
  "indices_ok cs N \<longleftrightarrow> (\<forall>i. count N i \<le> 1) \<and> (\<forall>i\<in>#N. i < length cs \<and> it_valid (snd (cs ! i)))"

abbreviation queued_ok :: "table_cursor list \<Rightarrow> heap_item multiset \<Rightarrow> bool" where
  "queued_ok cs M \<equiv> indices_ok cs (image_mset snd M)"

lemma indices_ok_empty [simp]: "indices_ok cs {#}"
  by (simp add: indices_ok_def)

lemma indices_ok_push:
  "indices_ok cs N \<Longrightarrow> i < length cs \<Longrightarrow> it_valid (snd (cs ! i)) \<Longrightarrow> i \<notin># N \<Longrightarrow> indices_ok cs (add_mset i N)"
  by (auto simp: indices_ok_def not_in_iff)

lemma indices_ok_update: "indices_ok cs N \<Longrightarrow> i \<notin># N \<Longrightarrow> indices_ok (cs[i := c]) N"
  by (metis indices_ok_def length_list_update nth_list_update_neq)

lemma indices_ok_append: "indices_ok cs N \<Longrightarrow> indices_ok (cs @ [c]) N \<and> length cs \<notin># N"
  by (auto simp: indices_ok_def nth_append)

lemma indices_ok_split:
  assumes "indices_ok cs (mset same + N)"
  shows "distinct same" and "\<forall>i\<in>set same. i < length cs \<and> it_valid (snd (cs ! i))"
    and "\<forall>i\<in>set same. i \<notin># N" and "indices_ok cs N"
proof -
  have c: "count (mset same) i + count N i \<le> 1" for i using assms by (simp add: indices_ok_def)
  have pos: "0 < count (mset same) i" if "i \<in> set same" for i using that by simp
  have one: "count (mset same) i = 1" "count N i = 0" if "i \<in> set same" for i
    using c [of i] pos [OF that] by linarith+
  show "distinct same" unfolding distinct_count_atmost_1 using one(1) by (auto simp: count_mset_0_iff)
  show "\<forall>i\<in>set same. i < length cs \<and> it_valid (snd (cs ! i))" using assms by (simp add: indices_ok_def)
  show "\<forall>i\<in>set same. i \<notin># N" using one(2) by (simp only: not_in_iff) blast
  show "indices_ok cs N" using assms c unfolding indices_ok_def by (auto intro: add_leD2)
qed

lemma image_filter_split:
  assumes "mset same = image_mset snd (filter_mset P M)"
  shows "image_mset snd M = mset same + image_mset snd (filter_mset (\<lambda>x. \<not> P x) M)"
  using assms multiset_partition [of M P] by (metis image_mset_union)

lemma sum_list_update_less:
  fixes f :: "'a \<Rightarrow> nat"
  assumes "i < length xs" and "f (xs ! i) = Suc (f c)"
  shows "Suc (\<Sum>x\<leftarrow>xs[i := c]. f x) = (\<Sum>x\<leftarrow>xs. f x)"
  using assms by (induction xs arbitrary: i) (auto split: nat.splits simp: nth_Cons')

context min_heap
begin

lemma advance_cursors_fewer:
  "distinct is \<Longrightarrow> \<forall>i\<in>set is. i < length (ms_cursors st) \<and> it_valid (snd (ms_cursors st ! i)) \<Longrightarrow>
   invar (ms_heap st) \<Longrightarrow> queued_ok (ms_cursors st) (items (ms_heap st)) \<Longrightarrow>
   \<forall>i\<in>set is. i \<notin># image_mset snd (items (ms_heap st)) \<Longrightarrow> advance_cursors ops crc is st = Inr st' \<Longrightarrow>
   invar (ms_heap st') \<and> queued_ok (ms_cursors st') (items (ms_heap st'))
     \<and> steps_all crc (ms_cursors st') + length is = steps_all crc (ms_cursors st)"
proof (induction "is" arbitrary: st)
  case (Cons i "is")
  let ?c = "ms_cursors st ! i"
  obtain it where it: "iterator_next crc (fst ?c) (snd ?c) = Inr it" using Cons.prems(6) by auto
  define cs where "cs = (ms_cursors st)[i := (fst ?c, it)]"
  have i: "i < length (ms_cursors st)" "it_valid (snd ?c)" using Cons.prems(2) by auto
  have less: "Suc (steps_all crc cs) = steps_all crc (ms_cursors st)"
    unfolding cs_def by (rule sum_list_update_less [OF i(1)]) (simp add: steps_left_next [OF i(2) it])
  have q: "queued_ok cs (items (ms_heap st))"
    unfolding cs_def by (rule indices_ok_update [OF Cons.prems(4)]) (use Cons.prems(5) in auto)
  have nth: "\<forall>j\<in>set is. j < length cs \<and> it_valid (snd (cs ! j))"
    using Cons.prems(1,2) by (auto simp: cs_def nth_list_update)
  obtain st1 where st1: "advance_cursors ops crc is st1 = Inr st'" "ms_cursors st1 = cs" "invar (ms_heap st1)"
    "queued_ok cs (items (ms_heap st1))" "\<forall>j\<in>set is. j \<notin># image_mset snd (items (ms_heap st1))"
  proof (cases "it_valid it")
    case True
    then obtain key where k: "iterator_key it = Inr key" using Cons.prems(6) it by (auto simp: Let_def)
    show ?thesis
    proof (rule that [of "st\<lparr>ms_cursors := cs, ms_heap := hp_push ops (key, i) (ms_heap st)\<rparr>"])
      show "advance_cursors ops crc is (st\<lparr>ms_cursors := cs, ms_heap := hp_push ops (key, i) (ms_heap st)\<rparr>) = Inr st'"
        using Cons.prems(6) it True k by (simp add: cs_def)
      have "queued_ok cs (add_mset (key, i) (items (ms_heap st)))"
        using indices_ok_push [OF q, of i] True i(1) Cons.prems(5) by (simp add: cs_def)
      then show "queued_ok cs (items (ms_heap (st\<lparr>ms_cursors := cs, ms_heap := hp_push ops (key, i) (ms_heap st)\<rparr>)))"
        using push(2) Cons.prems(3) by simp
    qed (use Cons.prems(1,3,5) push in auto)
  next
    case False
    show ?thesis
      by (rule that [of "st\<lparr>ms_cursors := cs\<rparr>"])
        (use Cons.prems it q False in \<open>auto simp: cs_def\<close>)
  qed
  have "invar (ms_heap st') \<and> queued_ok (ms_cursors st') (items (ms_heap st'))
     \<and> steps_all crc (ms_cursors st') + length is = steps_all crc (ms_cursors st1)"
    by (rule Cons.IH) (use Cons.prems(1) nth st1 in auto)
  then show ?case using less st1(2) by simp
qed simp

lemma merge_loop_total:
  "invar (ms_heap st) \<Longrightarrow> queued_ok (ms_cursors st) (items (ms_heap st)) \<Longrightarrow>
   merge_loop ops crc bsz bits d st \<noteq> None"
proof (induction "steps_all crc (ms_cursors st)" arbitrary: st rule: less_induct)
  case less
  note unfold = merge_loop.simps [of ops crc bsz bits d st]
  show ?case
  proof (cases "items (ms_heap st) = {#}")
    case False
    let ?k = "fst (hp_top ops (ms_heap st))"
    have low: "\<forall>x\<in>#items (ms_heap st). ?k \<le> fst x" using top(2) less.prems(1) by blast
    obtain same h where pop: "pop_same_key ops ?k (ms_heap st) [] = Some (same, h)" "invar h"
      "mset same = image_mset snd (filter_mset (\<lambda>x. fst x = ?k) (items (ms_heap st)))"
      "items h = filter_mset (\<lambda>x. fst x \<noteq> ?k) (items (ms_heap st))"
      using pop_same_key_ends [OF less.prems(1) low, of "[]"] by auto
    note split = indices_ok_split [OF less.prems(2) [unfolded image_filter_split [OF pop(3)]]]
    have "hp_top ops (ms_heap st) \<in># items (ms_heap st)" using top(1) less.prems(1) False by blast
    then have "hp_top ops (ms_heap st) \<in># filter_mset (\<lambda>x. fst x = ?k) (items (ms_heap st))" by simp
    then have "snd (hp_top ops (ms_heap st)) \<in># mset same" unfolding pop(3) by simp
    then have same: "same \<noteq> []" by auto
    let ?st = "st\<lparr>ms_heap := h\<rparr>"
    show ?thesis
    proof (cases "merge_step ops crc bsz bits d ?k same ?st")
      case (Inl e)
      then show ?thesis using pop(1) False less.prems(1) is_empty by (simp add: unfold)
    next
      case (Inr st')
      then obtain b where "advance_cursors ops crc same (?st\<lparr>ms_builder := b\<rparr>) = Inr st'"
        by (auto simp: merge_step_def)
      then have s: "invar (ms_heap st') \<and> queued_ok (ms_cursors st') (items (ms_heap st'))
        \<and> steps_all crc (ms_cursors st') + length same = steps_all crc (ms_cursors st)"
        using advance_cursors_fewer [OF split(1), of "?st\<lparr>ms_builder := b\<rparr>" crc st'] split(2-4) pop(2,4) by simp
      have "0 < length same" using same by simp
      then have "steps_all crc (ms_cursors st') < steps_all crc (ms_cursors st)" using s by linarith
      then have "merge_loop ops crc bsz bits d st' \<noteq> None" using less.hyps [of st'] s by simp
      then show ?thesis using pop(1) Inr False less.prems(1) is_empty by (simp add: unfold)
    qed
  qed (use less.prems(1) is_empty in \<open>simp add: unfold\<close>)
qed

lemma open_inputs_queued:
  "invar (ms_heap st) \<Longrightarrow> queued_ok (ms_cursors st) (items (ms_heap st)) \<Longrightarrow> open_inputs ops crc fs ps st = Inr st' \<Longrightarrow>
   invar (ms_heap st') \<and> queued_ok (ms_cursors st') (items (ms_heap st'))"
proof (induction ps arbitrary: st)
  case (Cons p ps)
  obtain r it where c: "open_cursor crc fs p = Inr (r, it)" using Cons.prems(3) by auto
  note q = indices_ok_append [OF Cons.prems(2), of "(r, it)"]
  show ?case
  proof (cases "it_valid it")
    case True
    then obtain key where k: "iterator_key it = Inr key" using Cons.prems(3) c by (auto simp: Let_def)
    have "queued_ok (ms_cursors st @ [(r, it)]) (add_mset (key, length (ms_cursors st)) (items (ms_heap st)))"
      using indices_ok_push [OF conjunct1 [OF q], of "length (ms_cursors st)"] True q by simp
    then show ?thesis using Cons.prems c True k push by (intro Cons.IH) (auto simp: Let_def)
  next
    case False
    have "open_inputs ops crc fs ps (st\<lparr>ms_cursors := ms_cursors st @ [(r, it)]\<rparr>) = Inr st'"
      using Cons.prems(3) c False by (simp add: Let_def)
    from Cons.IH [OF _ _ this] show ?thesis using Cons.prems(1) q by simp
  qed
qed simp

lemma compact_total: "compact ops crc fs inputs out bsz bits d \<noteq> None"
proof -
  let ?st = "\<lparr>ms_cursors = [], ms_heap = hp_empty ops, ms_builder = None\<rparr> :: 'h merge_state"
  have "merge_loop ops crc bsz bits d st \<noteq> None" if "open_inputs ops crc fs inputs ?st = Inr st" for st
    using merge_loop_total open_inputs_queued [OF _ _ that] empty by simp
  then show ?thesis by (auto simp: compact_def split: sum.split option.split)
qed

end

section \<open>The properties\<close>

text \<open>C30: A compaction of readable inputs ends, whatever queue keeps the laws of
  \<open>std::priority_queue\<close>. It reports the inputs as replaced; its output is one table that
  holds, in key order and once per key, a version with the largest sequence among all inputs,
  without the tombstones when they may be dropped; no file but the output changes, and when
  nothing is left there is no output file.\<close>

theorem compact_correct:
  assumes "min_heap ops invar items" and "running_crc crc" and "unat bsz < 2 ^ 32" and "bits \<noteq> 0"
    and "list_all2 (input_holds crc fs) inputs ess" and "inputs \<noteq> []"
    and "unat bits * sum_list (map length ess) + 7 < 2 ^ 32"
    and "fs out = None" and "\<forall>p\<in>set inputs. \<not> path_eq p out"
  shows "\<exists>m. merged ess d m \<and>
    (if m = [] then compact ops crc fs inputs out bsz bits d
       = Some (Inr (\<lparr>result_input_files = inputs, result_output_files = []\<rparr>, fs))
     else \<exists>f. compact ops crc fs inputs out bsz bits d
       = Some (Inr (\<lparr>result_input_files = inputs, result_output_files = [out]\<rparr>, fs(out \<mapsto> f)))
       \<and> (length f < 2 ^ 63 \<longrightarrow> table_holds crc f m))"
proof -
  from min_heap.compact_ends [OF assms(1-3,5,6,8,9), of d bits]
  obtain m where m: "merged ess d m" "compact ops crc fs inputs out bsz bits d = Some
    (if m = [] then Inr (\<lparr>result_input_files = inputs, result_output_files = []\<rparr>, fs)
     else case sstable_build crc bsz bits m of
       Inl e \<Rightarrow> Inl e
     | Inr f \<Rightarrow> Inr (\<lparr>result_input_files = inputs, result_output_files = [out]\<rparr>, fs(out \<mapsto> f)))" by blast
  show ?thesis
    using m merged_build [OF assms(2-4,7) inputs_hold_fits [OF assms(5)] m(1)]
    by (intro exI [of _ m]) (cases "m = []"; auto)
qed

abbreviation older_entries :: entries where
  "older_entries \<equiv>
     [([1], \<lparr>entry_value = [7], entry_sequence = 1, entry_operation = PUT\<rparr>),
      ([2], \<lparr>entry_value = [8], entry_sequence = 2, entry_operation = PUT\<rparr>)]"

abbreviation newer_entries :: entries where
  "newer_entries \<equiv>
     [([1], \<lparr>entry_value = [], entry_sequence = 3, entry_operation = DELETE\<rparr>),
      ([3], \<lparr>entry_value = [9], entry_sequence = 4, entry_operation = PUT\<rparr>)]"

lemma small_table:
  assumes "list_all entry_fits es" and "ascending es" and "es \<noteq> []" and "length es < 100"
    and "length (records_bytes es) < 2 ^ 32"
  shows "\<exists>f. sstable_build sum_crc 40 10 es = Inr f \<and> table_holds sum_crc f es"
proof -
  have small: "unat (40 :: u64) < 2 ^ 32" "unat (10 :: u64) * length es + 7 < 2 ^ 32" using assms(4) by simp_all
  obtain f blocks where b: "sstable_build sum_crc 40 10 es = Inr (table_image sum_crc f blocks)"
    "concat blocks = es" "list_all block_ok blocks" "length (filter_bits f) < 2 ^ 32"
    using sstable_build_cases [OF running_crc_sum_crc small(1) assms(1) small(2)] assms(2,3)
    by (auto split: if_splits)
  have "length (table_image sum_crc f blocks) < 2 ^ 63"
    using length_table_image [OF b(3), of sum_crc f] b(4) assms(4,5) unfolding b(2) by simp
  then show ?thesis
    using sstable_build_holds [OF running_crc_sum_crc small(1) assms(1) small(2) b(1)] b(1) by blast
qed

abbreviation two_tables :: "bytes \<Rightarrow> bytes \<Rightarrow> file_system" where
  "two_tables f g \<equiv> [[97] \<mapsto> f, [98] \<mapsto> g]"

lemma two_tables_hold:
  "\<exists>f g. list_all2 (input_holds sum_crc (two_tables f g)) [[97], [98]] [older_entries, newer_entries]"
proof -
  obtain f where "table_holds sum_crc f older_entries"
    using small_table [of older_entries] by (auto simp: entry_fits_def)
  moreover obtain g where "table_holds sum_crc g newer_entries"
    using small_table [of newer_entries] by (auto simp: entry_fits_def)
  ultimately show ?thesis by (intro exI [of _ f] exI [of _ g]) (simp add: input_holds_def)
qed

lemma output_beside_inputs: "\<forall>p\<in>set [[97], [98 :: byte]]. \<not> path_eq p [99]"
  by (simp add: path_eq_def path_elements_def slash_def)

lemma versions_distinct_two: "versions_distinct (versions_of [older_entries, newer_entries] k)"
  by (auto simp: versions_distinct_def)

theorem compact_correct_witness:
  "\<exists>f g h m. merged [older_entries, newer_entries] True m \<and> m \<noteq> []
     \<and> compact list_heap sum_crc (two_tables f g) [[97], [98]] [99] 40 10 True
       = Some (Inr (\<lparr>result_input_files = [[97], [98]], result_output_files = [[99]]\<rparr>, (two_tables f g)([99] \<mapsto> h)))"
proof -
  obtain f g where fs: "list_all2 (input_holds sum_crc (two_tables f g)) [[97], [98]] [older_entries, newer_entries]"
    using two_tables_hold by blast
  have small: "unat (40 :: u64) < 2 ^ 32" "(10 :: u64) \<noteq> 0"
    "unat (10 :: u64) * sum_list (map length [older_entries, newer_entries]) + 7 < 2 ^ 32" by simp_all
  obtain m where m: "merged [older_entries, newer_entries] True m"
    "if m = [] then compact list_heap sum_crc (two_tables f g) [[97], [98]] [99] 40 10 True
       = Some (Inr (\<lparr>result_input_files = [[97], [98]], result_output_files = []\<rparr>, two_tables f g))
     else \<exists>h. compact list_heap sum_crc (two_tables f g) [[97], [98]] [99] 40 10 True
       = Some (Inr (\<lparr>result_input_files = [[97], [98]], result_output_files = [[99]]\<rparr>, (two_tables f g)([99] \<mapsto> h)))
       \<and> (length h < 2 ^ 63 \<longrightarrow> table_holds sum_crc h m)"
    using compact_correct [OF lh.min_heap_axioms running_crc_sum_crc small(1,2) fs _ small(3) _ output_beside_inputs, of True]
    by auto
  have "map_of m [2] \<noteq> None" using merged_lookup [OF m(1) versions_distinct_two, of "[2]"] by simp
  then have "m \<noteq> []" by auto
  with m show ?thesis by auto
qed

text \<open>C29: What readers see through the tables is what a compaction keeps. Looking up any key in
  the output table gives the version that \<open>considerNewer\<close> would have chosen among the lookups in
  all inputs, or nothing when that version is a tombstone that may be dropped.\<close>

theorem compact_keeps_newest_lookup:
  assumes "min_heap ops invar items" and "running_crc crc" and "unat bsz < 2 ^ 32"
    and "list_all2 (input_holds crc fs) inputs ess"
    and "unat bits * sum_list (map length ess) + 7 < 2 ^ 32"
    and "compact ops crc fs inputs out bsz bits d = Some (Inr (res, fs'))"
    and "result_output_files res = [out]" and "fs' out = Some f" and "length f < 2 ^ 63"
    and "versions_distinct (versions_of ess k)"
  shows "table_lookup crc f k = Inr (surviving d (newest (versions_of ess k)))"
proof -
  have "inputs \<noteq> []" "fs out = None" "\<forall>p\<in>set inputs. \<not> path_eq p out"
    using assms(6) by (auto simp: compact_def split: if_splits)
  then obtain m where m: "merged ess d m" "compact ops crc fs inputs out bsz bits d = Some
    (if m = [] then Inr (\<lparr>result_input_files = inputs, result_output_files = []\<rparr>, fs)
     else case sstable_build crc bsz bits m of
       Inl e \<Rightarrow> Inl e
     | Inr f \<Rightarrow> Inr (\<lparr>result_input_files = inputs, result_output_files = [out]\<rparr>, fs(out \<mapsto> f)))"
    using min_heap.compact_ends [OF assms(1-4), of out d bits] by blast
  then have f: "m \<noteq> []" "sstable_build crc bsz bits m = Inr f"
    using assms(6-8) by (auto split: if_splits sum.splits)
  have "bits \<noteq> 0"
    using sstable_build_cases [OF assms(2,3) merged_fits(1) [OF m(1) inputs_hold_fits [OF assms(4)]], of 0] f m(1)
    by (auto simp: merged_def)
  then have "table_holds crc f m"
    using merged_build [OF assms(2,3) _ assms(5) inputs_hold_fits [OF assms(4)] m(1) f(1)] f(2) assms(9) by auto
  then show ?thesis using sst.lookup_content merged_lookup [OF m(1) assms(10)] by simp
qed

theorem compact_keeps_newest_lookup_witness:
  "\<exists>f g res fs' out. compact list_heap sum_crc (two_tables f g) [[97], [98]] [99] 40 10 True = Some (Inr (res, fs'))
     \<and> fs' [99] = Some out
     \<and> (length out < 2 ^ 63 \<longrightarrow> table_lookup sum_crc out [1] = Inr None
         \<and> table_lookup sum_crc out [2] = Inr (Some \<lparr>entry_value = [8], entry_sequence = 2, entry_operation = PUT\<rparr>))"
proof -
  obtain f g where fs: "list_all2 (input_holds sum_crc (two_tables f g)) [[97], [98]] [older_entries, newer_entries]"
    using two_tables_hold by blast
  have small: "unat (40 :: u64) < 2 ^ 32"
    "unat (10 :: u64) * sum_list (map length [older_entries, newer_entries]) + 7 < 2 ^ 32" by simp_all
  have fits: "\<forall>es\<in>set [older_entries, newer_entries]. ascending es \<and> list_all entry_fits es"
    by (rule inputs_hold_fits [OF fs])
  obtain m where m: "merged [older_entries, newer_entries] True m"
    "compact list_heap sum_crc (two_tables f g) [[97], [98]] [99] 40 10 True = Some
    (if m = [] then Inr (\<lparr>result_input_files = [[97], [98]], result_output_files = []\<rparr>, two_tables f g)
     else case sstable_build sum_crc 40 10 m of
       Inl e \<Rightarrow> Inl e
     | Inr out \<Rightarrow> Inr (\<lparr>result_input_files = [[97], [98]], result_output_files = [[99]]\<rparr>, (two_tables f g)([99] \<mapsto> out)))"
    using lh.compact_ends [OF running_crc_sum_crc small(1) fs _ _ output_beside_inputs, of True 10] by auto
  have "map_of m [2] \<noteq> None" using merged_lookup [OF m(1) versions_distinct_two, of "[2]"] by simp
  then have ne: "m \<noteq> []" by auto
  obtain out where out: "sstable_build sum_crc 40 10 m = Inr out"
    using merged_build [OF running_crc_sum_crc small(1) _ small(2) fits m(1) ne] by auto
  have run: "compact list_heap sum_crc (two_tables f g) [[97], [98]] [99] 40 10 True =
    Some (Inr (\<lparr>result_input_files = [[97], [98]], result_output_files = [[99]]\<rparr>, (two_tables f g)([99] \<mapsto> out)))"
    using m(2) ne out by simp
  show ?thesis
    using compact_keeps_newest_lookup [OF lh.min_heap_axioms running_crc_sum_crc small(1) fs small(2) run _ _ _ versions_distinct_two]
      run by (intro exI [of _ f] exI [of _ g]) simp
qed

text \<open>A second queue, which returns the last of several smallest items.\<close>

definition last_heap :: "heap_item list heap_ops" where
  "last_heap = \<lparr>hp_empty = [], hp_is_empty = (\<lambda>h. h = []), hp_push = (#), hp_top = (\<lambda>h. list_top (rev h)),
     hp_pop = (\<lambda>h. remove1 (list_top (rev h)) h)\<rparr>"

interpretation last: min_heap last_heap "\<lambda>_. True" mset
  using list_top_least [of "rev h" for h] list_top_le [of _ "rev h" for h]
  by unfold_locales (simp_all add: last_heap_def)

text \<open>C31: The order in which the queue returns equal keys does not matter. When no two versions
  of a key share a sequence number, any two queues that keep the laws give the same result and
  the same file system.\<close>

theorem compact_queue_independent:
  assumes "min_heap ops invar items" and "min_heap ops' invar' items'"
    and "running_crc crc" and "unat bsz < 2 ^ 32" and "list_all2 (input_holds crc fs) inputs ess"
    and "\<And>k. versions_distinct (versions_of ess k)"
  shows "compact ops crc fs inputs out bsz bits d = compact ops' crc fs inputs out bsz bits d"
proof (cases "inputs \<noteq> [] \<and> fs out = None \<and> (\<forall>p\<in>set inputs. \<not> path_eq p out)")
  case True
  then obtain m m' where "merged ess d m" "merged ess d m'"
    "m = m' \<longrightarrow> compact ops crc fs inputs out bsz bits d = compact ops' crc fs inputs out bsz bits d"
    using min_heap.compact_ends [OF assms(1,3-5), of out d bits]
      min_heap.compact_ends [OF assms(2,3-5), of out d bits] by (elim conjE) (metis (no_types, lifting))
  then show ?thesis using merged_unique assms(6) by blast
qed (auto simp: compact_def)

theorem compact_queue_independent_witness:
  "\<exists>f g. compact list_heap sum_crc (two_tables f g) [[97], [98]] [99] 40 10 False
     = compact last_heap sum_crc (two_tables f g) [[97], [98]] [99] 40 10 False"
proof -
  obtain f g where fs: "list_all2 (input_holds sum_crc (two_tables f g)) [[97], [98]] [older_entries, newer_entries]"
    using two_tables_hold by blast
  have "unat (40 :: u64) < 2 ^ 32" by simp
  then show ?thesis
    using compact_queue_independent [OF lh.min_heap_axioms last.min_heap_axioms running_crc_sum_crc _ fs versions_distinct_two]
    by blast
qed

text \<open>A compaction returns on every file system: whatever the input files contain, damaged or
  not, and whatever queue keeps the laws, the loops end, with a result or with an exception.\<close>

theorem compact_terminates:
  assumes "min_heap ops invar items"
  shows "\<exists>res. compact ops crc fs inputs out bsz bits d = Some res"
  using min_heap.compact_total [OF assms] by blast

theorem compact_terminates_witness:
  "\<exists>res. compact list_heap sum_crc (\<lambda>p. if p = [99] then None else Some [1, 2, 3]) [[97], [98]] [99] 40 10 True = Some res"
  by (rule compact_terminates [OF lh.min_heap_axioms])

lemma open_inputs_fails:
  "\<exists>p\<in>set ps. \<exists>e. open_cursor crc fs p = Inl e \<Longrightarrow> \<exists>e. open_inputs ops crc fs ps st = Inl e"
proof (induction ps arbitrary: st)
  case (Cons p ps)
  show ?case
  proof (cases "open_cursor crc fs p")
    case (Inr c)
    obtain r it where c: "c = (r, it)" by (cases c)
    have rest: "\<exists>e. open_inputs ops crc fs ps st = Inl e" for st using Cons Inr by auto
    show ?thesis
    proof (cases "it_valid it")
      case True
      then show ?thesis using Inr c rest by (cases "iterator_key it") (simp_all add: Let_def)
    qed (use Inr c rest in \<open>simp add: Let_def\<close>)
  qed simp
qed simp

text \<open>A compaction that cannot be carried out is refused before anything is written: without
  inputs, over an existing file, onto one of its inputs, or when an input is missing or does not
  open, the result is an exception, for every queue.\<close>

theorem compact_refuses:
  assumes "inputs = [] \<or> fs out \<noteq> None \<or> (\<exists>p\<in>set inputs. path_eq p out)
    \<or> (\<exists>p\<in>set inputs. \<exists>e. open_cursor crc fs p = Inl e)"
  shows "\<exists>e. compact ops crc fs inputs out bsz bits d = Some (Inl e)"
proof -
  let ?st = "\<lparr>ms_cursors = [], ms_heap = hp_empty ops, ms_builder = None\<rparr>"
  show ?thesis
  proof (cases "\<exists>p\<in>set inputs. \<exists>e. open_cursor crc fs p = Inl e")
    case True
    then obtain e where "open_inputs ops crc fs inputs ?st = Inl e" using open_inputs_fails by blast
    then show ?thesis by (auto simp: compact_def)
  qed (use assms in \<open>auto simp: compact_def\<close>)
qed

theorem compact_refuses_witness:
  "\<exists>e. compact list_heap sum_crc (\<lambda>p. if p = [97] then Some [1] else None) [[97], [98]] [99] 40 10 True = Some (Inl e)"
  by (rule compact_refuses) (simp add: open_cursor_def)

end
