(* ===== verification/Manifest.thy ===== *)
theory Manifest
  imports Kronos_Types
begin

text \<open>
  src/src/manifest.cpp: the text file that names the live tables and the recovery checkpoint. The
  stream operators are those of the C++ library in the "C" locale: \<open>operator<<\<close> writes a
  number in decimal, \<open>operator>>\<close> skips white space and reads a word or a number, and
  \<open>std::quoted\<close> writes a string between double quotes with a backslash before each quote and
  backslash. An input stream is the rest of the file; its end-of-file flag is recorded only where
  the code asks for it. A file system maps a path to the content of the file there.
\<close>

section \<open>Printing\<close>

definition manifest_magic :: bytes where
  "manifest_magic = map of_char ''KRONOS_MANIFEST_V2''"

definition newline :: byte where "newline = 0x0A"
definition space_char :: byte where "space_char = 0x20"
definition quote_char :: byte where "quote_char = 0x22"
definition escape_char :: byte where "escape_char = 0x5C"

fun decimal :: "nat \<Rightarrow> bytes" where
  "decimal n = (if n < 10 then [of_nat (48 + n)] else decimal (n div 10) @ [of_nat (48 + n mod 10)])"

declare decimal.simps [simp del]

fun escaped :: "bytes \<Rightarrow> bytes" where
  "escaped [] = []"
| "escaped (c # s) =
     (if c = quote_char \<or> c = escape_char then escape_char # c # escaped s else c # escaped s)"

definition quoted :: "bytes \<Rightarrow> bytes" where
  "quoted s = [quote_char] @ escaped s @ [quote_char]"

definition validate_metadata :: "sstable_metadata \<Rightarrow> kerror + unit" where
  "validate_metadata m =
     (if md_path m = [] then Inl Manifest_Empty_Path
      else if md_largest m < md_smallest m then Inl Manifest_Invalid_Range
      else Inr ())"

definition metadata_line :: "sstable_metadata \<Rightarrow> bytes" where
  "metadata_line m =
     decimal (unat (md_level m)) @ [space_char] @ quoted (md_path m) @ [space_char]
     @ quoted (md_smallest m) @ [space_char] @ quoted (md_largest m) @ [newline]"

definition checkpoint_line :: "u64 option \<Rightarrow> bytes" where
  "checkpoint_line checkpoint =
     map of_char ''CHECKPOINT '' @
     (case checkpoint of Some c \<Rightarrow> decimal (unat c) | None \<Rightarrow> map of_char ''NONE'') @ [newline]"

text \<open>The loop validates each file again before writing it; the text written so far and the
  exception, if one ended the loop.\<close>

fun metadata_lines :: "sstable_metadata list \<Rightarrow> bytes \<times> kerror option" where
  "metadata_lines [] = ([], None)"
| "metadata_lines (m # ms) =
     (case validate_metadata m of
        Inl e \<Rightarrow> ([], Some e)
      | Inr _ \<Rightarrow> (let (ls, err) = metadata_lines ms in (metadata_line m @ ls, err)))"

definition manifest_text :: "sstable_metadata list \<Rightarrow> u64 option \<Rightarrow> bytes \<times> kerror option" where
  "manifest_text files checkpoint =
     (let (ls, err) = metadata_lines files
      in (manifest_magic @ [newline] @ checkpoint_line checkpoint @ ls, err))"

section \<open>Reading\<close>

definition is_space :: "byte \<Rightarrow> bool" where
  "is_space c \<longleftrightarrow> c = 0x20 \<or> 0x09 \<le> c \<and> c \<le> 0x0D"

definition is_digit :: "byte \<Rightarrow> bool" where
  "is_digit c \<longleftrightarrow> 0x30 \<le> c \<and> c \<le> 0x39"

definition digits_value :: "bytes \<Rightarrow> nat" where
  "digits_value ds = fold (\<lambda>d n. 10 * n + unat (d - 0x30)) ds 0"

text \<open>\<open>std::getline\<close>: the line without its newline, and what follows.\<close>

definition get_line :: "bytes \<Rightarrow> bytes \<times> bytes" where
  "get_line s = (takeWhile (\<lambda>c. c \<noteq> newline) s, drop 1 (dropWhile (\<lambda>c. c \<noteq> newline) s))"

text \<open>\<open>input >> word\<close>: nothing left after white space is a failure.\<close>

definition get_word :: "'e \<Rightarrow> bytes \<Rightarrow> 'e + (bytes \<times> bytes)" where
  "get_word e s =
     (let t = dropWhile is_space s
      in if t = [] then Inl e
         else Inr (takeWhile (\<lambda>c. \<not> is_space c) t, dropWhile (\<lambda>c. \<not> is_space c) t))"

text \<open>\<open>std::from_chars\<close> over the whole checkpoint word.\<close>

definition parse_checkpoint :: "bytes \<Rightarrow> kerror + u64" where
  "parse_checkpoint v =
     (let ds = takeWhile is_digit v; n = digits_value ds
      in if ds \<noteq> [] \<and> 2 ^ 64 \<le> n then Inl Manifest_Checkpoint_Range
         else if ds = [] \<or> dropWhile is_digit v \<noteq> [] then Inl Manifest_Checkpoint_Value
         else Inr (of_nat n))"

text \<open>\<open>input >> level\<close> for a \<open>size_t\<close>: an optional sign, which negates modulo \<open>2 ^ 64\<close>, and
  digits. A failure keeps whether the end of the file was reached on the way.\<close>

datatype level_parse = Level_Fail bool | Level_Ok u64 bytes

definition get_level :: "bytes \<Rightarrow> level_parse" where
  "get_level s =
     (let t = dropWhile is_space s
      in if t = [] then Level_Fail True
         else
           let neg = (hd t = 0x2D);
               u = (if hd t = 0x2D \<or> hd t = 0x2B then tl t else t);
               ds = takeWhile is_digit u; rest = dropWhile is_digit u; n = digits_value ds
           in if ds = [] \<or> 2 ^ 64 \<le> n then Level_Fail (rest = [])
              else Level_Ok (if neg then - of_nat n else of_nat n) rest)"

text \<open>\<open>input >> std::quoted(s)\<close>: between quotes a backslash takes the next character as it is;
  without an opening quote a plain word is read.\<close>

fun get_escaped :: "'e \<Rightarrow> bytes \<Rightarrow> 'e + (bytes \<times> bytes)" where
  "get_escaped e [] = Inl e"
| "get_escaped e (c # s) =
     (if c = escape_char then
        (case s of
           [] \<Rightarrow> Inl e
         | d # s' \<Rightarrow> bind_res (get_escaped e s') (\<lambda>(w, r). Inr (d # w, r)))
      else if c = quote_char then Inr ([], s)
      else bind_res (get_escaped e s) (\<lambda>(w, r). Inr (c # w, r)))"

definition get_quoted :: "'e \<Rightarrow> bytes \<Rightarrow> 'e + (bytes \<times> bytes)" where
  "get_quoted e s =
     (let t = dropWhile is_space s
      in if t = [] then Inl e
         else if hd t = quote_char then get_escaped e (tl t)
         else get_word e t)"

definition get_record_fields :: "bytes \<Rightarrow> kerror + ((path \<times> bytes \<times> bytes) \<times> bytes)" where
  "get_record_fields s =
     bind_res (get_quoted Manifest_Malformed_Record s) (\<lambda>(path_string, s1).
     bind_res (get_quoted Manifest_Malformed_Record s1) (\<lambda>(smallest_key, s2).
     bind_res (get_quoted Manifest_Malformed_Record s2) (\<lambda>(largest_key, s3).
     Inr ((path_string, smallest_key, largest_key), s3))))"

lemma length_dropWhile_le_minus: "length (dropWhile P s) \<le> length s"
  by (induction s) auto

lemma get_escaped_shorter: "get_escaped e s = Inr (w, r) \<Longrightarrow> length r \<le> length s"
proof (induction e s arbitrary: w r rule: get_escaped.induct)
  case (2 e c s)
  then show ?case by (fastforce split: if_splits list.splits)
qed simp

lemma get_quoted_shorter: "get_quoted e s = Inr (w, r) \<Longrightarrow> length r \<le> length s"
proof -
  assume a: "get_quoted e s = Inr (w, r)"
  let ?t = "dropWhile is_space s"
  have t: "length ?t \<le> length s" by (rule length_dropWhile_le_minus)
  have "length r \<le> length ?t"
  proof (cases "hd ?t = quote_char")
    case True
    then have "length r \<le> length (tl ?t)"
      using a get_escaped_shorter [of e "tl ?t" w r] by (simp add: get_quoted_def Let_def split: if_splits)
    then show ?thesis by simp
  next
    case False
    let ?u = "dropWhile is_space ?t"
    have "r = dropWhile (\<lambda>c. \<not> is_space c) ?u"
      using a False by (auto simp: get_quoted_def get_word_def Let_def split: if_splits)
    then have "length r \<le> length ?u" by (simp add: length_dropWhile_le_minus)
    then show ?thesis using length_dropWhile_le_minus [of is_space ?t] by linarith
  qed
  then show ?thesis using t by linarith
qed

lemma get_record_fields_shorter:
  "get_record_fields s = Inr (m, r) \<Longrightarrow> length r \<le> length s"
  by (fastforce simp: get_record_fields_def dest!: get_quoted_shorter)

lemma get_level_shorter: "get_level s = Level_Ok l r \<Longrightarrow> length r < length s"
proof -
  assume a: "get_level s = Level_Ok l r"
  let ?t = "dropWhile is_space s"
  let ?u = "if hd ?t = 0x2D \<or> hd ?t = 0x2B then tl ?t else ?t"
  have "takeWhile is_digit ?u \<noteq> []" "r = dropWhile is_digit ?u"
    using a by (auto simp: get_level_def Let_def split: if_splits)
  then have "length r < length ?u"
    by (metis length_append length_greater_0_conv less_add_same_cancel2 takeWhile_dropWhile_id)
  then show ?thesis using length_dropWhile_le_minus [of is_space s] by (auto split: if_splits)
qed

text \<open>The loop over the records.\<close>

function load_records :: "bytes \<Rightarrow> sstable_metadata list \<Rightarrow> kerror + sstable_metadata list" where
  "load_records s loaded =
     (case get_level s of
        Level_Fail at_eof \<Rightarrow> if at_eof then Inr loaded else Inl Manifest_Malformed
      | Level_Ok level s1 \<Rightarrow>
          (case get_record_fields s1 of
             Inl e \<Rightarrow> Inl e
           | Inr ((path_string, smallest_key, largest_key), s2) \<Rightarrow>
               let m = Sstable_Metadata path_string level smallest_key largest_key
               in bind_res (validate_metadata m) (\<lambda>_.
                  if \<exists>x\<in>set loaded. path_eq (md_path x) (md_path m) then Inl Manifest_Duplicate
                  else load_records s2 (loaded @ [m]))))"
  by pat_completeness auto
termination
  by (relation "measure (\<lambda>(s, loaded). length s)")
    (auto dest!: get_level_shorter get_record_fields_shorter)

declare load_records.simps [simp del]

definition parse_manifest :: "bytes \<Rightarrow> kerror + (sstable_metadata list \<times> u64 option)" where
  "parse_manifest f =
     (let (magic, s) = get_line f
      in if magic \<noteq> manifest_magic then Inl Manifest_Invalid_Header
         else
           bind_res (get_word Manifest_Missing_Checkpoint s) (\<lambda>(checkpoint_label, s1).
           bind_res (get_word Manifest_Missing_Checkpoint s1) (\<lambda>(checkpoint_value, s2).
           if checkpoint_label \<noteq> map of_char ''CHECKPOINT'' then Inl Manifest_Checkpoint_Header
           else
             bind_res (if checkpoint_value = map of_char ''NONE'' then Inr None
                       else bind_res (parse_checkpoint checkpoint_value) (\<lambda>c. Inr (Some c))) (\<lambda>checkpoint.
             bind_res (load_records s2 []) (\<lambda>loaded. Inr (sort loaded, checkpoint))))))"

section \<open>The manifest\<close>

record manifest =
  manifest_path :: path
  live_files :: "sstable_metadata list"
  persisted_through :: "u64 option"

definition temporary_path :: "path \<Rightarrow> path" where
  "temporary_path p = p @ map of_char ''.tmp''"

definition manifest_load :: "(path \<Rightarrow> bytes option) \<Rightarrow> manifest \<Rightarrow> kerror + manifest" where
  "manifest_load fs m =
     (case fs (manifest_path m) of
        None \<Rightarrow> Inr (m\<lparr>live_files := [], persisted_through := None\<rparr>)
      | Some f \<Rightarrow>
          bind_res (parse_manifest f) (\<lambda>(loaded, checkpoint).
          Inr (m\<lparr>live_files := loaded, persisted_through := checkpoint\<rparr>)))"

definition manifest_new :: "(path \<Rightarrow> bytes option) \<Rightarrow> path \<Rightarrow> (kerror + manifest) \<times> (path \<Rightarrow> bytes option)" where
  "manifest_new fs p =
     (let fs1 = fs(temporary_path p := None)
      in (manifest_load fs1 \<lparr>manifest_path = p, live_files = [], persisted_through = None\<rparr>, fs1))"

definition files_at_level :: "manifest \<Rightarrow> u64 \<Rightarrow> sstable_metadata list" where
  "files_at_level m level = filter (\<lambda>f. md_level f = level) (live_files m)"

definition manifest_contains :: "manifest \<Rightarrow> path \<Rightarrow> bool" where
  "manifest_contains m p \<longleftrightarrow> (\<exists>f\<in>set (live_files m). path_eq (md_path f) p)"

text \<open>
  How writing the snapshot can end: all system calls succeed; the temporary file cannot be created,
  written, closed or synchronised, and is left with some content or none; the rename fails, and
  the temporary file is removed; or the rename succeeds and the directory cannot be synchronised.
  When validation throws half way, the destructor of the stream leaves the text written so far.
\<close>

datatype snapshot_io = Snapshot_Ok | Temp_Fails "bytes option" | Rename_Fails | Directory_Sync_Fails

definition persist_snapshot ::
  "snapshot_io \<Rightarrow> path \<Rightarrow> sstable_metadata list \<Rightarrow> u64 option \<Rightarrow> (path \<Rightarrow> bytes option)
   \<Rightarrow> (kerror + unit) \<times> (path \<Rightarrow> bytes option)" where
  "persist_snapshot io p files checkpoint fs =
     (case manifest_text files checkpoint of
        (t, Some e) \<Rightarrow> (Inl e, fs(temporary_path p \<mapsto> t))
      | (t, None) \<Rightarrow>
          (case io of
             Temp_Fails left \<Rightarrow> (Inl Manifest_Temp_Failed, fs(temporary_path p := left))
           | Rename_Fails \<Rightarrow> (Inl Manifest_Commit_Failed, fs(temporary_path p := None))
           | Directory_Sync_Fails \<Rightarrow>
               (Inl Manifest_Sync_Failed, fs(temporary_path p := None, p \<mapsto> t))
           | Snapshot_Ok \<Rightarrow> (Inr (), fs(temporary_path p := None, p \<mapsto> t))))"

section \<open>Edits\<close>

fun remove_all :: "path list \<Rightarrow> sstable_metadata list \<Rightarrow> kerror + sstable_metadata list" where
  "remove_all [] files = Inr files"
| "remove_all (p # ps) files =
     (let next = filter (\<lambda>m. \<not> path_eq (md_path m) p) files
      in if length next = length files then Inl Manifest_Unknown_Remove
         else remove_all ps next)"

fun add_all :: "sstable_metadata list \<Rightarrow> sstable_metadata list \<Rightarrow> kerror + sstable_metadata list" where
  "add_all [] files = Inr files"
| "add_all (m # ms) files =
     bind_res (validate_metadata m) (\<lambda>_.
     if \<exists>x\<in>set files. path_eq (md_path x) (md_path m) then Inl Manifest_Duplicate_Add
     else add_all ms (files @ [m]))"

definition next_checkpoint :: "u64 option \<Rightarrow> u64 option \<Rightarrow> kerror + u64 option" where
  "next_checkpoint new old =
     (case new of
        None \<Rightarrow> Inr old
      | Some n \<Rightarrow>
          (case old of
             None \<Rightarrow> Inr new
           | Some c \<Rightarrow> if n < c then Inl Manifest_Checkpoint_Backwards else Inr new))"

definition next_state :: "manifest_edit \<Rightarrow> manifest \<Rightarrow> kerror + (sstable_metadata list \<times> u64 option)" where
  "next_state edit m =
     bind_res (remove_all (remove_files edit) (live_files m)) (\<lambda>kept.
     bind_res (add_all (add_files edit) kept) (\<lambda>files.
     bind_res (next_checkpoint (edit_persisted_through edit) (persisted_through m)) (\<lambda>checkpoint.
     Inr (sort files, checkpoint))))"

definition apply_edit ::
  "snapshot_io \<Rightarrow> manifest_edit \<Rightarrow> manifest \<Rightarrow> (path \<Rightarrow> bytes option)
   \<Rightarrow> (kerror + manifest) \<times> (path \<Rightarrow> bytes option)" where
  "apply_edit io edit m fs =
     (case next_state edit m of
        Inl e \<Rightarrow> (Inl e, fs)
      | Inr (files, checkpoint) \<Rightarrow>
          (case persist_snapshot io (manifest_path m) files checkpoint fs of
             (Inl e, fs') \<Rightarrow> (Inl e, fs')
           | (Inr _, fs') \<Rightarrow> (Inr (m\<lparr>live_files := files, persisted_through := checkpoint\<rparr>), fs')))"

end
