(* ===== verification/Manifest_Format.thy ===== *)
theory Manifest_Format
  imports Manifest "HOL-Library.Multiset"
begin

text \<open>
  The text format of the manifest: what is printed is read back, for every path and key, whatever
  bytes they contain.
\<close>

section \<open>Decimal numbers\<close>

lemma is_digit_of_nat: "k < 10 \<Longrightarrow> is_digit (of_nat (48 + k))"
proof -
  assume "k < 10"
  then have "unat (of_nat (48 + k) :: byte) = 48 + k" by (simp only: unat_of_nat) simp
  then show ?thesis using \<open>k < 10\<close> by (simp only: is_digit_def word_le_nat_alt) simp
qed

lemma unat_digit: "k < 10 \<Longrightarrow> unat (of_nat (48 + k) - 0x30 :: byte) = k"
proof -
  assume k: "k < 10"
  have "(of_nat (48 + k) - 0x30 :: byte) = of_nat k" by simp
  then show ?thesis using k by (simp add: unat_of_nat)
qed

lemma decimal_digits: "list_all is_digit (decimal n) \<and> decimal n \<noteq> []"
proof (induction n rule: decimal.induct)
  case (1 n)
  have "is_digit (of_nat (48 + n mod 10))" by (rule is_digit_of_nat) simp
  moreover have "n < 10 \<Longrightarrow> is_digit (of_nat (48 + n))" by (rule is_digit_of_nat)
  ultimately show ?case using 1 by (simp add: decimal.simps [of n])
qed

lemma digits_value_snoc: "digits_value (ds @ [d]) = 10 * digits_value ds + unat (d - 0x30)"
  by (simp add: digits_value_def)

lemma digits_value_decimal [simp]: "digits_value (decimal n) = n"
proof (induction n rule: decimal.induct)
  case (1 n)
  show ?case
  proof (cases "n < 10")
    case True
    then show ?thesis using unat_digit [OF True] digits_value_snoc [of "[]"]
      by (simp add: decimal.simps [of n] digits_value_def)
  next
    case False
    then show ?thesis
      using 1 unat_digit [of "n mod 10"] by (simp add: decimal.simps [of n] digits_value_snoc)
  qed
qed

lemma is_digit_not_sign: "is_digit c \<Longrightarrow> c \<noteq> 0x2D \<and> c \<noteq> 0x2B \<and> \<not> is_space c"
proof -
  assume "is_digit c"
  then have "48 \<le> unat c" by (simp add: is_digit_def word_le_nat_alt)
  moreover have "unat c \<le> 32" if "is_space c \<or> c = 0x2B \<and> False"
    using that by (auto simp: is_space_def word_le_nat_alt)
  ultimately show ?thesis by auto
qed

lemma takeWhile_digits:
  assumes "list_all is_digit ds" and "r = [] \<or> \<not> is_digit (hd r)"
  shows "takeWhile is_digit (ds @ r) = ds" and "dropWhile is_digit (ds @ r) = r"
  using assms by (induction ds) (auto simp: takeWhile_eq_Nil_iff dropWhile_eq_self_iff)

lemma takeWhile_all_digits: "list_all is_digit ds \<Longrightarrow> takeWhile is_digit ds = ds \<and> dropWhile is_digit ds = []"
  by (induction ds) auto

lemma get_level_decimal:
  assumes "n < 2 ^ 64" and "\<not> is_digit (hd r)" and "list_all is_space ws"
  shows "get_level (ws @ decimal n @ r) = Level_Ok (of_nat n) r"
proof -
  note d = decimal_digits [of n]
  have h: "is_digit (hd (decimal n))" using d by (cases "decimal n") auto
  have "dropWhile is_space (ws @ decimal n @ r) = dropWhile is_space (decimal n @ r)"
    using assms(3) by (induction ws) auto
  also have "\<dots> = decimal n @ r"
    using d h is_digit_not_sign by (cases "decimal n") auto
  finally have t: "dropWhile is_space (ws @ decimal n @ r) = decimal n @ r" .
  have "hd (decimal n @ r) = hd (decimal n)" using d by simp
  then have sign: "hd (decimal n @ r) \<noteq> 0x2D" "hd (decimal n @ r) \<noteq> 0x2B"
    using is_digit_not_sign [OF h] by simp_all
  show ?thesis
    using takeWhile_digits [of "decimal n" r] d assms(1,2) sign
    by (simp add: get_level_def t)
qed

section \<open>Quoted strings\<close>

lemma get_escaped_escaped: "get_escaped e (escaped s @ quote_char # r) = Inr (s, r)"
proof (induction s)
  case Nil
  show ?case by (simp add: quote_char_def escape_char_def)
qed (auto simp: quote_char_def escape_char_def)

lemma quote_not_space: "\<not> is_space quote_char"
  by (simp add: is_space_def quote_char_def)

interpretation quoted_codec: codec "\<lambda>s. space_char # quoted s" "get_quoted e" "\<lambda>_. True"
proof unfold_locales
  fix x rest
  have "is_space space_char" by (simp add: is_space_def space_char_def)
  then have "dropWhile is_space ((space_char # quoted x) @ rest) = quote_char # escaped x @ quote_char # rest"
    by (simp add: quoted_def quote_not_space)
  then show "get_quoted e ((space_char # quoted x) @ rest) = Inr (x, rest)"
    by (simp add: get_quoted_def get_escaped_escaped)
qed

lemma get_record_fields_line:
  "get_record_fields ((space_char # quoted p) @ (space_char # quoted a) @ (space_char # quoted b) @ r)
     = Inr ((p, a, b), r)"
  by (simp only: get_record_fields_def quoted_codec.dec_enc [OF TrueI] bind_res.simps prod.case)

section \<open>Words\<close>

lemma get_word_word:
  assumes "list_all (\<lambda>c. \<not> is_space c) w" and "w \<noteq> []" and "is_space c" and "list_all is_space ws"
  shows "get_word e (ws @ w @ c # r) = Inr (w, c # r)"
proof -
  have "dropWhile is_space (ws @ w @ c # r) = dropWhile is_space (w @ c # r)"
    using assms(4) by (induction ws) auto
  also have "\<dots> = w @ c # r" using assms(1,2) by (cases w) auto
  finally have t: "dropWhile is_space (ws @ w @ c # r) = w @ c # r" .
  have "takeWhile (\<lambda>c. \<not> is_space c) (w @ c # r) = w" "dropWhile (\<lambda>c. \<not> is_space c) (w @ c # r) = c # r"
    using assms(1,3) by (induction w) auto
  then show ?thesis using assms(2) by (simp add: get_word_def t)
qed

lemma of_nat_unat_u64: "of_nat (unat (c :: u64)) = c"
  by simp

lemma parse_checkpoint_decimal: "parse_checkpoint (decimal (unat c)) = Inr c"
proof -
  have "takeWhile is_digit (decimal (unat c)) = decimal (unat c)" "dropWhile is_digit (decimal (unat c)) = []"
    using takeWhile_all_digits [OF conjunct1 [OF decimal_digits]] by blast+
  moreover have "\<not> 2 ^ 64 \<le> unat c" using unat_u64_bound [of c] by linarith
  ultimately show ?thesis
    using decimal_digits [of "unat c"]
    by (simp only: parse_checkpoint_def Let_def digits_value_decimal of_nat_unat_u64 not_False_eq_True simp_thms if_False)
qed

section \<open>Metadata that may be live together\<close>

definition path_key :: "path \<Rightarrow> bool \<times> bytes list" where
  "path_key p = (p \<noteq> [] \<and> hd p = slash, path_elements p)"

lemma path_eq_key: "path_eq p q \<longleftrightarrow> path_key p = path_key q"
  by (auto simp: path_eq_def path_key_def)

abbreviation md_key :: "sstable_metadata \<Rightarrow> bool \<times> bytes list" where
  "md_key m \<equiv> path_key (md_path m)"

definition files_ok :: "sstable_metadata list \<Rightarrow> bool" where
  "files_ok files \<longleftrightarrow> list_all (\<lambda>m. validate_metadata m = Inr ()) files \<and> distinct (map md_key files)"

lemma files_ok_mset: "mset xs = mset ys \<Longrightarrow> files_ok xs \<longleftrightarrow> files_ok ys"
proof -
  assume m: "mset xs = mset ys"
  then have s: "set xs = set ys" "mset (map md_key xs) = mset (map md_key ys)"
    by (auto dest: mset_eq_setD)
  show ?thesis using mset_eq_imp_distinct_iff [OF s(2)] s(1) by (simp add: files_ok_def list_all_iff)
qed

lemma files_ok_sort [simp]: "files_ok (sort xs) \<longleftrightarrow> files_ok xs"
  by (rule files_ok_mset) simp

lemma files_ok_Nil [simp]: "files_ok []"
  by (simp add: files_ok_def)

lemma files_ok_snoc:
  "files_ok (files @ [m]) \<longleftrightarrow>
   files_ok files \<and> validate_metadata m = Inr () \<and> \<not> (\<exists>x\<in>set files. path_eq (md_path x) (md_path m))"
proof -
  have "md_key m \<in> md_key ` set files \<longleftrightarrow> (\<exists>x\<in>set files. path_eq (md_path x) (md_path m))"
    unfolding path_eq_key by (metis image_iff)
  then show ?thesis by (auto simp: files_ok_def)
qed

lemma metadata_lines_ok:
  "list_all (\<lambda>m. validate_metadata m = Inr ()) ms \<Longrightarrow> metadata_lines ms = (concat (map metadata_line ms), None)"
  by (induction ms) auto

text \<open>Reading the records, with anything after them that \<open>operator>>\<close> does not take for a level.\<close>

lemma load_records_lines:
  assumes "get_level (newline # tail) = Level_Fail True"
  shows "files_ok (loaded @ ms) \<Longrightarrow>
    load_records (newline # concat (map metadata_line ms) @ tail) loaded = Inr (loaded @ ms)"
proof (induction ms arbitrary: loaded)
  case Nil
  then show ?case using assms by (simp add: load_records.simps [of _ loaded])
next
  case (Cons m ms)
  let ?rest = "newline # concat (map metadata_line ms) @ tail"
  let ?fields = "(space_char # quoted (md_path m)) @ (space_char # quoted (md_smallest m)) @ (space_char # quoted (md_largest m)) @ ?rest"
  have line: "newline # concat (map metadata_line (m # ms)) @ tail = [newline] @ decimal (unat (md_level m)) @ ?fields"
    by (simp add: metadata_line_def)
  have "\<not> is_digit (hd ?fields)" "list_all is_space [newline]"
    by (simp_all add: is_digit_def is_space_def space_char_def newline_def)
  then have lvl: "get_level (newline # concat (map metadata_line (m # ms)) @ tail) = Level_Ok (md_level m) ?fields"
    unfolding line using get_level_decimal [OF unat_u64_bound, of ?fields "[newline]" "md_level m"] by simp
  have "files_ok (loaded @ [m])" using Cons.prems by (simp add: files_ok_def)
  then have v: "validate_metadata m = Inr ()" and "\<forall>x\<in>set loaded. \<not> path_eq (md_path x) (md_path m)"
    by (simp_all add: files_ok_snoc)
  moreover note v
  moreover have "load_records ?rest (loaded @ [m]) = Inr (loaded @ m # ms)"
    using Cons.IH [of "loaded @ [m]"] Cons.prems by simp
  moreover have "get_record_fields ?fields = Inr ((md_path m, md_smallest m, md_largest m), ?rest)"
    by (rule get_record_fields_line)
  ultimately show ?case
    unfolding load_records.simps [of _ loaded] lvl level_parse.case by (simp add: Let_def)
qed

lemma manifest_text_parses:
  assumes "files_ok files" and "manifest_text files checkpoint = (t, err)"
    and "get_level (newline # tail) = Level_Fail True"
  shows "err = None" and "parse_manifest (t @ tail) = Inr (sort files, checkpoint)"
proof -
  have t: "t = manifest_magic @ [newline] @ checkpoint_line checkpoint @ concat (map metadata_line files)" "err = None"
    using assms(1,2) by (auto simp: manifest_text_def metadata_lines_ok files_ok_def)
  then show "err = None" by simp
  let ?s = "checkpoint_line checkpoint @ concat (map metadata_line files) @ tail"
  have m: "newline \<notin> set manifest_magic" by (simp add: manifest_magic_def newline_def)
  have line: "get_line (manifest_magic @ newline # ?s) = (manifest_magic, ?s)"
    using m by (simp add: get_line_def takeWhile_append takeWhile_eq_all_conv [THEN iffD2] dropWhile_append)
  let ?word = "case checkpoint of Some c \<Rightarrow> decimal (unat c) | None \<Rightarrow> map of_char ''NONE''"
  let ?r = "concat (map metadata_line files) @ tail"
  have val: "list_all (\<lambda>c. \<not> is_space c) ?word" "?word \<noteq> []"
    using decimal_digits is_digit_not_sign
    by (auto simp: list_all_iff is_space_def split: option.splits)
  have sp: "is_space space_char" "is_space newline" by (simp_all add: is_space_def space_char_def newline_def)
  let ?label = "map of_char ''CHECKPOINT'' :: bytes"
  have lab: "list_all (\<lambda>c. \<not> is_space c) ?label" "?label \<noteq> []" by (simp_all add: is_space_def)
  have s: "?s = [] @ ?label @ space_char # ?word @ newline # ?r"
    by (simp add: checkpoint_line_def space_char_def)
  have w1: "get_word Manifest_Missing_Checkpoint ?s = Inr (?label, space_char # ?word @ newline # ?r)"
    unfolding s by (rule get_word_word [OF lab sp(1)]) simp
  have w2: "get_word Manifest_Missing_Checkpoint ([space_char] @ ?word @ newline # ?r) = Inr (?word, newline # ?r)"
    by (rule get_word_word [OF val sp(2)]) (simp add: sp)
  have "decimal n \<noteq> map of_char ''NONE''" for n
    using decimal_digits [of n] by (auto simp: is_digit_def)
  then have cp: "(if ?word = map of_char ''NONE'' then Inr None
      else bind_res (parse_checkpoint ?word) (\<lambda>c. Inr (Some c))) = Inr checkpoint"
    by (cases checkpoint) (simp_all add: parse_checkpoint_decimal)
  have "load_records (newline # ?r) [] = Inr files"
    using load_records_lines [OF assms(3), of "[]" files] assms(1) by simp
  then show "parse_manifest (t @ tail) = Inr (sort files, checkpoint)"
    unfolding t using line w1 w2 cp by (simp add: parse_manifest_def)
qed

end
