(* ===== verification/Manifest_Properties.thy ===== *)
theory Manifest_Properties
  imports Manifest_Format
begin

text \<open>
  What the manifest promises: its state is well formed whatever the file contains, an edit does
  exactly what it says or nothing, the checkpoint never moves back, and whatever system call fails
  while a snapshot is written, a restart sees the old state or the new one.
\<close>

definition manifest_ok :: "manifest \<Rightarrow> bool" where
  "manifest_ok m \<longleftrightarrow> files_ok (live_files m) \<and> sorted (live_files m)"

section \<open>Loading\<close>

lemma load_records_ok: "load_records s loaded = Inr files \<Longrightarrow> files_ok loaded \<Longrightarrow> files_ok files"
proof (induction s loaded rule: load_records.induct)
  case (1 s loaded)
  note unfold = load_records.simps [of s loaded]
  show ?case
  proof (cases "get_level s")
    case (Level_Fail at_eof)
    then show ?thesis using "1.prems" by (simp add: unfold split: if_splits)
  next
    case (Level_Ok level s1)
    then obtain p a b s2 where f: "get_record_fields s1 = Inr ((p, a, b), s2)"
      using "1.prems" by (auto simp: unfold split: sum.splits)
    let ?m = "Sstable_Metadata p level a b"
    have v: "validate_metadata ?m = Inr ()" and new: "\<not> (\<exists>x\<in>set loaded. path_eq (md_path x) (md_path ?m))"
      and rest: "load_records s2 (loaded @ [?m]) = Inr files"
      using "1.prems" Level_Ok f by (auto simp: unfold Let_def split: if_splits)
    have "files_ok (loaded @ [?m])" using "1.prems"(2) v new by (simp add: files_ok_snoc)
    then show ?thesis using "1.IH" [OF Level_Ok f refl refl refl refl v new rest] by simp
  qed
qed

lemma parse_manifest_ok: "parse_manifest f = Inr (files, c) \<Longrightarrow> files_ok files \<and> sorted files"
  using load_records_ok [OF _ files_ok_Nil]
  by (auto simp: parse_manifest_def split: if_splits prod.splits)

lemma manifest_load_ok: "manifest_load fs m = Inr m' \<Longrightarrow> manifest_ok m'"
  by (auto simp: manifest_load_def manifest_ok_def files_ok_def dest: parse_manifest_ok split: option.splits)

lemma manifest_load_again:
  "manifest_load fs m = Inr m' \<Longrightarrow> fs' (manifest_path m) = fs (manifest_path m) \<Longrightarrow> manifest_load fs' m' = Inr m'"
  by (auto simp: manifest_load_def split: option.splits)

lemma temporary_path_other [simp]: "temporary_path p \<noteq> p" "p \<noteq> temporary_path p"
  by (auto simp: temporary_path_def dest: arg_cong [where f = length])

section \<open>Edits\<close>

definition edit_ok :: "manifest_edit \<Rightarrow> manifest \<Rightarrow> bool" where
  "edit_ok edit m \<longleftrightarrow>
     distinct (map path_key (remove_files edit))
     \<and> (\<forall>p\<in>set (remove_files edit). manifest_contains m p)
     \<and> files_ok (filter (\<lambda>f. \<forall>p\<in>set (remove_files edit). \<not> path_eq (md_path f) p) (live_files m) @ add_files edit)
     \<and> (\<forall>n c. edit_persisted_through edit = Some n \<and> persisted_through m = Some c \<longrightarrow> c \<le> n)"

definition edited :: "manifest_edit \<Rightarrow> manifest \<Rightarrow> manifest" where
  "edited edit m = m\<lparr>
     live_files := sort (filter (\<lambda>f. \<forall>p\<in>set (remove_files edit). \<not> path_eq (md_path f) p) (live_files m) @ add_files edit),
     persisted_through := (case edit_persisted_through edit of None \<Rightarrow> persisted_through m | Some n \<Rightarrow> Some n)\<rparr>"

lemma remove_all_spec:
  "remove_all ps files =
     (if distinct (map path_key ps) \<and> (\<forall>p\<in>set ps. \<exists>m\<in>set files. path_eq (md_path m) p)
      then Inr (filter (\<lambda>m. \<forall>p\<in>set ps. \<not> path_eq (md_path m) p) files)
      else Inl Manifest_Unknown_Remove)"
proof (induction ps arbitrary: files)
  case (Cons p ps)
  let ?next = "filter (\<lambda>m. \<not> path_eq (md_path m) p) files"
  have len: "length ?next = length files \<longleftrightarrow> (\<forall>m\<in>set files. \<not> path_eq (md_path m) p)"
    by (metis (no_types, lifting) filter_id_conv length_filter_less less_irrefl)
  have keep: "filter (\<lambda>m. \<forall>q\<in>set ps. \<not> path_eq (md_path m) q) ?next =
      filter (\<lambda>m. \<forall>q\<in>set (p # ps). \<not> path_eq (md_path m) q) files"
    by (simp add: conj_commute)
  have rest: "(\<forall>q\<in>set ps. \<exists>m\<in>set ?next. path_eq (md_path m) q) \<longleftrightarrow>
      path_key p \<notin> path_key ` set ps \<and> (\<forall>q\<in>set ps. \<exists>m\<in>set files. path_eq (md_path m) q)"
    if "\<forall>q\<in>set ps. \<exists>m\<in>set files. path_eq (md_path m) q"
    using that by (auto simp: path_eq_key) (metis image_eqI)
  show ?case
  proof (cases "\<exists>m\<in>set files. path_eq (md_path m) p")
    case True
    then have "remove_all (p # ps) files = remove_all ps ?next" using len by (auto simp: Let_def)
    then show ?thesis unfolding Cons.IH keep using True rest by auto
  next
    case False
    then show ?thesis using len by (auto simp: Let_def)
  qed
qed simp

lemma add_all_spec:
  assumes "files_ok files"
  shows "if files_ok (files @ ms) then add_all ms files = Inr (files @ ms) else \<exists>e. add_all ms files = Inl e"
  using assms
proof (induction ms arbitrary: files)
  case (Cons m ms)
  note step = files_ok_snoc [of files m]
  show ?case
  proof (cases "files_ok (files @ [m])")
    case True
    then show ?thesis using Cons.IH [OF True] step by simp
  next
    case False
    then have "\<not> files_ok (files @ m # ms)" by (auto simp: files_ok_def)
    then show ?thesis using False step Cons.prems by (cases "validate_metadata m") auto
  qed
qed (simp add: files_ok_def)

lemma files_ok_filter: "files_ok files \<Longrightarrow> files_ok (filter P files)"
  by (auto simp: files_ok_def list_all_iff distinct_map intro: inj_on_subset)

lemma next_state_spec:
  assumes "manifest_ok m"
  shows "if edit_ok edit m
    then next_state edit m = Inr (live_files (edited edit m), persisted_through (edited edit m))
    else \<exists>e. next_state edit m = Inl e"
proof (cases "distinct (map path_key (remove_files edit)) \<and> (\<forall>p\<in>set (remove_files edit). manifest_contains m p)")
  case True
  define kept where "kept = filter (\<lambda>f. \<forall>p\<in>set (remove_files edit). \<not> path_eq (md_path f) p) (live_files m)"
  have r: "remove_all (remove_files edit) (live_files m) = Inr kept"
    using True by (simp add: remove_all_spec kept_def manifest_contains_def)
  have "files_ok kept" unfolding kept_def using assms by (intro files_ok_filter) (simp add: manifest_ok_def)
  note a = add_all_spec [OF this, of "add_files edit"]
  have "next_checkpoint (edit_persisted_through edit) (persisted_through m) =
      (if \<forall>n c. edit_persisted_through edit = Some n \<and> persisted_through m = Some c \<longrightarrow> c \<le> n
       then Inr (persisted_through (edited edit m)) else Inl Manifest_Checkpoint_Backwards)"
    by (auto simp: next_checkpoint_def edited_def split: option.splits)
  then show ?thesis
    using True r a by (auto simp: next_state_def edit_ok_def edited_def kept_def [symmetric] split: if_splits)
next
  case False
  then show ?thesis by (auto simp: next_state_def edit_ok_def remove_all_spec manifest_contains_def)
qed

lemma edited_ok: "edit_ok edit m \<Longrightarrow> manifest_ok (edited edit m)"
  by (simp add: edit_ok_def edited_def manifest_ok_def)

lemma level_fail_at_newline: "get_level [newline] = Level_Fail True"
  by (simp add: get_level_def is_space_def newline_def)

text \<open>Reading back the snapshot of a well-formed state gives that state.\<close>

lemma snapshot_loads:
  assumes "manifest_ok m" and "manifest_text (live_files m) (persisted_through m) = (t, err)"
  shows "err = None" and "parse_manifest t = Inr (live_files m, persisted_through m)"
  using manifest_text_parses [OF _ assms(2), of "[]"] assms(1) level_fail_at_newline
  by (auto simp: manifest_ok_def sorted_sort_id)

lemma apply_edit_cases:
  assumes "manifest_ok m" and "manifest_load fs m = Inr m" and "apply_edit io edit m fs = (res, fs')"
  shows "if edit_ok edit m
    then (case io of
        Snapshot_Ok \<Rightarrow> res = Inr (edited edit m) \<and> manifest_load fs' (edited edit m) = Inr (edited edit m)
      | Directory_Sync_Fails \<Rightarrow> (\<exists>e. res = Inl e) \<and> manifest_load fs' (edited edit m) = Inr (edited edit m)
      | _ \<Rightarrow> (\<exists>e. res = Inl e) \<and> manifest_load fs' m = Inr m)
    else (\<exists>e. res = Inl e) \<and> fs' = fs"
proof (cases "edit_ok edit m")
  case True
  let ?m = "edited edit m"
  have n: "next_state edit m = Inr (live_files ?m, persisted_through ?m)"
    using next_state_spec [OF assms(1), of edit] True by simp
  obtain t where t: "manifest_text (live_files ?m) (persisted_through ?m) = (t, None)"
    "parse_manifest t = Inr (live_files ?m, persisted_through ?m)"
    using snapshot_loads [OF edited_ok [OF True]] by (cases "manifest_text (live_files ?m) (persisted_through ?m)") auto
  have path: "manifest_path ?m = manifest_path m" by (simp add: edited_def)
  have load: "manifest_load fs2 ?m = Inr ?m" if "fs2 (manifest_path m) = Some t" for fs2
    using that t(2) path by (simp add: manifest_load_def)
  have old: "manifest_load fs2 m = Inr m" if "fs2 (manifest_path m) = fs (manifest_path m)" for fs2
    using assms(2) that by (rule manifest_load_again)
  have st: "m\<lparr>live_files := live_files ?m, persisted_through := persisted_through ?m\<rparr> = ?m"
    by (simp add: edited_def)
  show ?thesis
    using assms(3) True n t(1) load old st
    by (cases io) (auto simp: apply_edit_def persist_snapshot_def)
next
  case False
  then obtain e where "next_state edit m = Inl e" using next_state_spec [OF assms(1), of edit] by auto
  then show ?thesis using assms(3) False by (auto simp: apply_edit_def)
qed

lemma apply_edit_other_files:
  assumes "apply_edit io edit m fs = (res, fs')" and "q \<noteq> manifest_path m" and "q \<noteq> temporary_path (manifest_path m)"
  shows "fs' q = fs q"
  using assms
  by (auto simp: apply_edit_def persist_snapshot_def split: sum.splits prod.splits option.splits snapshot_io.splits)

section \<open>The properties\<close>

text \<open>C35: What \<open>persistSnapshot\<close> writes, \<open>load\<close> reads back. For every well-formed list of live
  files, with any bytes in paths and keys, and any checkpoint, writing the snapshot succeeds and
  parsing its text returns the files in manifest order and the checkpoint.\<close>

theorem manifest_round_trip:
  assumes "files_ok files"
  shows "\<exists>t. manifest_text files checkpoint = (t, None) \<and> parse_manifest t = Inr (sort files, checkpoint)"
  using manifest_text_parses [OF assms, of checkpoint _ _ "[]"] level_fail_at_newline
  by (cases "manifest_text files checkpoint") auto

abbreviation tricky_file :: sstable_metadata where
  "tricky_file \<equiv> Sstable_Metadata [0x61, 0x22, 0x20, 0x5C] 1 [0x0A] [0x22, 0x22]"

theorem manifest_round_trip_witness:
  "\<exists>t. manifest_text [tricky_file] (Some 134) = (t, None)
     \<and> parse_manifest t = Inr ([tricky_file], Some 134)"
  using manifest_round_trip [of "[tricky_file]" "Some 134"]
  by (simp add: files_ok_def validate_metadata_def)

text \<open>Whatever a MANIFEST file contains, if the constructor accepts it then the state is well
  formed: sorted by level and path, with non-empty paths, ordered key ranges and no path twice;
  and opening again gives the same state.\<close>

theorem manifest_open_sound:
  assumes "manifest_new fs p = (Inr m, fs')"
  shows "manifest_ok m \<and> manifest_load fs' m = Inr m \<and> fs' (temporary_path p) = None"
  using assms by (auto simp: manifest_new_def Let_def dest: manifest_load_ok intro: manifest_load_again)

theorem manifest_open_sound_witness:
  "\<exists>m fs'. manifest_new (\<lambda>q. None) [1] = (Inr m, fs') \<and> manifest_ok m"
proof -
  have "manifest_new (\<lambda>q. None) [1] =
      (Inr \<lparr>manifest_path = [1], live_files = [], persisted_through = None\<rparr>, (\<lambda>q. None)(temporary_path [1] := None))"
    by (simp add: manifest_new_def manifest_load_def Let_def)
  from this manifest_open_sound [OF this] show ?thesis by blast
qed

text \<open>An edit does exactly what it says. When no system call fails, it succeeds exactly if
  every removed path is live and named once, every added file is valid and new, and the
  checkpoint does not move back; then the live files are the remaining and the added ones in
  manifest order, on disk as in memory. Otherwise it throws and changes nothing.\<close>

theorem apply_edit_exact:
  assumes "manifest_ok m" and "manifest_load fs m = Inr m"
  shows "if edit_ok edit m
    then \<exists>fs'. apply_edit Snapshot_Ok edit m fs = (Inr (edited edit m), fs')
      \<and> manifest_ok (edited edit m) \<and> manifest_load fs' (edited edit m) = Inr (edited edit m)
    else \<exists>e. apply_edit io edit m fs = (Inl e, fs)"
proof (cases "edit_ok edit m")
  case True
  then show ?thesis
    using apply_edit_cases [OF assms, of Snapshot_Ok edit] edited_ok [OF True]
    by (cases "apply_edit Snapshot_Ok edit m fs") auto
next
  case False
  then show ?thesis
    using apply_edit_cases [OF assms, of io edit] by (cases "apply_edit io edit m fs") auto
qed

abbreviation fresh_manifest :: "path \<Rightarrow> manifest" where
  "fresh_manifest p \<equiv> \<lparr>manifest_path = p, live_files = [], persisted_through = None\<rparr>"

abbreviation first_edit :: manifest_edit where
  "first_edit \<equiv> \<lparr>remove_files = [], add_files = [tricky_file], edit_persisted_through = Some 7\<rparr>"

lemma fresh_manifest_ok: "manifest_ok (fresh_manifest p)" "manifest_load (\<lambda>q. None) (fresh_manifest p) = Inr (fresh_manifest p)"
  by (simp_all add: manifest_ok_def manifest_load_def)

lemma first_edit_ok: "edit_ok first_edit (fresh_manifest p)"
  by (simp add: edit_ok_def files_ok_def validate_metadata_def)

theorem apply_edit_exact_witness:
  "\<exists>m fs'. apply_edit Snapshot_Ok first_edit (fresh_manifest [1]) (\<lambda>q. None) = (Inr m, fs')
     \<and> live_files m = [tricky_file] \<and> persisted_through m = Some 7 \<and> manifest_load fs' m = Inr m"
  using apply_edit_exact [OF fresh_manifest_ok, of first_edit "[1]"] first_edit_ok
  by (auto simp: edited_def)

text \<open>C34: An edit is atomic under failures. Whatever step of writing the snapshot fails, a restart
  finds the old state or the edited one, never anything else: the edited one only after the
  rename, the old one whenever the rename was not reached; a success is always durable; and no
  file but the manifest and its temporary file changes.\<close>

theorem apply_edit_atomic:
  assumes "manifest_ok m" and "manifest_load fs m = Inr m" and "apply_edit io edit m fs = (res, fs')"
  shows "(manifest_load fs' m = Inr m \<or> edit_ok edit m \<and> manifest_load fs' m = Inr (edited edit m))
    \<and> (\<forall>m'. res = Inr m' \<longrightarrow> m' = edited edit m \<and> manifest_load fs' m' = Inr m')
    \<and> (\<forall>q. q \<noteq> manifest_path m \<and> q \<noteq> temporary_path (manifest_path m) \<longrightarrow> fs' q = fs q)"
proof -
  have reload: "manifest_load fs' m = manifest_load fs' (edited edit m)"
    by (simp add: manifest_load_def edited_def split: option.split)
  show ?thesis
    using apply_edit_cases [OF assms] apply_edit_other_files [OF assms(3)] assms(2) reload
    by (cases "edit_ok edit m"; cases io) auto
qed

theorem apply_edit_atomic_witness:
  "\<exists>e fs'. apply_edit Directory_Sync_Fails first_edit (fresh_manifest [1]) (\<lambda>q. None) = (Inl e, fs')
     \<and> (manifest_load fs' (fresh_manifest [1]) = Inr (fresh_manifest [1])
        \<or> manifest_load fs' (fresh_manifest [1]) = Inr (edited first_edit (fresh_manifest [1])))"
proof -
  obtain res fs' where a: "apply_edit Directory_Sync_Fails first_edit (fresh_manifest [1]) (\<lambda>q. None) = (res, fs')"
    by (cases "apply_edit Directory_Sync_Fails first_edit (fresh_manifest [1]) (\<lambda>q. None)") auto
  show ?thesis
    using apply_edit_atomic [OF fresh_manifest_ok a] apply_edit_cases [OF fresh_manifest_ok a] first_edit_ok a
    by auto
qed

text \<open>C36: A damaged tail goes unnoticed. When a snapshot is followed by a sign or by a number that
  does not fit into 64 bits, with nothing after it, reading stops with the end-of-file flag set,
  which \<open>load\<close> takes for a clean end: the text is accepted as if the tail were not there.\<close>

theorem manifest_damaged_tail_accepted:
  assumes "files_ok files" and "manifest_text files checkpoint = (t, None)"
    and "tail = [0x2D] \<or> tail = [0x2B]
      \<or> tail \<noteq> [] \<and> list_all is_digit tail \<and> 2 ^ 64 \<le> digits_value tail"
  shows "parse_manifest (t @ tail) = parse_manifest t"
proof -
  have "get_level (newline # tail) = Level_Fail True"
    using assms(3)
  proof (elim disjE conjE)
    assume d: "tail \<noteq> []" "list_all is_digit tail" "2 ^ 64 \<le> digits_value tail"
    have "is_digit (hd tail)" using d(1,2) by (cases tail) auto
    note h = is_digit_not_sign [OF this]
    have sp: "dropWhile is_space (newline # tail) = tail"
      using d(1) h by (cases tail) (auto simp: is_space_def newline_def)
    have tw: "takeWhile is_digit tail = tail" "dropWhile is_digit tail = []"
      using takeWhile_all_digits [OF d(2)] by blast+
    have "(if hd tail = 0x2D \<or> hd tail = 0x2B then tl tail else tail) = tail" using h by simp
    then show ?thesis unfolding get_level_def Let_def sp using d(1,3) by (simp add: tw del: takeWhile_eq_all_conv)
  qed (simp_all add: get_level_def is_space_def newline_def is_digit_def)
  from manifest_text_parses(2) [OF assms(1,2) this] manifest_text_parses(2) [OF assms(1,2), of "[]"]
  show ?thesis using level_fail_at_newline by simp
qed

theorem manifest_damaged_tail_accepted_witness:
  "\<exists>t. manifest_text [tricky_file] None = (t, None) \<and> parse_manifest (t @ [0x2D]) = parse_manifest t"
proof -
  have ok: "files_ok [tricky_file]" by (simp add: files_ok_def validate_metadata_def)
  obtain t where t: "manifest_text [tricky_file] None = (t, None)"
    using manifest_text_parses(1) [OF ok] level_fail_at_newline by (cases "manifest_text [tricky_file] None") auto
  show ?thesis using t manifest_damaged_tail_accepted [OF ok t, of "[0x2D]"] by simp
qed

end
