(* ===== verification/Task_Queue.thy ===== *)
theory Task_Queue
  imports Kronos_Prelude
begin

text \<open>
  include/kronos/thread_safe_queue.hpp: the queue that carries frozen memtables to the background
  worker. Every operation is one critical section of \<open>mutex_\<close>, so it is one atomic step; waiting
  for the condition variable is the operation not being enabled yet, which is \<open>None\<close>.
\<close>

record 'a task_queue =
  tq_queue :: "'a list"
  tq_shutting_down :: bool

definition tq_new :: "'a task_queue" where
  "tq_new = \<lparr>tq_queue = [], tq_shutting_down = False\<rparr>"

definition tq_push :: "'a \<Rightarrow> 'a task_queue \<Rightarrow> bool \<times> 'a task_queue" where
  "tq_push x q =
     (if tq_shutting_down q then (False, q)
      else (True, q\<lparr>tq_queue := tq_queue q @ [x]\<rparr>))"

definition tq_wait_and_pop :: "'a task_queue \<Rightarrow> ('a option \<times> 'a task_queue) option" where
  "tq_wait_and_pop q =
     (if \<not> (tq_queue q \<noteq> [] \<or> tq_shutting_down q) then None
      else if tq_shutting_down q \<and> tq_queue q = [] then Some (None, q)
      else Some (Some (hd (tq_queue q)), q\<lparr>tq_queue := tl (tq_queue q)\<rparr>))"

definition tq_shutdown :: "'a task_queue \<Rightarrow> 'a task_queue" where
  "tq_shutdown q = (if tq_shutting_down q then q else q\<lparr>tq_shutting_down := True\<rparr>)"

section \<open>The interface of a closable queue\<close>

text \<open>What producers and consumers may rely on, over the accepted items not yet taken and whether
  the queue is closed.\<close>

locale closable_queue =
  fixes new :: 'q
    and push :: "'a \<Rightarrow> 'q \<Rightarrow> bool \<times> 'q"
    and pop :: "'q \<Rightarrow> ('a option \<times> 'q) option"
    and shut :: "'q \<Rightarrow> 'q"
    and items :: "'q \<Rightarrow> 'a list"
    and closed :: "'q \<Rightarrow> bool"
  assumes new: "items new = []" "\<not> closed new"
    and push_open: "\<not> closed q \<Longrightarrow> \<exists>q'. push x q = (True, q') \<and> items q' = items q @ [x] \<and> \<not> closed q'"
    and push_closed: "closed q \<Longrightarrow> push x q = (False, q)"
    and pop_item: "items q = x # xs \<Longrightarrow> \<exists>q'. pop q = Some (Some x, q') \<and> items q' = xs \<and> closed q' = closed q"
    and pop_end: "items q = [] \<Longrightarrow> pop q = (if closed q then Some (None, q) else None)"
    and shut: "items (shut q) = items q" "closed (shut q)"
begin

lemma pop_cases:
  assumes "pop q = Some (r, q')"
  shows "r = None \<and> q' = q \<and> items q = [] \<and> closed q
    \<or> (\<exists>x. r = Some x \<and> items q = x # items q' \<and> closed q' = closed q)"
proof (cases "items q")
  case Nil
  then show ?thesis using assms pop_end [OF Nil] by (auto split: if_splits)
next
  case (Cons x xs)
  then show ?thesis using assms pop_item [OF Cons] by auto
qed

lemma pop_blocks_iff: "pop q = None \<longleftrightarrow> items q = [] \<and> \<not> closed q"
  using pop_item [of q] pop_end [of q] by (cases "items q") force+

end

interpretation tq: closable_queue tq_new tq_push tq_wait_and_pop tq_shutdown tq_queue tq_shutting_down
  by unfold_locales (auto simp: tq_new_def tq_push_def tq_wait_and_pop_def tq_shutdown_def)

section \<open>Histories\<close>

text \<open>
  An event is the return of one call of some thread. A history is possible when every call
  returns what the queue gives at its turn.
\<close>

datatype 'a tq_event = Pushed 'a | Refused 'a | Popped 'a | Ended | Closed

fun tq_event_step :: "'a tq_event \<Rightarrow> 'a task_queue \<Rightarrow> 'a task_queue option" where
  "tq_event_step (Pushed x) q = (if fst (tq_push x q) then Some (snd (tq_push x q)) else None)"
| "tq_event_step (Refused x) q = (if fst (tq_push x q) then None else Some (snd (tq_push x q)))"
| "tq_event_step (Popped x) q =
     (case tq_wait_and_pop q of Some (Some y, q') \<Rightarrow> if x = y then Some q' else None | _ \<Rightarrow> None)"
| "tq_event_step Ended q = (case tq_wait_and_pop q of Some (None, q') \<Rightarrow> Some q' | _ \<Rightarrow> None)"
| "tq_event_step Closed q = Some (tq_shutdown q)"

fun tq_history :: "'a tq_event list \<Rightarrow> 'a task_queue \<Rightarrow> 'a task_queue option" where
  "tq_history [] q = Some q"
| "tq_history (e # es) q = Option.bind (tq_event_step e q) (tq_history es)"

definition accepted :: "'a tq_event list \<Rightarrow> 'a list" where
  "accepted es = concat (map (\<lambda>e. case e of Pushed x \<Rightarrow> [x] | _ \<Rightarrow> []) es)"

definition taken :: "'a tq_event list \<Rightarrow> 'a list" where
  "taken es = concat (map (\<lambda>e. case e of Popped x \<Rightarrow> [x] | _ \<Rightarrow> []) es)"

lemma tq_step_pushed:
  "tq_event_step (Pushed x) q = Some q' \<Longrightarrow> \<not> tq_shutting_down q \<and> tq_queue q' = tq_queue q @ [x] \<and> \<not> tq_shutting_down q'"
  using tq.push_open [of q x] tq.push_closed [of q x] by (cases "tq_shutting_down q") auto

lemma tq_step_other:
  assumes "tq_event_step e q = Some q'" and "\<forall>x. e \<noteq> Pushed x"
  shows "tq_queue q = taken [e] @ tq_queue q'"
    and "tq_shutting_down q' \<longleftrightarrow> tq_shutting_down q \<or> e = Closed"
    and "e = Ended \<Longrightarrow> tq_queue q = [] \<and> tq_shutting_down q"
    and "e = Refused x \<Longrightarrow> tq_shutting_down q"
proof -
  have "tq_queue q = taken [e] @ tq_queue q' \<and> (tq_shutting_down q' \<longleftrightarrow> tq_shutting_down q \<or> e = Closed)
    \<and> (e = Ended \<longrightarrow> tq_queue q = [] \<and> tq_shutting_down q) \<and> (\<forall>x. e = Refused x \<longrightarrow> tq_shutting_down q)"
  proof (cases e)
    case (Refused x)
    then have "tq_shutting_down q" using assms(1) tq.push_open [of q x] by (cases "tq_shutting_down q") auto
    then show ?thesis using Refused assms(1) tq.push_closed [of q x] by (simp add: taken_def)
  next
    case (Popped x)
    then obtain p where "tq_wait_and_pop q = Some (Some x, q')"
      using assms(1) by (auto split: option.splits if_splits)
    from tq.pop_cases [OF this] Popped show ?thesis by (auto simp: taken_def)
  next
    case Ended
    then have "tq_wait_and_pop q = Some (None, q')" using assms(1) by (auto split: option.splits)
    from tq.pop_cases [OF this] Ended show ?thesis by (auto simp: taken_def)
  next
    case Closed
    then show ?thesis using assms(1) tq.shut [of q] by (auto simp: taken_def)
  qed (use assms(2) in auto)
  then show "tq_queue q = taken [e] @ tq_queue q'" "tq_shutting_down q' \<longleftrightarrow> tq_shutting_down q \<or> e = Closed"
    "e = Ended \<Longrightarrow> tq_queue q = [] \<and> tq_shutting_down q" "e = Refused x \<Longrightarrow> tq_shutting_down q"
    by auto
qed

lemma tq_history_append:
  "tq_history (es @ fs) q = Option.bind (tq_history es q) (tq_history fs)"
  by (induction es arbitrary: q) (auto split: bind_splits)

lemma accepted_append [simp]: "accepted (es @ fs) = accepted es @ accepted fs"
  by (simp add: accepted_def)

lemma taken_append [simp]: "taken (es @ fs) = taken es @ taken fs"
  by (simp add: taken_def)

lemma tq_history_inv:
  "tq_history es tq_new = Some q \<Longrightarrow>
   accepted es = taken es @ tq_queue q \<and> (tq_shutting_down q \<longleftrightarrow> Closed \<in> set es)"
proof (induction es arbitrary: q rule: rev_induct)
  case Nil
  then have "q = tq_new" by simp
  then show ?case by (simp add: tq_new_def accepted_def taken_def)
next
  case (snoc e es)
  then obtain q0 where q0: "tq_history es tq_new = Some q0" "tq_event_step e q0 = Some q"
    by (auto simp: tq_history_append split: bind_splits)
  note IH = snoc.IH [OF q0(1)]
  show ?case
  proof (cases "\<exists>x. e = Pushed x")
    case True
    then obtain x where "e = Pushed x" by blast
    then show ?thesis using IH tq_step_pushed [of x q0 q] q0(2) by (auto simp: accepted_def taken_def)
  next
    case False
    then have "accepted [e] = []" by (cases e) (auto simp: accepted_def)
    then show ?thesis using IH tq_step_other(1,2) [OF q0(2)] False by auto
  qed
qed

section \<open>The properties\<close>

text \<open>C37: Accepted work is handed out first in, first out, exactly once, and none is lost. In every
  possible history of pushes, pops and shutdowns by any number of threads, the items popped so
  far followed by those still queued are the accepted items in the order of acceptance; after a
  shutdown no push is accepted and before it none is refused; and a consumer is told that the
  queue has ended only after a shutdown and when every accepted item has been taken.\<close>

theorem queue_history_correct:
  assumes "tq_history (es @ [e]) tq_new = Some q"
  shows "accepted (es @ [e]) = taken (es @ [e]) @ tq_queue q
    \<and> (\<forall>x. e = Pushed x \<longrightarrow> Closed \<notin> set es) \<and> (\<forall>x. e = Refused x \<longrightarrow> Closed \<in> set es)
    \<and> (e = Ended \<longrightarrow> Closed \<in> set es \<and> accepted es = taken es)"
proof -
  obtain q0 where q0: "tq_history es tq_new = Some q0" "tq_event_step e q0 = Some q"
    using assms by (auto simp: tq_history_append split: bind_splits)
  show ?thesis
    using tq_history_inv [OF assms] tq_history_inv [OF q0(1)] tq_step_pushed [of _ q0 q]
      tq_step_other(3,4) [OF q0(2)] q0(2) by (cases e) auto
qed

theorem queue_history_correct_witness:
  "\<exists>q. tq_history ([Pushed 1, Pushed 2, Popped 1, Closed, Refused 3, Popped 2] @ [Ended]) tq_new = Some (q :: nat task_queue)
     \<and> accepted [Pushed 1, Pushed 2, Popped 1, Closed, Refused 3, Popped (2 :: nat)] = [1, 2]"
proof -
  obtain q :: "nat task_queue" where q:
    "tq_history ([Pushed 1, Pushed 2, Popped 1, Closed, Refused 3, Popped 2] @ [Ended]) tq_new = Some q"
    by (auto simp: tq_new_def tq_push_def tq_wait_and_pop_def tq_shutdown_def)
  from queue_history_correct [OF q] q show ?thesis by (auto simp: accepted_def taken_def)
qed

text \<open>Nobody waits forever on a closed queue: after a shutdown every call of \<open>wait_and_pop\<close>
  returns, with an accepted item or with the end, so the drain ends after as many calls as
  there are items. On an open queue it waits exactly while the queue is empty.\<close>

theorem queue_drain_returns:
  assumes "tq_history es tq_new = Some q"
  shows "(tq_wait_and_pop q = None \<longleftrightarrow> tq_queue q = [] \<and> Closed \<notin> set es)
    \<and> (Closed \<in> set es \<longrightarrow>
        (\<exists>q'. tq_history (es @ map Popped (tq_queue q) @ [Ended]) tq_new = Some q' \<and> tq_queue q' = []))"
proof -
  have drain: "\<exists>q'. tq_history (map Popped (tq_queue p) @ [Ended]) p = Some q' \<and> tq_queue q' = []"
    if "tq_shutting_down p" for p :: "'a task_queue"
    using that
  proof (induction "tq_queue p" arbitrary: p)
    case Nil
    then show ?case using tq.pop_end [of p] by auto
  next
    case (Cons x xs)
    then obtain p' where p': "tq_wait_and_pop p = Some (Some x, p')" "tq_queue p' = xs" "tq_shutting_down p'"
      using tq.pop_item [of p x xs] by auto
    then show ?case using Cons.hyps(1) [of p'] Cons.hyps(2) [symmetric] by auto
  qed
  show ?thesis
    using tq.pop_blocks_iff [of q] tq_history_inv [OF assms] drain [of q] assms
    by (auto simp: tq_history_append)
qed

theorem queue_drain_returns_witness:
  "\<exists>q. tq_history [Pushed 1, Pushed (2 :: nat), Closed] tq_new = Some q
     \<and> (\<exists>q'. tq_history ([Pushed 1, Pushed 2, Closed] @ map Popped (tq_queue q) @ [Ended]) tq_new = Some q')"
proof -
  obtain q :: "nat task_queue" where q: "tq_history [Pushed 1, Pushed 2, Closed] tq_new = Some q"
    by (auto simp: tq_new_def tq_push_def tq_shutdown_def)
  have "Closed \<in> set [Pushed 1, Pushed (2 :: nat), Closed]" by simp
  with queue_drain_returns [OF q] q show ?thesis by blast
qed

end
