(* ===== verification/Config.thy ===== *)
theory Config
  imports Manifest_Format
begin

text \<open>
  src/src/config.cpp: the configuration file, one \<open>key=value\<close> setting a line, and the typed
  getters over it. The numbers are read by \<open>std::stoi\<close> and \<open>std::stoull\<close>, which take the
  longest numeric prefix: leading white space, a sign of either kind, digits.
\<close>

datatype config_error =
    Config_Open_Failed
  | Config_Missing_Delimiter
  | Config_Empty_Key
  | Config_Missing_Setting
  | Config_Invalid_Value
  | Config_Out_Of_Range
  | Config_Zero_Trigger
  | Config_Empty_Value

type_synonym config = "bytes \<Rightarrow> bytes option"

section \<open>Reading the file\<close>

definition equals_char :: byte where "equals_char = 0x3D"

definition is_blank :: "byte \<Rightarrow> bool" where
  "is_blank c \<longleftrightarrow> c = 0x20 \<or> c = 0x09"

definition trim :: "bytes \<Rightarrow> bytes" where
  "trim s = rev (dropWhile is_blank (rev (dropWhile is_blank s)))"

definition config_line :: "bytes \<Rightarrow> config \<Rightarrow> config_error + config" where
  "config_line raw_line cfg =
     (let line = trim raw_line
      in if line = [] then Inr cfg
         else if equals_char \<notin> set line then Inl Config_Missing_Delimiter
         else
           let key = trim (takeWhile (\<lambda>c. c \<noteq> equals_char) line)
           in if key = [] then Inl Config_Empty_Key
              else Inr (cfg(key \<mapsto> trim (drop 1 (dropWhile (\<lambda>c. c \<noteq> equals_char) line)))))"

text \<open>The loop over \<open>std::getline\<close> ends when nothing is left to read.\<close>

function config_lines :: "bytes \<Rightarrow> config \<Rightarrow> config_error + config" where
  "config_lines s cfg =
     (if s = [] then Inr cfg
      else bind_res (config_line (fst (get_line s)) cfg) (config_lines (snd (get_line s))))"
  by pat_completeness auto

termination
proof (relation "measure (\<lambda>(s, cfg). length s)")
  fix s :: bytes and cfg :: config and x :: config
  assume "s \<noteq> []"
  then have "length (drop 1 (dropWhile (\<lambda>c. c \<noteq> newline) s)) < length s"
    using length_dropWhile_le [of "\<lambda>c. c \<noteq> newline" s] by (cases s) auto
  then show "((snd (get_line s), x), (s, cfg)) \<in> measure (\<lambda>(s, cfg). length s)" by (simp add: get_line_def)
qed simp

declare config_lines.simps [simp del]

text \<open>The constructor, from the content of the file.\<close>

definition config_new :: "bytes option \<Rightarrow> config_error + config" where
  "config_new content =
     (case content of
        None \<Rightarrow> Inl Config_Open_Failed
      | Some s \<Rightarrow> config_lines s Map.empty)"

section \<open>Numbers\<close>

definition parse_integer :: "bytes \<Rightarrow> (bool \<times> nat) option" where
  "parse_integer text =
     (let s = dropWhile is_space text;
          negative = (s \<noteq> [] \<and> hd s = 0x2D);
          digits = takeWhile is_digit (if s \<noteq> [] \<and> (hd s = 0x2D \<or> hd s = 0x2B) then tl s else s)
      in if digits = [] then None else Some (negative, digits_value digits))"

definition stoi :: "bytes \<Rightarrow> config_error + int" where
  "stoi text =
     (case parse_integer text of
        None \<Rightarrow> Inl Config_Invalid_Value
      | Some (negative, n) \<Rightarrow>
          let v = (if negative then - int n else int n)
          in if v < - (2 ^ 31) \<or> 2 ^ 31 \<le> v then Inl Config_Out_Of_Range else Inr v)"

text \<open>\<open>strtoull\<close> negates after the conversion, in the unsigned type.\<close>

definition stoull :: "bytes \<Rightarrow> config_error + u64" where
  "stoull text =
     (case parse_integer text of
        None \<Rightarrow> Inl Config_Invalid_Value
      | Some (negative, n) \<Rightarrow>
          if 2 ^ 64 \<le> n then Inl Config_Out_Of_Range
          else Inr (if negative then - of_nat n else of_nat n))"

section \<open>The getters\<close>

definition memtable_size_key :: bytes where "memtable_size_key = map of_char ''memtable_size_mb''"
definition bloom_filter_key :: bytes where "bloom_filter_key = map of_char ''bloom_filter''"
definition log_path_key :: bytes where "log_path_key = map of_char ''log_path''"
definition l0_trigger_key :: bytes where "l0_trigger_key = map of_char ''l0_compaction_trigger''"

definition get_memtable_size :: "config \<Rightarrow> config_error + int" where
  "get_memtable_size cfg =
     (case cfg memtable_size_key of None \<Rightarrow> Inl Config_Missing_Setting | Some v \<Rightarrow> stoi v)"

definition get_bloom_filter_enabled :: "config \<Rightarrow> config_error + bool" where
  "get_bloom_filter_enabled cfg =
     (case cfg bloom_filter_key of
        None \<Rightarrow> Inl Config_Missing_Setting
      | Some v \<Rightarrow>
          if v = map of_char ''true'' then Inr True
          else if v = map of_char ''false'' then Inr False
          else Inl Config_Invalid_Value)"

definition get_log_path :: "config \<Rightarrow> config_error + bytes" where
  "get_log_path cfg =
     (case cfg log_path_key of
        None \<Rightarrow> Inl Config_Missing_Setting
      | Some v \<Rightarrow> if v = [] then Inl Config_Empty_Value else Inr v)"

definition get_l0_compaction_trigger :: "config \<Rightarrow> config_error + u64" where
  "get_l0_compaction_trigger cfg =
     (case cfg l0_trigger_key of
        None \<Rightarrow> Inr 4
      | Some v \<Rightarrow> bind_res (stoull v) (\<lambda>n. if n = 0 then Inl Config_Zero_Trigger else Inr n))"

section \<open>Round trip\<close>

abbreviation blanks :: "bytes \<Rightarrow> bool" where
  "blanks s \<equiv> list_all is_blank s"

definition trimmed :: "bytes \<Rightarrow> bool" where
  "trimmed s \<longleftrightarrow> s = [] \<or> \<not> is_blank (hd s) \<and> \<not> is_blank (last s)"

lemma dropWhile_blanks: "blanks a \<Longrightarrow> s = [] \<or> \<not> is_blank (hd s) \<Longrightarrow> dropWhile is_blank (a @ s) = s"
  by (induction a) (cases s; auto)+

lemma trim_padded:
  assumes "blanks a" and "blanks b" and "trimmed s"
  shows "trim (a @ s @ b) = s"
proof (cases "s = []")
  case True
  have none: "dropWhile is_blank (a @ [] @ b) = []" using dropWhile_blanks [of "a @ b" "[]"] assms(1,2) by simp
  show ?thesis unfolding trim_def True none by simp
next
  case False
  have l: "dropWhile is_blank (a @ s @ b) = s @ b"
    using assms(1,3) False by (intro dropWhile_blanks) (auto simp: trimmed_def)
  have "hd (rev s) = last s" using False by (simp add: hd_rev)
  then have "dropWhile is_blank (rev b @ rev s) = rev s"
    using assms(2,3) False by (intro dropWhile_blanks) (auto simp: trimmed_def)
  then show ?thesis by (simp add: trim_def l)
qed

definition setting_ok :: "bytes \<Rightarrow> bytes \<Rightarrow> bool" where
  "setting_ok key val \<longleftrightarrow>
     key \<noteq> [] \<and> trimmed key \<and> trimmed val \<and> equals_char \<notin> set key \<and> newline \<notin> set key \<and> newline \<notin> set val"

text \<open>A setting as it may stand in a file: blanks around the key and the value.\<close>

type_synonym padding = "bytes \<times> bytes \<times> bytes \<times> bytes"

fun setting_text :: "padding \<Rightarrow> bytes \<times> bytes \<Rightarrow> bytes" where
  "setting_text (a, b, c, d) (key, val) = a @ key @ b @ equals_char # c @ val @ d"

fun padding_ok :: "padding \<Rightarrow> bool" where
  "padding_ok (a, b, c, d) \<longleftrightarrow> blanks a \<and> blanks b \<and> blanks c \<and> blanks d"

fun config_text :: "(padding \<times> bytes \<times> bytes) list \<Rightarrow> bytes" where
  "config_text [] = []"
| "config_text ((pad, setting) # rest) = setting_text pad setting @ newline # config_text rest"

lemma blank_not_special: "is_blank c \<Longrightarrow> c \<noteq> equals_char \<and> c \<noteq> newline"
  by (auto simp: is_blank_def equals_char_def newline_def)

lemma equals_not_blank: "\<not> is_blank equals_char"
  by (simp add: is_blank_def equals_char_def)

lemma config_line_setting:
  assumes ok: "setting_ok key val" and pad: "padding_ok pad"
  shows "config_line (setting_text pad (key, val)) cfg = Inr (cfg(key \<mapsto> val))"
proof -
  obtain a b c d where p: "pad = (a, b, c, d)" "blanks a" "blanks b" "blanks c" "blanks d"
    using pad by (cases pad) auto
  have k: "key \<noteq> []" "trimmed key" "trimmed val" "equals_char \<notin> set key" using ok by (simp_all add: setting_ok_def)
  define u where "u = (if val = [] then [] else c @ val)"
  define f where "f = (if val = [] then c @ d else d)"
  let ?s = "key @ b @ equals_char # u"
  have whole: "setting_text pad (key, val) = a @ ?s @ f" by (simp add: p(1) u_def f_def)
  have "last ?s = (if val = [] then equals_char else last val)" by (simp add: u_def)
  then have "trimmed ?s" using k equals_not_blank by (auto simp: trimmed_def)
  then have line: "trim (setting_text pad (key, val)) = ?s"
    unfolding whole using p by (intro trim_padded) (simp_all add: f_def)
  have "equals_char \<notin> set b" using p(3) blank_not_special by (auto simp: list_all_iff)
  then have notin: "equals_char \<notin> set (key @ b)" using k(4) by simp
  have "takeWhile (\<lambda>c. c \<noteq> equals_char) ((key @ b) @ equals_char # u) = key @ b"
    "dropWhile (\<lambda>c. c \<noteq> equals_char) ((key @ b) @ equals_char # u) = equals_char # u"
    using notin by (subst takeWhile_append2 dropWhile_append2; auto)+
  moreover have "trim (key @ b) = key" using trim_padded [of "[]" b key] p k by simp
  moreover have "trim u = val" using trim_padded [of c "[]" val] p k by (simp add: u_def) (simp add: trim_def)
  ultimately show ?thesis using k(1) by (simp add: config_line_def line)
qed

lemma get_line_setting:
  assumes "newline \<notin> set l"
  shows "get_line (l @ newline # r) = (l, r)"
proof -
  have "takeWhile (\<lambda>c. c \<noteq> newline) (l @ newline # r) = l" "dropWhile (\<lambda>c. c \<noteq> newline) (l @ newline # r) = newline # r"
    using assms by (subst takeWhile_append2 dropWhile_append2; auto)+
  then show ?thesis by (simp add: get_line_def)
qed

lemma setting_no_newline: "setting_ok key val \<Longrightarrow> padding_ok pad \<Longrightarrow> newline \<notin> set (setting_text pad (key, val))"
  by (cases pad) (auto simp: setting_ok_def list_all_iff equals_char_def newline_def is_blank_def)

text \<open>C38: A configuration file is read back as it was written: a file of \<open>key=value\<close> lines, with any
  blanks around keys and values, gives the map of its settings, the last of several settings of a
  key. Values may hold \<open>=\<close> and blanks inside.\<close>

theorem config_round_trip:
  assumes "\<forall>(pad, key, val)\<in>set settings. padding_ok pad \<and> setting_ok key val"
  shows "config_new (Some (config_text settings)) = Inr (map_of (rev (map snd settings)))"
proof -
  have "config_lines (config_text settings) cfg = Inr (cfg ++ map_of (rev (map snd settings)))" for cfg
    using assms
  proof (induction settings arbitrary: cfg)
    case Nil
    then show ?case by (simp add: config_lines.simps)
  next
    case (Cons s rest)
    obtain pad key val where s: "s = (pad, key, val)" by (cases s)
    have ok: "padding_ok pad" "setting_ok key val" using Cons.prems s by auto
    have "config_lines (config_text (s # rest)) cfg = config_lines (config_text rest) (cfg(key \<mapsto> val))"
      using get_line_setting [OF setting_no_newline [OF ok(2,1)], of "config_text rest"] config_line_setting [OF ok(2,1), of cfg]
      by (subst config_lines.simps) (simp add: s)
    also have "\<dots> = Inr (cfg(key \<mapsto> val) ++ map_of (rev (map snd rest)))" using Cons.prems by (intro Cons.IH) simp
    finally show ?case by (simp add: s map_add_assoc [symmetric])
  qed
  then show ?thesis by (simp add: config_new_def)
qed

theorem config_round_trip_witness:
  "config_new (Some [0x20, 0x61, 0x3D, 0x62, 0x3D, 0x20, 0x0A]) = Inr [[0x61] \<mapsto> [0x62, 0x3D]]"
  using config_round_trip [of "[(([0x20], [], [], [0x20]), [0x61], [0x62, 0x3D])]"]
  by (simp add: setting_ok_def trimmed_def is_blank_def equals_char_def newline_def)

section \<open>Numbers in the file\<close>

lemma decimal_start: "\<exists>c cs. decimal n = c # cs \<and> is_digit c"
  using decimal_digits [of n] by (cases "decimal n") auto

lemma parse_integer_decimal:
  "parse_integer (decimal n) = Some (False, n)" "parse_integer (0x2D # decimal n) = Some (True, n)"
proof -
  have all: "takeWhile is_digit (decimal n) = decimal n" "decimal n \<noteq> []"
    using takeWhile_all_digits decimal_digits [of n] by auto
  obtain c cs where c: "decimal n = c # cs" "is_digit c" using decimal_start by blast
  have "dropWhile is_space (decimal n) = decimal n" "hd (decimal n) \<noteq> 0x2D" "hd (decimal n) \<noteq> 0x2B"
    using c is_digit_not_sign [OF c(2)] by simp_all
  then show "parse_integer (decimal n) = Some (False, n)" by (simp add: parse_integer_def all)
  have "\<not> is_space 0x2D" by (simp add: is_space_def)
  then show "parse_integer (0x2D # decimal n) = Some (True, n)" by (simp add: parse_integer_def all)
qed

text \<open>C39: The numeric getters read decimal numbers exactly: the memtable size over the range of
  \<open>int\<close>, out of range beyond it; the compaction trigger over 64 bits, except for zero, and 4 where
  the setting is missing. But a negative trigger, which the comment at the conversion calls
  meaningless, is accepted: \<open>stoull\<close> wraps it around, so \<open>-1\<close> stands for $2^{64} - 1$ tables.\<close>

theorem config_numbers_exact:
  "get_memtable_size (cfg(memtable_size_key \<mapsto> decimal n)) = (if n < 2 ^ 31 then Inr (int n) else Inl Config_Out_Of_Range)
   \<and> get_l0_compaction_trigger (cfg(l0_trigger_key := None)) = Inr 4
   \<and> get_l0_compaction_trigger (cfg(l0_trigger_key \<mapsto> decimal n)) =
       (if n = 0 then Inl Config_Zero_Trigger else if n < 2 ^ 64 then Inr (of_nat n) else Inl Config_Out_Of_Range)
   \<and> get_l0_compaction_trigger (cfg(l0_trigger_key \<mapsto> 0x2D # decimal n)) =
       (if n = 0 then Inl Config_Zero_Trigger else if n < 2 ^ 64 then Inr (of_nat (2 ^ 64 - n)) else Inl Config_Out_Of_Range)"
proof -
  have zero: "(of_nat n :: u64) = 0 \<longleftrightarrow> n = 0" if "n < 2 ^ 64"
    using that by (simp add: word_unat_eq_iff unat_of_nat take_bit_nat_eq_self_iff)
  have neg: "- of_nat n = (of_nat (2 ^ 64 - n) :: u64)" if "n < 2 ^ 64"
  proof -
    have "(of_nat (2 ^ 64 - n) :: u64) = of_nat (2 ^ 64) - of_nat n" using that by (simp only: of_nat_diff less_imp_le)
    moreover have "(of_nat (2 ^ 64) :: u64) = 0" by simp
    ultimately show ?thesis by simp
  qed
  show ?thesis
    using zero neg
    by (simp add: get_memtable_size_def stoi_def get_l0_compaction_trigger_def stoull_def parse_integer_decimal not_less [symmetric])
qed

end
