(* ===== verification/Posix_Files.thy ===== *)
theory Posix_Files
  imports Kronos_Types
begin

text \<open>
  The loops around system calls that src/src/wal.cpp, src/src/sstable.cpp and src/src/manifest.cpp
  share: writing a whole buffer, synchronising a file or a directory, and the directory of a path.
  What the operating system answers is an input, a list with the result of every call of the loop
  in turn. A loop is \<open>None\<close> when the list ends before it does: the calls so far have told it to
  go on.
\<close>

section \<open>Writing a buffer\<close>

text \<open>\<open>Wrote n\<close>: the call took \<open>n\<close> bytes, at most as many as it was offered; \<open>-1\<close> with
  \<open>EINTR\<close>; \<open>-1\<close> with any other error. A call that takes no byte counts as an error.\<close>

datatype write_result = Wrote nat | Write_Interrupted | Write_Error

text \<open>
  The result tells whether the buffer was written, the bytes that reached the file, and the
  answers that are left. The loops of wal.cpp try again after \<open>EINTR\<close>, \<open>write_all\<close> of
  sstable.cpp gives up.
\<close>

fun write_all :: "bool \<Rightarrow> bytes \<Rightarrow> write_result list \<Rightarrow> (bool \<times> bytes \<times> write_result list) option" where
  "write_all retries [] rs = Some (True, [], rs)"
| "write_all retries (b # bs) [] = None"
| "write_all retries (b # bs) (Write_Interrupted # rs) =
     (if retries then write_all retries (b # bs) rs else Some (False, [], rs))"
| "write_all retries (b # bs) (Write_Error # rs) = Some (False, [], rs)"
| "write_all retries (b # bs) (Wrote n # rs) =
     (if n = 0 then Some (False, [], rs)
      else
        case write_all retries (drop n (b # bs)) rs of
          None \<Rightarrow> None
        | Some (ok, written, rs') \<Rightarrow> Some (ok, take n (b # bs) @ written, rs'))"

text \<open>Several buffers one after the other; the first failure ends the sequence.\<close>

fun write_chunks :: "bool \<Rightarrow> bytes list \<Rightarrow> write_result list \<Rightarrow> (bool \<times> bytes \<times> write_result list) option" where
  "write_chunks retries [] rs = Some (True, [], rs)"
| "write_chunks retries (c # cs) rs =
     (case write_all retries c rs of
        None \<Rightarrow> None
      | Some (False, written, rs') \<Rightarrow> Some (False, written, rs')
      | Some (True, written, rs') \<Rightarrow>
          (case write_chunks retries cs rs' of
             None \<Rightarrow> None
           | Some (ok, rest, rs'') \<Rightarrow> Some (ok, written @ rest, rs'')))"

section \<open>Synchronising\<close>

datatype sync_result = Synced | Sync_Interrupted | Sync_Unsupported | Sync_Error

text \<open>\<open>fsync\<close> on a file: only \<open>EINTR\<close> is tried again.\<close>

fun sync_file :: "kerror \<Rightarrow> sync_result list \<Rightarrow> (kerror + unit) option" where
  "sync_file err [] = None"
| "sync_file err (Synced # rs) = Some (Inr ())"
| "sync_file err (Sync_Interrupted # rs) = sync_file err rs"
| "sync_file err (_ # rs) = Some (Inl err)"

text \<open>\<open>fsync\<close> on a directory: a file system that does not support it (\<open>EINVAL\<close>, \<open>ENOTSUP\<close>,
  \<open>EOPNOTSUPP\<close>) is not an error.\<close>

fun sync_directory_loop :: "kerror \<Rightarrow> sync_result list \<Rightarrow> (kerror + unit) option" where
  "sync_directory_loop err [] = None"
| "sync_directory_loop err (Synced # rs) = Some (Inr ())"
| "sync_directory_loop err (Sync_Interrupted # rs) = sync_directory_loop err rs"
| "sync_directory_loop err (Sync_Unsupported # rs) = Some (Inr ())"
| "sync_directory_loop err (Sync_Error # rs) = Some (Inl err)"

text \<open>\<open>path::parent_path\<close>: everything before the last separator without the separators at its
  end, the root directory of an absolute path staying a separator.\<close>

definition parent_path :: "path \<Rightarrow> path" where
  "parent_path p =
     (let upto = rev (dropWhile (\<lambda>c. c \<noteq> slash) (rev p));
          stripped = rev (dropWhile (\<lambda>c. c = slash) (rev upto))
      in if stripped = [] \<and> upto \<noteq> [] then [slash] else stripped)"

definition synced_directory :: "path \<Rightarrow> path" where
  "synced_directory p = (if parent_path p = [] then [0x2E] else parent_path p)"

text \<open>\<open>fsyncParentDirectory\<close>, from which directories can be opened and what \<open>fsync\<close> answers.\<close>

definition fsync_parent_directory ::
  "kerror \<Rightarrow> path \<Rightarrow> (path \<Rightarrow> bool) \<Rightarrow> sync_result list \<Rightarrow> (kerror + unit) option" where
  "fsync_parent_directory err p opens rs =
     (if opens (synced_directory p) then sync_directory_loop err rs else Some (Inl err))"

section \<open>What the loops do\<close>

text \<open>Whatever the calls answer, the bytes that reach the file are a prefix of the buffer, and the
  loop reports success exactly when that prefix is the buffer.\<close>

lemma write_all_prefix:
  "write_all retries bs rs = Some (ok, written, rs') \<Longrightarrow> \<exists>tail. bs = written @ tail \<and> (ok \<longleftrightarrow> tail = [])"
proof (induction retries bs rs arbitrary: ok written rs' rule: write_all.induct)
  case (5 retries b bs n rs)
  show ?case
  proof (cases "n = 0")
    case False
    then obtain w where w: "write_all retries (drop n (b # bs)) rs = Some (ok, w, rs')" "written = take n (b # bs) @ w"
      using 5(2) by (auto split: option.splits)
    from 5(1) [OF False w(1)] obtain tail where "drop n (b # bs) = w @ tail" "ok \<longleftrightarrow> tail = []" by blast
    then have "b # bs = written @ tail" using w(2) by (metis append.assoc append_take_drop_id)
    then show ?thesis using \<open>ok \<longleftrightarrow> tail = []\<close> by blast
  qed (use 5(2) in auto)
qed (auto split: if_splits)

lemma write_chunks_prefix:
  "write_chunks retries cs rs = Some (ok, written, rs') \<Longrightarrow> \<exists>tail. concat cs = written @ tail \<and> (ok \<longleftrightarrow> tail = [])"
proof (induction cs arbitrary: rs ok written rs')
  case (Cons c cs)
  obtain ok1 w1 rs1 where w1: "write_all retries c rs = Some (ok1, w1, rs1)"
    using Cons.prems by (cases "write_all retries c rs") auto
  obtain t1 where t1: "c = w1 @ t1" "ok1 \<longleftrightarrow> t1 = []" using write_all_prefix [OF w1] by blast
  show ?case
  proof (cases ok1)
    case True
    then obtain w2 where w2: "write_chunks retries cs rs1 = Some (ok, w2, rs')" "written = w1 @ w2"
      using Cons.prems w1 by (auto split: option.splits)
    from Cons.IH [OF w2(1)] show ?thesis using t1 True w2(2) by auto
  next
    case False
    then have "written = w1" "\<not> ok" using Cons.prems w1 by auto
    then show ?thesis using t1 False by auto
  qed
qed simp

lemma write_all_whole: "bs \<noteq> [] \<Longrightarrow> length bs \<le> n \<Longrightarrow> write_all retries bs (Wrote n # rs) = Some (True, bs, rs)"
  by (cases bs) auto

text \<open>The loops return once enough calls have been answered without \<open>EINTR\<close>.\<close>

definition answers :: "write_result list \<Rightarrow> nat" where
  "answers rs = length (filter (\<lambda>r. r \<noteq> Write_Interrupted) rs)"

lemma answers_simps [simp]:
  "answers [] = 0" "answers (r # rs) = (if r = Write_Interrupted then answers rs else Suc (answers rs))"
  by (simp_all add: answers_def)

lemma write_all_returns:
  "length bs \<le> answers rs \<Longrightarrow>
   \<exists>ok written rs'. write_all retries bs rs = Some (ok, written, rs') \<and> (ok \<longrightarrow> answers rs \<le> answers rs' + length bs)"
proof (induction retries bs rs rule: write_all.induct)
  case (5 retries b bs n rs)
  show ?case
  proof (cases "n = 0")
    case False
    then have "length (drop n (b # bs)) \<le> answers rs" using 5(2) by simp
    from 5(1) [OF False this] show ?thesis using False by fastforce
  qed (intro exI [of _ False], simp)
qed auto

lemma write_chunks_returns:
  "length (concat cs) \<le> answers rs \<Longrightarrow>
   \<exists>ok written rs'. write_chunks retries cs rs = Some (ok, written, rs') \<and> (ok \<longrightarrow> answers rs \<le> answers rs' + length (concat cs))"
proof (induction cs arbitrary: rs)
  case (Cons c cs)
  have "length c \<le> answers rs" using Cons.prems by simp
  then obtain ok w rs1 where w: "write_all retries c rs = Some (ok, w, rs1)" "ok \<longrightarrow> answers rs \<le> answers rs1 + length c"
    using write_all_returns by blast
  show ?case
  proof (cases ok)
    case True
    then have "length (concat cs) \<le> answers rs1" using w(2) Cons.prems by simp
    from Cons.IH [OF this] show ?thesis using w True by fastforce
  qed (use w in \<open>intro exI [of _ False], simp\<close>)
qed (intro exI [of _ True], simp)

lemma sync_returns: "\<exists>r\<in>set rs. r \<noteq> Sync_Interrupted \<Longrightarrow> sync_file err rs \<noteq> None \<and> sync_directory_loop err rs \<noteq> None"
proof (induction rs)
  case (Cons r rs)
  then show ?case by (cases r) auto
qed simp

lemma sync_file_cases: "sync_file err rs = Some r \<Longrightarrow> r = Inr () \<or> r = Inl err"
  by (induction err rs rule: sync_file.induct) auto

lemma sync_directory_cases: "fsync_parent_directory err p opens rs = Some r \<Longrightarrow> r = Inr () \<or> r = Inl err"
proof -
  have "sync_directory_loop err rs = Some r \<Longrightarrow> r = Inr () \<or> r = Inl err"
    by (induction err rs rule: sync_directory_loop.induct) auto
  then show "fsync_parent_directory err p opens rs = Some r \<Longrightarrow> ?thesis"
    by (auto simp: fsync_parent_directory_def split: if_splits)
qed

end
