(* ===== verification/Startup.thy ===== *)
theory Startup
  imports Config Wal_Log Posix_Files
begin

text \<open>
  The logger, src/src/logger.cpp, and the start-up program, src/src/main.cpp, which reads the
  configuration, writes one line to the log file and exercises a write-ahead log of its own in
  \<open>test.wal\<close>. The local time is a parameter, as are the answers of the file system; writes to
  the streams succeed, since neither program looks at their state.
\<close>

section \<open>The logger\<close>

record calendar_time =
  year :: nat
  month :: nat
  day :: nat
  hour :: nat
  minute :: nat
  second :: nat

definition two_digits :: "nat \<Rightarrow> bytes" where
  "two_digits n = [of_nat (48 + n div 10 mod 10), of_nat (48 + n mod 10)]"

text \<open>\<open>put_time\<close> with the format of the code.\<close>

definition put_time :: "calendar_time \<Rightarrow> bytes" where
  "put_time t =
     decimal (year t) @ [0x2D] @ two_digits (month t) @ [0x2D] @ two_digits (day t) @ [space_char]
     @ two_digits (hour t) @ [0x3A] @ two_digits (minute t) @ [0x3A] @ two_digits (second t)"

datatype log_level = Info | Warn | Error

fun level_name :: "log_level \<Rightarrow> bytes" where
  "level_name Info = map of_char ''INFO''"
| "level_name Warn = map of_char ''WARN''"
| "level_name Error = map of_char ''ERROR''"

text \<open>One call of \<open>info\<close>, \<open>warn\<close> or \<open>error\<close>; the mutex makes the line one append.\<close>

definition log_line :: "calendar_time \<Rightarrow> log_level \<Rightarrow> bytes \<Rightarrow> bytes" where
  "log_line t level message =
     put_time t @ [space_char, 0x5B] @ level_name level @ [0x5D, space_char] @ message @ [newline]"

definition log_func :: "calendar_time \<Rightarrow> log_level \<Rightarrow> bytes \<Rightarrow> bytes \<Rightarrow> bytes" where
  "log_func t level message content = content @ log_line t level message"

datatype logger_error = Logger_No_Directory | Logger_Open_Failed

text \<open>The constructor: which directories can be created, which files opened, and the content that
  is appended to.\<close>

definition logger_new ::
  "(path \<Rightarrow> bool) \<Rightarrow> (path \<Rightarrow> bool) \<Rightarrow> path \<Rightarrow> bytes option \<Rightarrow> logger_error + bytes" where
  "logger_new creates opens p content =
     (if parent_path p \<noteq> [] \<and> \<not> creates (parent_path p) then Inl Logger_No_Directory
      else if \<not> opens p then Inl Logger_Open_Failed
      else Inr (case content of None \<Rightarrow> [] | Some old \<Rightarrow> old))"

text \<open>The lines that the threads log, in the order in which they took the mutex.\<close>

fun log_all :: "(calendar_time \<times> log_level \<times> bytes) list \<Rightarrow> bytes \<Rightarrow> bytes" where
  "log_all [] content = content"
| "log_all ((t, level, message) # calls) content = log_all calls (log_func t level message content)"

section \<open>The start-up program\<close>

record startup_files =
  config_file :: "bytes option"
  log_files :: "path \<Rightarrow> bytes option"
  test_wal :: "bytes option"

definition int_text :: "int \<Rightarrow> bytes" where
  "int_text i = (if i < 0 then [0x2D] else []) @ decimal (nat \<bar>i\<bar>)"

definition bool_text :: "bool \<Rightarrow> bytes" where
  "bool_text b = (if b then map of_char ''true'' else map of_char ''false'')"

definition record_text :: "recovered_record \<Rightarrow> bytes" where
  "record_text r =
     map of_char ''seq='' @ decimal (unat (rec_sequence r)) @ map of_char '' key='' @ rec_key r
     @ map of_char '' value='' @ rec_value r @ [newline]"

definition test_records :: "(bytes \<times> bytes) list" where
  "test_records =
     [(map of_char ''name'', map of_char ''Vishnu''), (map of_char ''language'', map of_char ''C++''),
      (map of_char ''project'', map of_char ''Chronos'')]"

fun put_records :: "crc_fn \<Rightarrow> (bytes \<times> bytes) list \<Rightarrow> wal \<Rightarrow> (kerror + unit) \<times> wal" where
  "put_records crc [] w = (Inr (), w)"
| "put_records crc ((key, val) # rs) w =
     (case wal_put crc Io_Complete key val w of
        (Inl err, w') \<Rightarrow> (Inl err, w')
      | (Inr _, w') \<Rightarrow> put_records crc rs w')"

text \<open>What the part on the log prints, whether it ended without an exception, and the file.\<close>

definition wal_test :: "crc_fn \<Rightarrow> bytes option \<Rightarrow> bytes \<times> bool \<times> bytes option" where
  "wal_test crc content =
     (case wal_open content of
        Inl err \<Rightarrow> ([], False, content)
      | Inr w \<Rightarrow>
          (case wal_recover crc w of
             (Inl err, w1) \<Rightarrow> ([], False, Some (wal_file w1))
           | (Inr recovered, w1) \<Rightarrow>
               let out = [newline] @ map of_char ''Recovered '' @ decimal (length recovered) @ map of_char '' WAL records''
                     @ [newline] @ concat (map record_text recovered);
                   (res, w2) = put_records crc test_records w1
               in case res of
                    Inl err \<Rightarrow> (out, False, Some (wal_file w2))
                  | Inr _ \<Rightarrow>
                      (out @ map of_char ''3 new WAL records written successfully'' @ [newline], True, Some (wal_file w2))))"

text \<open>
  \<open>main\<close>: the text it prints, whether it got to the end, and the files. An exception ends the
  program where it is thrown, with a message to the error stream; the exit status is 0 in any
  case. A setting is read after the text in front of it has been printed.
\<close>

definition kronos_main ::
  "crc_fn \<Rightarrow> calendar_time \<Rightarrow> (path \<Rightarrow> bool) \<Rightarrow> (path \<Rightarrow> bool) \<Rightarrow> startup_files \<Rightarrow> bytes \<times> bool \<times> startup_files" where
  "kronos_main crc t creates opens d =
     (case config_new (config_file d) of
        Inl err \<Rightarrow> ([], False, d)
      | Inr cfg \<Rightarrow>
          let out = [newline] @ map of_char ''Mem table size= ''
          in case get_memtable_size cfg of
               Inl err \<Rightarrow> (out, False, d)
             | Inr mb \<Rightarrow>
                 let out = out @ int_text mb @ [newline] @ map of_char ''Bloom filter status = ''
                 in case get_bloom_filter_enabled cfg of
                      Inl err \<Rightarrow> (out, False, d)
                    | Inr enabled \<Rightarrow>
                        let out = out @ bool_text enabled @ [newline] @ map of_char ''Log path= ''
                        in case get_log_path cfg of
                             Inl err \<Rightarrow> (out, False, d)
                           | Inr p \<Rightarrow>
                               let out = out @ p @ [newline]
                               in case logger_new creates opens p (log_files d p) of
                                    Inl err \<Rightarrow> (out, False, d)
                                  | Inr content \<Rightarrow>
                                      let d = d\<lparr>log_files := (log_files d)
                                            (p \<mapsto> log_func t Info (map of_char ''Testing info here'') content)\<rparr>;
                                          (out', ok, w) = wal_test crc (test_wal d)
                                      in (out @ out', ok, d\<lparr>test_wal := w\<rparr>))"

section \<open>Lemmas\<close>

text \<open>Whatever several threads log, the file holds complete lines, one for each call, after what
  was there before.\<close>

lemma log_all_lines:
  "log_all calls content = content @ concat (map (\<lambda>(t, level, message). log_line t level message) calls)"
  by (induction calls content rule: log_all.induct) (simp_all add: log_func_def)

lemma put_records_ok:
  assumes "wal_ok crc w rs" and "unat (next_sequence w) + length xs < 2 ^ 64" and "\<forall>(k, v)\<in>set xs. fits_record k v"
  shows "\<exists>w' rs'. put_records crc xs w = (Inr (), w') \<and> wal_ok crc w' (rs @ rs') \<and> length rs' = length xs
    \<and> map (\<lambda>r. (rec_operation r, rec_key r, rec_value r)) rs' = map (\<lambda>(k, v). (PUT, k, v)) xs
    \<and> unat (next_sequence w') = unat (next_sequence w) + length xs"
  using assms
proof (induction xs arbitrary: w rs)
  case (Cons x xs)
  obtain k v where x: "x = (k, v)" by fastforce
  have n: "next_sequence w \<noteq> max_u64" using Cons(3) by (auto simp: max_u64_def)
  have f: "fits_record k v" using Cons(4) x by simp
  let ?r = "new_record PUT k v (next_sequence w)"
  let ?w = "w\<lparr>wal_file := wal_file w @ wal_record crc ?r, wal_pos := length (wal_file w @ wal_record crc ?r),
      next_sequence := next_sequence w + 1\<rparr>"
  have put: "wal_put crc Io_Complete k v w = (Inr (next_sequence w), ?w)"
    unfolding wal_put_def using write_record_ok [OF Cons(2) n f, where io = Io_Complete and op = PUT] by simp
  have ok: "wal_ok crc ?w (rs @ [?r])" by (rule wal_ok_append [OF Cons(2) n f])
  have s: "unat (next_sequence ?w) = Suc (unat (next_sequence w))"
    using unat_u64_inc [OF n] by simp
  from Cons(1) [OF ok] Cons(3,4) s obtain w' rs' where
    "put_records crc xs ?w = (Inr (), w')" "wal_ok crc w' ((rs @ [?r]) @ rs')" "length rs' = length xs"
    "map (\<lambda>r. (rec_operation r, rec_key r, rec_value r)) rs' = map (\<lambda>(k, v). (PUT, k, v)) xs"
    "unat (next_sequence w') = unat (next_sequence ?w) + length xs" by auto
  then show ?case using put s x by (intro exI [of _ w'] exI [of _ "?r # rs'"]) simp
qed auto

lemma wal_test_run:
  assumes log: "content = Some (wal_header @ log_bytes crc rs) \<or> content = None \<and> rs = []"
    and wf: "wf_log rs" and room: "unat (next_after 0 rs) + 3 < 2 ^ 64"
  shows "\<exists>out rs'. wal_test crc content = (out, True, Some (wal_header @ log_bytes crc (rs @ rs'))) \<and> wf_log (rs @ rs')
    \<and> map (\<lambda>r. (rec_operation r, rec_key r, rec_value r)) rs' = map (\<lambda>(k, v). (PUT, k, v)) test_records"
proof -
  let ?w = "\<lparr>wal_file = wal_header @ log_bytes crc rs, wal_pos = length (wal_header @ log_bytes crc rs), next_sequence = 0\<rparr>"
  let ?w1 = "?w\<lparr>next_sequence := next_after 0 rs\<rparr>"
  have "wal_open content = Inr ?w" using log wal_open_log [of "log_bytes crc rs"] by (auto simp: wal_open_def)
  moreover have "wal_recover crc ?w = (Inr rs, ?w1)" using wal_recover_log [OF _ wf, of ?w crc] by simp
  moreover have "wal_ok crc ?w1 rs" using wf next_after_above [OF wf] by (auto simp: wal_ok_def)
  moreover have len: "length test_records = 3" "\<forall>(k, v)\<in>set test_records. fits_record k v"
    by (simp_all add: test_records_def fits_record_def)
  ultimately show ?thesis
    using put_records_ok [of crc ?w1 rs test_records] room
    by (auto simp: wal_test_def wal_ok_def Let_def)
qed

text \<open>A run with a complete configuration ends, adds one line to the log file and leaves the records
  of earlier runs and its own three in \<open>test.wal\<close>.\<close>

lemma kronos_main_run:
  assumes cfg: "config_new (config_file d) = Inr cfg" "get_memtable_size cfg = Inr mb" "get_bloom_filter_enabled cfg = Inr enabled"
      "get_log_path cfg = Inr p"
    and files: "creates (parent_path p)" "opens p"
    and log: "test_wal d = Some (wal_header @ log_bytes crc rs) \<or> test_wal d = None \<and> rs = []"
    and wf: "wf_log rs" and room: "unat (next_after 0 rs) + 3 < 2 ^ 64"
  shows "\<exists>out rs' d'. kronos_main crc t creates opens d = (out, True, d') \<and> config_file d' = config_file d
    \<and> log_files d' = (log_files d)(p \<mapsto> (case log_files d p of None \<Rightarrow> [] | Some old \<Rightarrow> old)
        @ log_line t Info (map of_char ''Testing info here''))
    \<and> test_wal d' = Some (wal_header @ log_bytes crc (rs @ rs')) \<and> wf_log (rs @ rs')
    \<and> map (\<lambda>r. (rec_operation r, rec_key r, rec_value r)) rs' = map (\<lambda>(k, v). (PUT, k, v)) test_records"
proof -
  obtain out rs' where w: "wal_test crc (test_wal d) = (out, True, Some (wal_header @ log_bytes crc (rs @ rs')))"
    "wf_log (rs @ rs')" "map (\<lambda>r. (rec_operation r, rec_key r, rec_value r)) rs' = map (\<lambda>(k, v). (PUT, k, v)) test_records"
    using wal_test_run [OF log wf room] by blast
  have "logger_new creates opens p (log_files d p) = Inr (case log_files d p of None \<Rightarrow> [] | Some old \<Rightarrow> old)"
    using files by (simp add: logger_new_def)
  then show ?thesis using cfg w by (auto simp: kronos_main_def log_func_def Let_def)
qed

end
