(* ===== verification/Wal_Reclaim.thy ===== *)
theory Wal_Reclaim
  imports Wal_Log Posix_Files
begin

text \<open>
  \<open>Wal::reclaimThrough\<close> and the creation of a log, system call by system call. A log is more than
  its descriptor here: \<open>fd_\<close> refers to a file that the path may no longer name, because the
  rename that installs the rewritten log comes before the new file is opened. The file at the path
  is what a restart finds; the descriptor is what appends go to.
\<close>

section \<open>State\<close>

text \<open>\<open>descriptor\<close> is the log as seen through \<open>fd_\<close>; \<open>at_path\<close> is the content of the file at
  the path when that is another file, and \<open>None\<close> when it is the file behind the descriptor.\<close>

record log_store =
  log_path :: path
  descriptor :: wal
  at_path :: "bytes option"
  temp_log :: "bytes option"

definition path_bytes :: "log_store \<Rightarrow> bytes" where
  "path_bytes d = (case at_path d of None \<Rightarrow> wal_file (descriptor d) | Some f \<Rightarrow> f)"

definition log_write ::
  "crc_fn \<Rightarrow> append_io \<Rightarrow> operation_type \<Rightarrow> bytes \<Rightarrow> bytes \<Rightarrow> log_store \<Rightarrow> (kerror + u64) \<times> log_store" where
  "log_write crc io op key val d =
     (let (r, w) = write_record crc io op key val (descriptor d) in (r, d\<lparr>descriptor := w\<rparr>))"

section \<open>Creating a log\<close>

text \<open>The constructor on a path that has no file: magic, version, \<open>fsync\<close> of the file and of its
  directory. When it throws, the file stays with what was written.\<close>

definition log_create ::
  "write_result list \<Rightarrow> sync_result list \<Rightarrow> (path \<Rightarrow> bool) \<Rightarrow> sync_result list \<Rightarrow> path \<Rightarrow> (kerror + log_store) option \<times> bytes" where
  "log_create writes syncs opens dsyncs p =
     (case write_chunks True [wal_magic, [wal_version]] writes of
        None \<Rightarrow> (None, [])
      | Some (False, written, _) \<Rightarrow> (Some (Inl Wal_Write_Failed), written)
      | Some (True, written, _) \<Rightarrow>
          (case sync_file Wal_Fsync_Failed syncs of
             None \<Rightarrow> (None, written)
           | Some (Inl err) \<Rightarrow> (Some (Inl err), written)
           | Some (Inr _) \<Rightarrow>
               (case fsync_parent_directory (Wal_Call_Failed Sync_Log_Directory) p opens dsyncs of
                  None \<Rightarrow> (None, written)
                | Some (Inl err) \<Rightarrow> (Some (Inl err), written)
                | Some (Inr _) \<Rightarrow>
                    (Some (Inr \<lparr>log_path = p,
                                descriptor = \<lparr>wal_file = written, wal_pos = length written, next_sequence = 0\<rparr>,
                                at_path = None, temp_log = None\<rparr>), written))))"

section \<open>Reclamation\<close>

text \<open>What the operating system answers to the calls of a reclamation.\<close>

record reclaim_calls =
  temp_opens :: bool
  temp_writes :: "write_result list"
  temp_syncs :: "sync_result list"
  temp_closes :: bool
  temp_renames :: bool
  log_reopens :: bool
  log_seeks :: bool
  directory_opens :: "path \<Rightarrow> bool"
  directory_syncs :: "sync_result list"

text \<open>The loop over the recovered records; the bytes it has written matter only when it ends well,
  because the handler of an exception removes the temporary file.\<close>

fun rewrite_loop ::
  "crc_fn \<Rightarrow> u64 \<Rightarrow> recovered_record list \<Rightarrow> write_result list \<Rightarrow> (kerror + bytes) option" where
  "rewrite_loop crc checkpoint [] rs = Some (Inr [])"
| "rewrite_loop crc checkpoint (r # records) rs =
     (if rec_sequence r \<le> checkpoint then rewrite_loop crc checkpoint records rs
      else if 2 ^ 32 - 1 < length (rec_key r) \<or> 2 ^ 32 - 1 < length (rec_value r)
      then Some (Inl Wal_Record_Too_Large)
      else
        case write_all True (wal_record crc r) rs of
          None \<Rightarrow> None
        | Some (False, _, _) \<Rightarrow> Some (Inl (Wal_Call_Failed Write_Temp_Log))
        | Some (True, written, rs') \<Rightarrow>
            (case rewrite_loop crc checkpoint records rs' of
               None \<Rightarrow> None
             | Some (Inl err) \<Rightarrow> Some (Inl err)
             | Some (Inr rest) \<Rightarrow> Some (Inr (written @ rest))))"

definition abandon :: "kerror \<Rightarrow> log_store \<Rightarrow> ((kerror + unit) \<times> log_store) option" where
  "abandon err d = Some (Inl err, d\<lparr>temp_log := None\<rparr>)"

text \<open>From the complete temporary file on. After the rename the path names the new file, while
  \<open>fd_\<close> still refers to the old one until the new file is open and positioned at its end.\<close>

definition install_log :: "reclaim_calls \<Rightarrow> bytes \<Rightarrow> log_store \<Rightarrow> ((kerror + unit) \<times> log_store) option" where
  "install_log calls new_log d =
     (case sync_file (Wal_Call_Failed Sync_Temp_Log) (temp_syncs calls) of
        None \<Rightarrow> None
      | Some (Inl err) \<Rightarrow> abandon err d
      | Some (Inr _) \<Rightarrow>
          if \<not> temp_closes calls then abandon (Wal_Call_Failed Close_Temp_Log) d
          else if \<not> temp_renames calls then abandon (Wal_Call_Failed Replace_Log) d
          else
            let d1 = d\<lparr>at_path := Some new_log, temp_log := None\<rparr>
            in if \<not> log_reopens calls then Some (Inl (Wal_Call_Failed Reopen_Log), d1)
               else if \<not> log_seeks calls then Some (Inl (Wal_Call_Failed Seek_Log), d1)
               else
                 let d2 = d1\<lparr>at_path := None,
                             descriptor := (descriptor d)\<lparr>wal_file := new_log, wal_pos := length new_log\<rparr>\<rparr>
                 in map_option (\<lambda>r. (r, d2))
                      (fsync_parent_directory (Wal_Call_Failed Sync_Log_Directory) (log_path d) (directory_opens calls)
                         (directory_syncs calls)))"

definition log_reclaim ::
  "crc_fn \<Rightarrow> reclaim_calls \<Rightarrow> u64 \<Rightarrow> log_store \<Rightarrow> ((kerror + unit) \<times> log_store) option" where
  "log_reclaim crc calls checkpoint d =
     (let allocator_before_reclaim = next_sequence (descriptor d);
          (res, w) = wal_recover crc (descriptor d)
      in case res of
           Inl err \<Rightarrow> Some (Inl err, d\<lparr>descriptor := w\<rparr>)
         | Inr records \<Rightarrow>
             let d1 = d\<lparr>descriptor := (if next_sequence w < allocator_before_reclaim
                                        then w\<lparr>next_sequence := allocator_before_reclaim\<rparr> else w)\<rparr>
             in if \<not> temp_opens calls then Some (Inl (Wal_Call_Failed Create_Temp_Log), d1)
                else
                  case write_chunks True [wal_magic, [wal_version]] (temp_writes calls) of
                    None \<Rightarrow> None
                  | Some (False, _, _) \<Rightarrow> abandon (Wal_Call_Failed Write_Temp_Log) d1
                  | Some (True, header, rs) \<Rightarrow>
                      (case rewrite_loop crc checkpoint records rs of
                         None \<Rightarrow> None
                       | Some (Inl err) \<Rightarrow> abandon err d1
                       | Some (Inr body) \<Rightarrow> install_log calls (header @ body) d1))"

section \<open>Lemmas\<close>

lemma wal_header_chunks: "concat [wal_magic, [wal_version]] = wal_header"
  by (simp add: wal_header_def)

lemma header_written:
  "write_chunks True [wal_magic, [wal_version]] rs = Some (ok, written, rs') \<Longrightarrow>
   \<exists>tail. wal_header = written @ tail \<and> (ok \<longleftrightarrow> tail = [])"
  by (drule write_chunks_prefix) (simp add: wal_header_def)

lemma rewrite_loop_records:
  "rewrite_loop crc checkpoint records rs = Some (Inr body) \<Longrightarrow> rewrite_records crc checkpoint records = Inr body"
proof (induction records arbitrary: rs body)
  case (Cons r records)
  then show ?case
    by (auto split: if_splits option.splits bool.splits sum.splits dest: write_all_prefix)
qed simp

text \<open>The calls that let a reclamation return, whatever they answer.\<close>

definition calls_return :: "nat \<Rightarrow> reclaim_calls \<Rightarrow> bool" where
  "calls_return n calls \<longleftrightarrow>
     n \<le> answers (temp_writes calls) \<and> (\<exists>r\<in>set (temp_syncs calls). r \<noteq> Sync_Interrupted)
     \<and> (\<exists>r\<in>set (directory_syncs calls). r \<noteq> Sync_Interrupted)"

lemma rewrite_loop_returns:
  "length (log_bytes crc records) \<le> answers rs \<Longrightarrow> rewrite_loop crc checkpoint records rs \<noteq> None"
proof (induction records arbitrary: rs)
  case (Cons r records)
  have "length (wal_record crc r) \<le> answers rs" using Cons.prems by simp
  then obtain ok w rs' where w: "write_all True (wal_record crc r) rs = Some (ok, w, rs')"
    "ok \<longrightarrow> answers rs \<le> answers rs' + length (wal_record crc r)"
    using write_all_returns by blast
  have skip: "rewrite_loop crc checkpoint records rs \<noteq> None" using Cons by simp
  show ?case
  proof (cases ok)
    case True
    then have "rewrite_loop crc checkpoint records rs' \<noteq> None" using w(2) Cons by (intro Cons.IH) simp
    then show ?thesis using skip w(1) True by (auto split: sum.splits)
  qed (use skip w(1) in simp)
qed simp

text \<open>A valid descriptor is not changed by the recovery that a reclamation starts with.\<close>

lemma log_reclaim_unfold:
  assumes ok: "wal_ok crc (descriptor d) rs"
  shows "log_reclaim crc calls checkpoint d =
     (if \<not> temp_opens calls then Some (Inl (Wal_Call_Failed Create_Temp_Log), d)
      else
        case write_chunks True [wal_magic, [wal_version]] (temp_writes calls) of
          None \<Rightarrow> None
        | Some (False, _, _) \<Rightarrow> abandon (Wal_Call_Failed Write_Temp_Log) d
        | Some (True, header, ws) \<Rightarrow>
            (case rewrite_loop crc checkpoint rs ws of
               None \<Rightarrow> None
             | Some (Inl err) \<Rightarrow> abandon err d
             | Some (Inr body) \<Rightarrow> install_log calls (header @ body) d))"
proof -
  have "next_after (next_sequence (descriptor d)) rs < next_sequence (descriptor d)
      \<or> next_after (next_sequence (descriptor d)) rs = next_sequence (descriptor d)"
    using next_after_le [of rs "next_sequence (descriptor d)"] ok by (auto simp: wal_ok_def)
  then show ?thesis
    by (elim disjE) (simp_all add: log_reclaim_def wal_ok_recover [OF ok] Let_def split: option.split sum.split bool.split
        del: write_chunks.simps)
qed

lemma install_log_returns:
  assumes "\<exists>r\<in>set (temp_syncs calls). r \<noteq> Sync_Interrupted" and "\<exists>r\<in>set (directory_syncs calls). r \<noteq> Sync_Interrupted"
  shows "install_log calls new_log d \<noteq> None"
proof -
  obtain r1 r2 where "sync_file (Wal_Call_Failed Sync_Temp_Log) (temp_syncs calls) = Some r1"
    "sync_directory_loop (Wal_Call_Failed Sync_Log_Directory) (directory_syncs calls) = Some r2"
    using sync_returns [OF assms(1)] sync_returns [OF assms(2)] by blast
  then show ?thesis by (cases r1) (simp_all add: install_log_def abandon_def fsync_parent_directory_def Let_def)
qed

lemma log_reclaim_returns:
  assumes ok: "wal_ok crc (descriptor d) rs" and calls: "calls_return (length (wal_file (descriptor d))) calls"
  shows "log_reclaim crc calls checkpoint d \<noteq> None"
proof -
  have size: "length (wal_file (descriptor d)) = length wal_header + length (log_bytes crc rs)"
    using ok by (simp add: wal_ok_def)
  then have "length (concat [wal_magic, [wal_version]]) \<le> answers (temp_writes calls)"
    using calls unfolding calls_return_def wal_header_chunks by simp
  from write_chunks_returns [OF this, of True] obtain good header ws where
    w: "write_chunks True [wal_magic, [wal_version]] (temp_writes calls) = Some (good, header, ws)"
      "good \<longrightarrow> answers (temp_writes calls) \<le> answers ws + length wal_header"
    unfolding wal_header_chunks by blast
  show ?thesis
  proof (cases good)
    case True
    then have "length (log_bytes crc rs) \<le> answers ws" using w(2) calls size by (simp add: calls_return_def)
    from rewrite_loop_returns [OF this] obtain body where "rewrite_loop crc checkpoint rs ws = Some body" by blast
    then show ?thesis using w(1) True calls install_log_returns [of calls]
      by (auto simp: log_reclaim_unfold [OF ok] abandon_def calls_return_def split: sum.split)
  qed (use w(1) in \<open>simp add: log_reclaim_unfold [OF ok] abandon_def\<close>)
qed

definition before_replacing :: "kerror \<Rightarrow> bool" where
  "before_replacing err \<longleftrightarrow>
     err \<noteq> Wal_Call_Failed Reopen_Log \<and> err \<noteq> Wal_Call_Failed Seek_Log \<and> err \<noteq> Wal_Call_Failed Sync_Log_Directory"

lemma rewrite_loop_error: "rewrite_loop crc checkpoint records rs = Some (Inl err) \<Longrightarrow> before_replacing err"
  by (induction records arbitrary: rs) (auto simp: before_replacing_def split: if_splits option.splits bool.splits sum.splits)

text \<open>How a reclamation can end: it gives up and the log is as before, the rename has happened but
  the descriptor could not follow, or the new log is installed.\<close>

lemma install_log_cases:
  assumes "install_log calls new_log d = Some (r, d')"
  obtains (kept) err where "r = Inl err" "before_replacing err" "d' = d\<lparr>temp_log := None\<rparr>"
    | (stale) "r = Inl (Wal_Call_Failed Reopen_Log) \<or> r = Inl (Wal_Call_Failed Seek_Log)"
        "d' = d\<lparr>at_path := Some new_log, temp_log := None\<rparr>"
    | (installed) "r = Inr () \<or> r = Inl (Wal_Call_Failed Sync_Log_Directory)"
        "d' = d\<lparr>descriptor := (descriptor d)\<lparr>wal_file := new_log, wal_pos := length new_log\<rparr>, at_path := None, temp_log := None\<rparr>"
  using assms sync_directory_cases [of "Wal_Call_Failed Sync_Log_Directory"] sync_file_cases [of "Wal_Call_Failed Sync_Temp_Log"]
  by (fastforce simp: install_log_def abandon_def before_replacing_def Let_def split: option.splits sum.splits if_splits)

lemma log_reclaim_cases:
  assumes ok: "wal_ok crc (descriptor d) rs" and run: "log_reclaim crc calls checkpoint d = Some (r, d')"
  defines "new_log \<equiv> wal_header @ log_bytes crc (filter (\<lambda>x. checkpoint < rec_sequence x) rs)"
  obtains (kept) err where "r = Inl err" "before_replacing err" "d' = d \<or> d' = d\<lparr>temp_log := None\<rparr>"
    | (stale) "r = Inl (Wal_Call_Failed Reopen_Log) \<or> r = Inl (Wal_Call_Failed Seek_Log)"
        "d' = d\<lparr>at_path := Some new_log, temp_log := None\<rparr>"
    | (installed) "r = Inr () \<or> r = Inl (Wal_Call_Failed Sync_Log_Directory)"
        "d' = d\<lparr>descriptor := (descriptor d)\<lparr>wal_file := new_log, wal_pos := length new_log\<rparr>, at_path := None, temp_log := None\<rparr>"
proof -
  have wf: "wf_log rs" using ok by (simp add: wal_ok_def)
  have "(\<exists>err. r = Inl err \<and> before_replacing err) \<and> (d' = d \<or> d' = d\<lparr>temp_log := None\<rparr>)
    \<or> (\<exists>header body ws. write_chunks True [wal_magic, [wal_version]] (temp_writes calls) = Some (True, header, ws)
        \<and> rewrite_loop crc checkpoint rs ws = Some (Inr body) \<and> install_log calls (header @ body) d = Some (r, d'))"
    using run unfolding log_reclaim_unfold [OF ok]
    by (auto simp: abandon_def before_replacing_def dest: rewrite_loop_error
        split: if_splits option.splits sum.splits bool.splits prod.splits)
  then show ?thesis
  proof (elim disjE exE conjE)
    fix header body ws
    assume w: "write_chunks True [wal_magic, [wal_version]] (temp_writes calls) = Some (True, header, ws)"
      and b: "rewrite_loop crc checkpoint rs ws = Some (Inr body)" and i: "install_log calls (header @ body) d = Some (r, d')"
    have "header = wal_header" using header_written [OF w] by auto
    moreover have "body = log_bytes crc (filter (\<lambda>x. checkpoint < rec_sequence x) rs)"
      using rewrite_loop_records [OF b] rewrite_records_log [OF wf, of crc checkpoint] by simp
    ultimately have i': "install_log calls new_log d = Some (r, d')" using i by (simp add: new_log_def)
    from i' show ?thesis by (cases rule: install_log_cases) (use kept stale installed in blast)+
  qed (use kept in auto)
qed

text \<open>Answers that take every record whole, and then let the calls fail as wished.\<close>

definition whole_writes :: "recovered_record list \<Rightarrow> write_result list" where
  "whole_writes rs = Wrote 4 # Wrote 1 # replicate (length rs) (Wrote (2 ^ 34))"

lemma rewrite_loop_whole:
  "wf_log rs \<Longrightarrow> rewrite_loop crc checkpoint rs (replicate (length rs + n) (Wrote (2 ^ 34)))
     = Some (Inr (log_bytes crc (filter (\<lambda>x. checkpoint < rec_sequence x) rs)))"
proof (induction rs arbitrary: n)
  case (Cons r rs)
  have wf: "wf_log rs" and fits: "length (rec_key r) < 2 ^ 32" "length (rec_value r) < 2 ^ 32"
    using Cons.prems by (auto simp: record_ok_def)
  have "write_all True (wal_record crc r) (Wrote (2 ^ 34) # ws) = Some (True, wal_record crc r, ws)" for ws
    using fits by (intro write_all_whole) simp_all
  then show ?case
    using Cons.IH [OF wf, of "Suc n"] Cons.IH [OF wf, of n] fits by (simp add: not_le not_less)
qed simp

lemma log_reclaim_whole:
  assumes ok: "wal_ok crc (descriptor d) rs" and calls: "temp_opens calls" "temp_writes calls = whole_writes rs"
  shows "log_reclaim crc calls checkpoint d =
    install_log calls (wal_header @ log_bytes crc (filter (\<lambda>x. checkpoint < rec_sequence x) rs)) d"
proof -
  have "write_chunks True [wal_magic, [wal_version]] (whole_writes rs) = Some (True, wal_header, replicate (length rs) (Wrote (2 ^ 34)))"
    by (simp add: whole_writes_def wal_magic_def wal_header_def)
  moreover have "wf_log rs" using ok by (simp add: wal_ok_def)
  ultimately show ?thesis
    using rewrite_loop_whole [of rs crc checkpoint 0] calls by (simp add: log_reclaim_unfold [OF ok] del: write_chunks.simps)
qed

end
