(* ===== verification/Wal_Reclaim_Properties.thy ===== *)
theory Wal_Reclaim_Properties
  imports Wal_Reclaim
begin

text \<open>
  What a failing system call of a reclamation, or of the creation of a log, leaves behind: for the
  process that goes on with the descriptor, and for the next one that opens the path.
\<close>

definition log_restart :: "crc_fn \<Rightarrow> log_store \<Rightarrow> kerror + recovered_record list" where
  "log_restart crc d = bind_res (wal_open (Some (path_bytes d))) (\<lambda>w. fst (wal_recover crc w))"

lemma log_restart_log:
  assumes "wf_log rs" and "path_bytes d = wal_header @ log_bytes crc rs"
  shows "log_restart crc d = Inr rs"
  using wal_recover_log [OF _ assms(1), of "\<lparr>wal_file = path_bytes d, wal_pos = length (path_bytes d), next_sequence = 0\<rparr>"]
  by (simp add: log_restart_def assms(2) wal_open_log)

section \<open>A log to start from\<close>

definition two_records :: "recovered_record list" where
  "two_records = [new_record PUT [1] [2, 3] 4, new_record DELETE [1] [] 7]"

definition example_log :: log_store where
  "example_log =
     \<lparr>log_path = map of_char ''db/WAL'',
      descriptor = \<lparr>wal_file = wal_header @ log_bytes sum_crc two_records, wal_pos = 51, next_sequence = 9\<rparr>,
      at_path = None, temp_log = None\<rparr>"

definition example_calls :: "bool \<Rightarrow> reclaim_calls" where
  "example_calls reopens =
     \<lparr>temp_opens = True, temp_writes = [Wrote 4, Write_Interrupted, Wrote 1, Wrote 100],
      temp_syncs = [Sync_Interrupted, Synced], temp_closes = True, temp_renames = True, log_reopens = reopens,
      log_seeks = True, directory_opens = (\<lambda>_. True), directory_syncs = [Sync_Unsupported]\<rparr>"

lemma example_log_ok: "wal_ok sum_crc (descriptor example_log) two_records" "at_path example_log = None"
  by (simp_all add: example_log_def two_records_def wal_ok_def record_ok_def fits_record_def max_u64_def)

lemma example_reclaim:
  "log_reclaim sum_crc (example_calls reopens) 4 example_log =
     Some (if reopens then (Inr (), example_log\<lparr>descriptor := \<lparr>wal_file = wal_header @ log_bytes sum_crc (tl two_records),
              wal_pos = length (wal_header @ log_bytes sum_crc (tl two_records)), next_sequence = 9\<rparr>\<rparr>)
           else (Inl (Wal_Call_Failed Reopen_Log), example_log\<lparr>at_path := Some (wal_header @ log_bytes sum_crc (tl two_records))\<rparr>))"
proof -
  have "write_chunks True [wal_magic, [wal_version]] [Wrote 4, Write_Interrupted, Wrote 1, Wrote 100]
      = Some (True, wal_header, [Wrote 100])"
    by (simp add: wal_magic_def wal_header_def)
  moreover have "rewrite_loop sum_crc 4 two_records [Wrote 100] = Some (Inr (log_bytes sum_crc (tl two_records)))"
    by (simp add: two_records_def write_all_whole)
  moreover have "fsync_parent_directory err (log_path example_log) (\<lambda>_. True) [Sync_Unsupported] = Some (Inr ())" for err
    by (simp add: fsync_parent_directory_def)
  ultimately show ?thesis
    by (simp add: log_reclaim_unfold [OF example_log_ok(1)] example_calls_def install_log_def Let_def del: write_chunks.simps)
      (simp add: example_log_def)
qed

section \<open>Failures of a reclamation\<close>



text \<open>A reclamation that fails to open the file it has just renamed into place leaves the
  descriptor on the old file, which no longer has a name. The next append succeeds and is
  acknowledged, but it goes to that file: opening the path afterwards gives only the records that
  the reclamation kept.\<close>

theorem reopen_failure_loses_acknowledged:
  assumes ok: "wal_ok crc (descriptor d) rs" and "at_path d = None"
    and run: "log_reclaim crc calls checkpoint d = Some (Inl (Wal_Call_Failed Reopen_Log), d1)"
    and "next_sequence (descriptor d) \<noteq> max_u64" and "fits_record key val"
  shows "\<exists>d2. log_write crc Io_Complete op key val d1 = (Inr (next_sequence (descriptor d)), d2)
    \<and> wal_ok crc (descriptor d2) (rs @ [new_record op key val (next_sequence (descriptor d))])
    \<and> log_restart crc d2 = Inr (filter (\<lambda>x. checkpoint < rec_sequence x) rs)"
proof -
  let ?kept = "filter (\<lambda>x. checkpoint < rec_sequence x) rs"
  have wf: "wf_log ?kept" using ok wf_log_filter by (auto simp: wal_ok_def)
  have d1: "d1 = d\<lparr>at_path := Some (wal_header @ log_bytes crc ?kept), temp_log := None\<rparr>"
    using ok run by (cases rule: log_reclaim_cases) (auto simp: before_replacing_def)
  obtain w where w: "write_record crc Io_Complete op key val (descriptor d) = (Inr (next_sequence (descriptor d)), w)"
    using write_record_ok [OF ok assms(4,5), of Io_Complete op] by auto
  have "wal_ok crc w (rs @ [new_record op key val (next_sequence (descriptor d))])"
    using wal_ok_append [OF ok assms(4,5), of op] write_record_ok [OF ok assms(4,5), of Io_Complete op] w by simp
  moreover have "log_restart crc (d1\<lparr>descriptor := w\<rparr>) = Inr ?kept"
    by (rule log_restart_log [OF wf]) (simp add: path_bytes_def d1)
  ultimately show ?thesis using w by (simp add: log_write_def d1)
qed

theorem reopen_failure_loses_acknowledged_witness:
  "\<exists>d1 d2. log_reclaim sum_crc (example_calls False) 4 example_log = Some (Inl (Wal_Call_Failed Reopen_Log), d1)
     \<and> log_write sum_crc Io_Complete PUT [1] [5] d1 = (Inr 9, d2)
     \<and> log_restart sum_crc d2 = Inr [new_record DELETE [1] [] 7]"
proof -
  have seq: "next_sequence (descriptor example_log) = 9" by (simp add: example_log_def)
  show ?thesis
    using reopen_failure_loses_acknowledged [OF example_log_ok example_reclaim [of False, unfolded if_False],
        of "[1]" "[5]" PUT] seq
    by (auto simp: example_reclaim two_records_def max_u64_def fits_record_def)
qed

section \<open>Failures of the creation\<close>

lemma torn_header:
  "n < 5 \<Longrightarrow> wal_open (Some (take n wal_header)) = Inl (if n < 4 then Wal_Magic_Unreadable else Wal_Version_Unreadable)"
proof -
  assume "n < 5"
  then consider "n = 0" | "n = 1" | "n = 2" | "n = 3" | "n = 4" by linarith
  then show ?thesis
    by cases (simp_all add: wal_open_def wal_header_def wal_magic_def read_up_to_def)
qed

text \<open>A log whose creation failed while its header was written, or died there, blocks every later
  start: the incomplete file stays at the path, and opening it is refused although no record was
  ever accepted. A failure to synchronise the file or its directory leaves a complete, empty log
  that opens.\<close>

theorem failed_creation:
  assumes run: "log_create writes syncs opens dsyncs p = (Some (Inl err), written)"
  shows "if err = Wal_Write_Failed
    then wal_open (Some written) = Inl (if length written < 4 then Wal_Magic_Unreadable else Wal_Version_Unreadable)
    else wal_open (Some written) = Inr \<lparr>wal_file = wal_header, wal_pos = 5, next_sequence = 0\<rparr>"
proof -
  obtain ok w rs where c: "write_chunks True [wal_magic, [wal_version]] writes = Some (ok, w, rs)" "written = w"
    using run by (auto simp: log_create_def simp del: write_chunks.simps split: option.splits prod.splits bool.splits sum.splits)
  from header_written [OF c(1)] obtain tail where tail: "wal_header = w @ tail" "ok \<longleftrightarrow> tail = []" by blast
  show ?thesis
  proof (cases ok)
    case True
    then have "written = wal_header" using tail c(2) by simp
    moreover have "err \<noteq> Wal_Write_Failed"
      using run c True sync_file_cases [of Wal_Fsync_Failed syncs]
        sync_directory_cases [of "Wal_Call_Failed Sync_Log_Directory" p opens dsyncs]
      by (auto simp: log_create_def simp del: write_chunks.simps split: option.splits sum.splits)
    ultimately show ?thesis using wal_open_log [of "[]"] by (simp add: wal_header_def wal_magic_def)
  next
    case False
    then have "err = Wal_Write_Failed" using run c by (simp add: log_create_def del: write_chunks.simps)
    moreover have "w = take (length w) wal_header" unfolding tail(1) by simp
    moreover have "length w < 5"
    proof -
      have "length wal_header = 5" by (simp add: wal_header_def wal_magic_def)
      then have "length w + length tail = 5" using tail(1) by (metis length_append)
      moreover have "0 < length tail" using tail(2) False by simp
      ultimately show ?thesis by linarith
    qed
    ultimately show ?thesis using torn_header [of "length w"] c(2) by simp
  qed
qed

theorem failed_creation_witness:
  "log_create [Wrote 3, Write_Error] [] (\<lambda>_. True) [] [0x57] = (Some (Inl Wal_Write_Failed), take 3 wal_header)
   \<and> wal_open (Some (take 3 wal_header)) = Inl Wal_Magic_Unreadable"
proof -
  have "log_create [Wrote 3, Write_Error] [] (\<lambda>_. True) [] [0x57] = (Some (Inl Wal_Write_Failed), take 3 wal_header)"
    by (simp add: log_create_def wal_header_def wal_magic_def)
  from failed_creation [OF this] this show ?thesis by (simp add: wal_header_def wal_magic_def)
qed

end
