(* ===== verification/Sstable_Publish.thy ===== *)
theory Sstable_Publish
  imports Posix_Files
begin

text \<open>
  How a finished table reaches its name, from src/src/sstable.cpp: the builder writes to a
  temporary file beside the table, synchronises and closes it, renames it and synchronises the
  directory. The bytes of the table are those of Sstable_Builder; here they are written in one
  sequence of \<open>write\<close> calls, which is where the code's several calls of \<open>write_all\<close> put them too.
\<close>

section \<open>Names\<close>

text \<open>\<open>path::replace_extension\<close> with \<open>.tmp\<close>. The extension of a file name starts at its last dot,
  unless that dot is its first character.\<close>

definition dot :: byte where "dot = 0x2E"

definition file_stem :: "bytes \<Rightarrow> bytes" where
  "file_stem name =
     (let before = dropWhile (\<lambda>c. c \<noteq> dot) (rev name)
      in if name = [dot, dot] \<or> length before \<le> 1 then name else rev (tl before))"

definition temp_table_path :: "path \<Rightarrow> path" where
  "temp_table_path p =
     (let name = rev (takeWhile (\<lambda>c. c \<noteq> slash) (rev p));
          directory = rev (dropWhile (\<lambda>c. c \<noteq> slash) (rev p))
      in directory @ file_stem name @ map of_char ''.tmp'')"

section \<open>The calls\<close>

record table_calls =
  table_opens :: bool
  table_writes :: "write_result list"
  table_syncs :: "sync_result list"
  table_closes :: bool
  table_renames :: bool
  table_directory_opens :: "path \<Rightarrow> bool"
  table_directory_syncs :: "sync_result list"

text \<open>From the opened temporary file to the table. Nothing removes the temporary file after an
  exception; the next builder for the path truncates it.\<close>

definition sstable_publish ::
  "table_calls \<Rightarrow> path \<Rightarrow> bytes \<Rightarrow> (path \<Rightarrow> bytes option) \<Rightarrow> ((kerror + unit) \<times> (path \<Rightarrow> bytes option)) option" where
  "sstable_publish calls p f fs =
     (if \<not> table_opens calls then Some (Inl (Sst_Call_Failed Create_Table), fs)
      else
        case write_all False f (table_writes calls) of
          None \<Rightarrow> None
        | Some (False, written, _) \<Rightarrow>
            Some (Inl (Sst_Call_Failed Write_Table), fs(temp_table_path p \<mapsto> written))
        | Some (True, written, _) \<Rightarrow>
            let fs1 = fs(temp_table_path p \<mapsto> written)
            in case sync_file (Sst_Call_Failed Sync_Table) (table_syncs calls) of
                 None \<Rightarrow> None
               | Some (Inl err) \<Rightarrow> Some (Inl err, fs1)
               | Some (Inr _) \<Rightarrow>
                   if \<not> table_closes calls then Some (Inl (Sst_Call_Failed Close_Table), fs1)
                   else if \<not> table_renames calls then Some (Inl (Sst_Call_Failed Rename_Table), fs1)
                   else
                     map_option (\<lambda>r. (r, (fs1(temp_table_path p := None))(p \<mapsto> written)))
                       (fsync_parent_directory (Sst_Call_Failed Sync_Table_Directory) p (table_directory_opens calls)
                          (table_directory_syncs calls)))"

section \<open>Lemmas\<close>

lemma dot_slash [simp]: "dot \<noteq> slash" "slash \<noteq> dot"
  by (simp_all add: dot_def slash_def)

lemma file_stem_extension:
  assumes "b \<noteq> []" "hd b \<noteq> dot" and "dot \<notin> set x"
  shows "file_stem (b @ dot # x) = b"
proof -
  have "dropWhile (\<lambda>c. c \<noteq> dot) (rev x @ dot # rev b) = dot # rev b" using assms(3) by (subst dropWhile_append2) auto
  moreover have "\<not> length (dot # rev b) \<le> 1" using assms(1) by simp
  moreover have "b @ dot # x \<noteq> [dot, dot]" using assms(1,2) by (cases b) auto
  ultimately show ?thesis by (simp add: file_stem_def)
qed

lemma temp_table_path_name:
  assumes "slash \<notin> set n" and "directory = [] \<or> last directory = slash"
  shows "temp_table_path (directory @ n) = directory @ file_stem n @ map of_char ''.tmp''"
proof -
  have n: "slash \<notin> set (rev n)" using assms(1) by simp
  have "takeWhile (\<lambda>c. c \<noteq> slash) (rev n @ rev directory) = rev n \<and> dropWhile (\<lambda>c. c \<noteq> slash) (rev n @ rev directory) = rev directory"
  proof (cases "directory = []")
    case False
    then obtain d where "rev directory = slash # d" using assms(2) by (metis append_butlast_last_id rev_append rev.simps rev_singleton_conv append_Cons append_Nil rev_swap)
    then show ?thesis using n by (subst takeWhile_append2, blast, subst dropWhile_append2, blast) simp
  qed (use n in \<open>auto simp: takeWhile_eq_all_conv\<close>)
  then show ?thesis by (simp add: temp_table_path_def Let_def)
qed

text \<open>How a publication can end: no trace, a temporary file that holds a prefix of the table, or the
  table under its name.\<close>

lemma sstable_publish_cases:
  assumes "sstable_publish calls p f fs = Some (r, fs')"
  obtains (unopened) "r = Inl (Sst_Call_Failed Create_Table)" "fs' = fs"
    | (unpublished) err written tail where "r = Inl err" "f = written @ tail" "fs' = fs(temp_table_path p \<mapsto> written)"
    | (published) "r = Inr () \<or> r = Inl (Sst_Call_Failed Sync_Table_Directory)" "fs' = fs(temp_table_path p := None, p \<mapsto> f)"
proof (cases "table_opens calls")
  case False
  then show ?thesis using assms unopened by (simp add: sstable_publish_def)
next
  case True
  obtain ok written rs where w: "write_all False f (table_writes calls) = Some (ok, written, rs)"
    using assms True by (auto simp: sstable_publish_def split: option.splits)
  obtain tail where tail: "f = written @ tail" "ok \<longleftrightarrow> tail = []" using write_all_prefix [OF w] by blast
  show ?thesis
  proof (cases "fs' = fs(temp_table_path p \<mapsto> written) \<and> (\<exists>err. r = Inl err)")
    case True
    then show ?thesis using unpublished tail by blast
  next
    case False
    then have "ok \<and> fs' = (fs(temp_table_path p \<mapsto> written, temp_table_path p := None))(p \<mapsto> written)
        \<and> fsync_parent_directory (Sst_Call_Failed Sync_Table_Directory) p (table_directory_opens calls) (table_directory_syncs calls) = Some r"
      using assms \<open>table_opens calls\<close> w
      by (cases ok) (auto simp: sstable_publish_def Let_def split: option.splits sum.splits if_splits)
    then show ?thesis using published tail sync_directory_cases by auto
  qed
qed

section \<open>Atomic publication\<close>

text \<open>C27: However the system calls of a table's builder end, the file at the table's name is the one
  that was there before or the complete table, never a part of it, and it is the table when the
  call returns normally; no file but that one and the temporary file beside it changes.\<close>

theorem sstable_publish_atomic:
  assumes "sstable_publish calls p f fs = Some (r, fs')" and "temp_table_path p \<noteq> p"
  shows "fs' p \<in> {fs p, Some f} \<and> (r = Inr () \<longrightarrow> fs' p = Some f \<and> fs' (temp_table_path p) = None)
    \<and> (\<forall>q. q \<noteq> p \<longrightarrow> q \<noteq> temp_table_path p \<longrightarrow> fs' q = fs q)"
  using assms(1) by (cases rule: sstable_publish_cases) (use assms(2) in auto)

text \<open>A table at \<open>d/a.sst\<close>, written in three calls, synchronised at the second attempt.\<close>

theorem sstable_publish_atomic_witness:
  "sstable_publish \<lparr>table_opens = True, table_writes = [Wrote 1, Wrote 2, Wrote 5], table_syncs = [Sync_Interrupted, Synced],
       table_closes = True, table_renames = True, table_directory_opens = (\<lambda>_. True), table_directory_syncs = [Synced]\<rparr>
     [0x64, 0x2F, 0x61, 0x2E, 0x73] [1, 2, 3, 4] (Map.empty([0x64, 0x2F, 0x61, 0x2E, 0x73] \<mapsto> [9]))
   = Some (Inr (), Map.empty([0x64, 0x2F, 0x61, 0x2E, 0x73] \<mapsto> [1, 2, 3, 4]))
   \<and> (Map.empty([0x64, 0x2F, 0x61, 0x2E, 0x73] \<mapsto> [1, 2, 3, 4])) [0x64, 0x2F, 0x61, 0x2E, 0x73] = Some [1, 2, 3, 4 :: byte]"
proof -
  let ?p = "[0x64, 0x2F, 0x61, 0x2E, 0x73]" and ?f = "[1, 2, 3, 4 :: byte]"
  let ?calls = "\<lparr>table_opens = True, table_writes = [Wrote 1, Wrote 2, Wrote 5], table_syncs = [Sync_Interrupted, Synced],
       table_closes = True, table_renames = True, table_directory_opens = (\<lambda>_. True), table_directory_syncs = [Synced]\<rparr>"
  have temp: "temp_table_path ?p = [0x64, 0x2F, 0x61, 0x2E, 0x74, 0x6D, 0x70]"
    by (simp add: temp_table_path_def file_stem_def slash_def dot_def Let_def)
  have run: "sstable_publish ?calls ?p ?f (Map.empty(?p \<mapsto> [9])) = Some (Inr (), Map.empty(?p \<mapsto> ?f))"
    unfolding sstable_publish_def temp by (simp add: fsync_parent_directory_def Let_def fun_eq_iff)
  have "temp_table_path ?p \<noteq> ?p" unfolding temp by simp
  from sstable_publish_atomic [OF run this] run show ?thesis by simp
qed

end
