(* ===== verification/Engine.thy ===== *)
theory Engine
  imports Memtable Wal Compaction_Policy Compactor Manifest Task_Queue
begin

text \<open>
  src/src/engine.cpp: the storage engine. Its state is the set of members of \<open>KronosEngine\<close>
  together with the table and manifest files of the database directory; the WAL file is part of
  the WAL component. Each definition here is one critical section of \<open>state_mutex_\<close>,
  \<open>manifest_mutex_\<close> or \<open>write_mutex_\<close>, or a whole call built from them; who may run when is
  the subject of Engine_Threads.

  A call that may throw after it has changed the state returns the exception or its result
  together with the new state. A critical section that waits on \<open>immutable_cleared_cv_\<close>
  because its condition does not hold yet is \<open>None\<close>, and so is a loop that does not end.
  A \<open>shared_ptr\<close> to a frozen memtable is the memtable: it is never changed again, and two frozen
  tables of one engine have different sequence numbers, so comparing contents is comparing
  pointers. Failures of the WAL's and the manifest's system calls are inputs; those of the table
  files and of a reclamation are in Engine_System_Calls.
\<close>

section \<open>State\<close>

record engine =
  db_path :: path
  memtable_target_bytes :: u64
  next_sstable_id :: u64
  engine_wal :: wal
  l0_trigger :: u64
  active_memtable :: "memtable option"
  immutable_memtable :: "memtable option"
  engine_manifest :: manifest
  flush_queue :: "memtable task_queue"
  background_error :: "kerror option"
  shutting_down :: bool
  sstable_readers :: "path \<Rightarrow> sstable_reader option"
  flush_count :: nat
  compaction_count :: nat
  engine_files :: file_system

definition sstable_block_size :: u64 where "sstable_block_size = 4096"
definition bloom_bits_per_key :: u64 where "bloom_bits_per_key = 10"

text \<open>\<open>db_path_ / name\<close>: a separator is inserted unless the directory ends with one.\<close>

definition path_join :: "path \<Rightarrow> bytes \<Rightarrow> path" where
  "path_join p name = (if p = [] \<or> last p = slash then p @ name else p @ [slash] @ name)"

section \<open>Writing\<close>

definition rotation_required :: "engine \<Rightarrow> bytes \<Rightarrow> internal_entry \<Rightarrow> bool" where
  "rotation_required e key candidate =
     (case active_memtable e of
        None \<Rightarrow> False
      | Some m \<Rightarrow> 0 < entry_count m \<and> would_exceed_target m key candidate)"

definition rotate_active :: "engine \<Rightarrow> (kerror + unit) \<times> engine" where
  "rotate_active e =
     (case active_memtable e of
        None \<Rightarrow> (Inl Engine_No_Active, e)
      | Some m \<Rightarrow>
          if immutable_memtable e \<noteq> None then (Inl Engine_Slot_Occupied, e)
          else if entry_count m = 0 then (Inr (), e)
          else
            let (ok, frozen) = memtable_freeze m
            in if \<not> ok then (Inl Engine_Freeze_Failed, e)
               else
                 let (pushed, q) = tq_push frozen (flush_queue e);
                     e' = e\<lparr>immutable_memtable := Some frozen,
                            active_memtable := Some (memtable_new (memtable_target_bytes e)),
                            flush_queue := q\<rparr>
                 in if pushed then (Inr (), e') else (Inl Engine_Queue_Rejected, e'))"

text \<open>One pass through \<open>prepareForWriteLocked\<close> under \<open>state_mutex_\<close>; \<open>None\<close> is the wait for
  the immutable slot, after which the conditions are examined again.\<close>

definition prepare_for_write :: "bytes \<Rightarrow> internal_entry \<Rightarrow> engine \<Rightarrow> ((kerror + unit) \<times> engine) option" where
  "prepare_for_write key candidate e =
     (if shutting_down e then Some (Inl Engine_Shutting_Down, e)
      else
        case background_error e of
          Some err \<Rightarrow> Some (Inl err, e)
        | None \<Rightarrow>
            if rotation_required e key candidate \<and> immutable_memtable e \<noteq> None then None
            else if rotation_required e key candidate then Some (rotate_active e)
            else Some (Inr (), e))"

definition write_candidate :: "operation_type \<Rightarrow> bytes \<Rightarrow> internal_entry" where
  "write_candidate op val =
     \<lparr>entry_value = (if op = PUT then val else []), entry_sequence = max_u64, entry_operation = op\<rparr>"

definition append_wal ::
  "crc_fn \<Rightarrow> append_io \<Rightarrow> operation_type \<Rightarrow> bytes \<Rightarrow> bytes \<Rightarrow> engine \<Rightarrow> (kerror + u64) \<times> engine" where
  "append_wal crc io op key val e =
     (let (res, w) = (if op = PUT then wal_put crc io key val (engine_wal e)
                      else wal_remove crc io key (engine_wal e))
      in (res, e\<lparr>engine_wal := w\<rparr>))"

definition insert_active :: "operation_type \<Rightarrow> bytes \<Rightarrow> bytes \<Rightarrow> u64 \<Rightarrow> engine \<Rightarrow> (kerror + unit) \<times> engine" where
  "insert_active op key val sequence e =
     (case active_memtable e of
        None \<Rightarrow> (Inl Engine_No_Active, e)
      | Some m \<Rightarrow>
          let (result, m') = (if op = PUT then memtable_put m key val sequence
                              else memtable_remove m key sequence);
              e' = e\<lparr>active_memtable := Some m'\<rparr>
          in if result \<noteq> WR_SUCCESS then (Inl Engine_Write_Rejected, e') else (Inr (), e'))"

text \<open>A whole \<open>put\<close> or \<open>remove\<close> that no other thread disturbs.\<close>

definition engine_write ::
  "crc_fn \<Rightarrow> append_io \<Rightarrow> operation_type \<Rightarrow> bytes \<Rightarrow> bytes \<Rightarrow> engine \<Rightarrow> ((kerror + unit) \<times> engine) option" where
  "engine_write crc io op key val e =
     (case prepare_for_write key (write_candidate op val) e of
        None \<Rightarrow> None
      | Some (Inl err, e1) \<Rightarrow> Some (Inl err, e1)
      | Some (Inr _, e1) \<Rightarrow>
          (case append_wal crc io op key val e1 of
             (Inl err, e2) \<Rightarrow> Some (Inl err, e2)
           | (Inr sequence, e2) \<Rightarrow> Some (insert_active op key val sequence e2)))"

definition engine_put :: "crc_fn \<Rightarrow> append_io \<Rightarrow> bytes \<Rightarrow> bytes \<Rightarrow> engine \<Rightarrow> ((kerror + unit) \<times> engine) option" where
  "engine_put crc io key val e = engine_write crc io PUT key val e"

definition engine_remove :: "crc_fn \<Rightarrow> append_io \<Rightarrow> bytes \<Rightarrow> engine \<Rightarrow> ((kerror + unit) \<times> engine) option" where
  "engine_remove crc io key e = engine_write crc io DELETE key [] e"

section \<open>Reading\<close>

definition get_sstable_reader :: "crc_fn \<Rightarrow> path \<Rightarrow> engine \<Rightarrow> (kerror + sstable_reader) \<times> engine" where
  "get_sstable_reader crc p e =
     (case sstable_readers e p of
        Some r \<Rightarrow> (Inr r, e)
      | None \<Rightarrow>
          (case engine_files e p of
             None \<Rightarrow> (Inl Sst_Open_Failed, e)
           | Some f \<Rightarrow>
               (case reader_open crc f of
                  Inl err \<Rightarrow> (Inl err, e)
                | Inr r \<Rightarrow> (Inr r, e\<lparr>sstable_readers := (sstable_readers e)(p \<mapsto> r)\<rparr>))))"

text \<open>The first critical section of \<open>get\<close>: the active memtable, then the snapshot of the
  immutable one, which may be read at any later time because it is frozen.\<close>

definition get_memory :: "bytes \<Rightarrow> engine \<Rightarrow> get_result option" where
  "get_memory key e =
     (case (case active_memtable e of None \<Rightarrow> None | Some m \<Rightarrow> memtable_lookup m key) of
        Some x \<Rightarrow> Some (result_of_entry (Some x))
      | None \<Rightarrow>
          (case immutable_memtable e of
             None \<Rightarrow> None
           | Some m \<Rightarrow>
               (case memtable_lookup m key of
                  Some x \<Rightarrow> Some (result_of_entry (Some x))
                | None \<Rightarrow> None)))"

fun search_tables ::
  "crc_fn \<Rightarrow> bytes \<Rightarrow> sstable_metadata list \<Rightarrow> internal_entry option \<Rightarrow> engine
   \<Rightarrow> (kerror + internal_entry option) \<times> engine" where
  "search_tables crc key [] winner e = (Inr winner, e)"
| "search_tables crc key (m # ms) winner e =
     (if key < md_smallest m \<or> md_largest m < key then search_tables crc key ms winner e
      else
        case get_sstable_reader crc (md_path m) e of
          (Inl err, e') \<Rightarrow> (Inl err, e')
        | (Inr r, e') \<Rightarrow>
            (case lookup_entry crc r key of
               Inl err \<Rightarrow> (Inl err, e')
             | Inr candidate \<Rightarrow> search_tables crc key ms (consider_newer winner candidate) e'))"

definition get_disk :: "crc_fn \<Rightarrow> bytes \<Rightarrow> sstable_metadata list \<Rightarrow> engine \<Rightarrow> (kerror + get_result) \<times> engine" where
  "get_disk crc key live e =
     (case search_tables crc key live None e of
        (Inl err, e') \<Rightarrow> (Inl err, e')
      | (Inr winner, e') \<Rightarrow> (Inr (result_of_entry winner), e'))"

definition engine_get :: "crc_fn \<Rightarrow> bytes \<Rightarrow> engine \<Rightarrow> (kerror + get_result) \<times> engine" where
  "engine_get crc key e =
     (case get_memory key e of
        Some r \<Rightarrow> (Inr r, e)
      | None \<Rightarrow> get_disk crc key (live_files (engine_manifest e)) e)"

section \<open>Table files\<close>

definition sstable_path :: "engine \<Rightarrow> u64 \<Rightarrow> u64 \<Rightarrow> path" where
  "sstable_path e level i =
     path_join (db_path e) (map of_char ''L'' @ decimal (unat level) @ map of_char ''-'' @ decimal (unat i) @ map of_char ''.sst'')"

partial_function (option) allocate_sstable_path :: "u64 \<Rightarrow> engine \<Rightarrow> (path \<times> engine) option" where
  "allocate_sstable_path level e =
     (let candidate = sstable_path e level (next_sstable_id e);
          e' = e\<lparr>next_sstable_id := next_sstable_id e + 1\<rparr>
      in if engine_files e candidate = None then Some (candidate, e')
         else allocate_sstable_path level e')"

definition metadata_for_sstable :: "crc_fn \<Rightarrow> file_system \<Rightarrow> path \<Rightarrow> u64 \<Rightarrow> kerror + sstable_metadata" where
  "metadata_for_sstable crc fs p level =
     (case fs p of
        None \<Rightarrow> Inl Sst_Open_Failed
      | Some f \<Rightarrow>
          bind_res (reader_open crc f) (\<lambda>r.
          bind_res (iterate_table crc r) (\<lambda>es.
          if es = [] then Inl Engine_Empty_Metadata
          else Inr (Sstable_Metadata p level (fst (hd es)) (fst (last es))))))"

section \<open>Flushing\<close>

text \<open>The largest sequence of a memtable: the loop starts at the first entry.\<close>

definition flushed_through :: "memtable_iterator \<Rightarrow> u64" where
  "flushed_through it = fold (\<lambda>(k, x) s. max s (entry_sequence x)) it (entry_sequence (snd (hd it)))"

text \<open>Building the table and committing it to the manifest.\<close>

definition flush_build ::
  "crc_fn \<Rightarrow> snapshot_io \<Rightarrow> memtable \<Rightarrow> engine \<Rightarrow> ((kerror + u64) \<times> engine) option" where
  "flush_build crc io m e =
     (if mt_state m \<noteq> MT_IMMUTABLE then Some (Inl Engine_Mutable_Flush, e)
      else if entry_count m = 0 then Some (Inl Engine_Empty_Flush, e)
      else
        Option.bind (allocate_sstable_path 0 e) (\<lambda>(output_path, e1).
        let it = memtable_iterate m
        in case sstable_build crc sstable_block_size bloom_bits_per_key it of
             Inl err \<Rightarrow> Some (Inl err, e1)
           | Inr f \<Rightarrow>
               let e2 = e1\<lparr>engine_files := (engine_files e1)(output_path \<mapsto> f)\<rparr>;
                   through = flushed_through it;
                   edit = \<lparr>remove_files = [],
                           add_files = [Sstable_Metadata output_path 0 (fst (hd it)) (fst (last it))],
                           edit_persisted_through = Some through\<rparr>
               in case apply_edit io edit (engine_manifest e2) (engine_files e2) of
                    (Inl err, fs) \<Rightarrow> Some (Inl err, e2\<lparr>engine_files := fs\<rparr>)
                  | (Inr man, fs) \<Rightarrow>
                      Some (Inr through, e2\<lparr>engine_files := fs, engine_manifest := man,
                                           flush_count := flush_count e2 + 1\<rparr>)))"

definition flush_clear :: "memtable \<Rightarrow> engine \<Rightarrow> (kerror + unit) \<times> engine" where
  "flush_clear m e =
     (if immutable_memtable e \<noteq> Some m then (Inl Engine_Not_Current_Immutable, e)
      else (Inr (), e\<lparr>immutable_memtable := None\<rparr>))"

definition flush_reclaim :: "crc_fn \<Rightarrow> u64 \<Rightarrow> engine \<Rightarrow> (kerror + unit) \<times> engine" where
  "flush_reclaim crc through e =
     (let (res, w) = reclaim_through crc through (engine_wal e) in (res, e\<lparr>engine_wal := w\<rparr>))"

section \<open>Compaction\<close>

fun metadata_for_all ::
  "crc_fn \<Rightarrow> file_system \<Rightarrow> u64 \<Rightarrow> path list \<Rightarrow> kerror + sstable_metadata list" where
  "metadata_for_all crc fs level [] = Inr []"
| "metadata_for_all crc fs level (p # ps) =
     bind_res (metadata_for_sstable crc fs p level) (\<lambda>m.
     bind_res (metadata_for_all crc fs level ps) (\<lambda>ms. Inr (m # ms)))"

text \<open>The rest of \<open>maybeCompact\<close> after its first critical section. Only the worker changes the
  manifest and the table files, so a write or a rotation in between does not change what it does.\<close>

definition run_compaction ::
  "'h heap_ops \<Rightarrow> crc_fn \<Rightarrow> snapshot_io \<Rightarrow> engine \<Rightarrow> ((kerror + unit) \<times> engine) option" where
  "run_compaction ops crc io e =
     (case pick_compaction (l0_trigger e) (live_files (engine_manifest e)) of
        Inl err \<Rightarrow> Some (Inl err, e)
      | Inr None \<Rightarrow> Some (Inr (), e)
      | Inr (Some plan) \<Rightarrow>
          Option.bind (allocate_sstable_path (output_level plan) e) (\<lambda>(output_path, e1).
          Option.bind (compact ops crc (engine_files e1) (map md_path (input_files plan)) output_path
              sstable_block_size bloom_bits_per_key (can_drop_tombstones plan)) (\<lambda>res.
          case res of
            Inl err \<Rightarrow> Some (Inl err, e1)
          | Inr (result, fs) \<Rightarrow>
              let e2 = e1\<lparr>engine_files := fs\<rparr>
              in case metadata_for_all crc fs (output_level plan) (result_output_files result) of
                   Inl err \<Rightarrow> Some (Inl err, e2)
                 | Inr added \<Rightarrow>
                     (case apply_edit io
                         \<lparr>remove_files = result_input_files result, add_files = added,
                          edit_persisted_through = None\<rparr> (engine_manifest e2) fs of
                        (Inl err, fs') \<Rightarrow> Some (Inl err, e2\<lparr>engine_files := fs'\<rparr>)
                      | (Inr man, fs') \<Rightarrow>
                          Some (Inr (), e2\<lparr>engine_files := fs', engine_manifest := man,
                                         compaction_count := compaction_count e2 + 1\<rparr>)))))"

definition maybe_compact ::
  "'h heap_ops \<Rightarrow> crc_fn \<Rightarrow> snapshot_io \<Rightarrow> engine \<Rightarrow> ((kerror + unit) \<times> engine) option" where
  "maybe_compact ops crc io e =
     (if immutable_memtable e \<noteq> None then Some (Inr (), e) else run_compaction ops crc io e)"

section \<open>The background worker\<close>

definition worker_failed :: "kerror \<Rightarrow> engine \<Rightarrow> engine" where
  "worker_failed err e =
     e\<lparr>background_error := (case background_error e of None \<Rightarrow> Some err | Some x \<Rightarrow> Some x),
       flush_queue := tq_shutdown (flush_queue e)\<rparr>"

text \<open>One task of the worker that no other thread disturbs; the result tells whether the loop goes
  on.\<close>

definition worker_task ::
  "'h heap_ops \<Rightarrow> crc_fn \<Rightarrow> memtable \<Rightarrow> engine \<Rightarrow> (bool \<times> engine) option" where
  "worker_task ops crc m e =
     (case flush_build crc Snapshot_Ok m e of
        None \<Rightarrow> None
      | Some (Inl err, e1) \<Rightarrow> Some (False, worker_failed err e1)
      | Some (Inr through, e1) \<Rightarrow>
          (case flush_clear m e1 of
             (Inl err, e2) \<Rightarrow> Some (False, worker_failed err e2)
           | (Inr _, e2) \<Rightarrow>
               (case flush_reclaim crc through e2 of
                  (Inl err, e3) \<Rightarrow> Some (False, worker_failed err e3)
                | (Inr _, e3) \<Rightarrow>
                    (case maybe_compact ops crc Snapshot_Ok e3 of
                       None \<Rightarrow> None
                     | Some (Inl err, e4) \<Rightarrow> Some (False, worker_failed err e4)
                     | Some (Inr _, e4) \<Rightarrow> Some (True, e4)))))"

section \<open>Opening a database\<close>

text \<open>\<open>validateManifestSstables\<close>.\<close>

fun validate_tables :: "crc_fn \<Rightarrow> file_system \<Rightarrow> sstable_metadata list \<Rightarrow> kerror + unit" where
  "validate_tables crc fs [] = Inr ()"
| "validate_tables crc fs (m # ms) =
     (case fs (md_path m) of
        None \<Rightarrow> Inl Engine_Missing_Sstable
      | Some f \<Rightarrow> bind_res (reader_open crc f) (\<lambda>_. validate_tables crc fs ms))"

text \<open>The replay loop of \<open>recover\<close>. The record type admits no third operation, so the last branch
  of the code's chain does not arise.\<close>

fun replay_records ::
  "u64 option \<Rightarrow> u64 option \<Rightarrow> recovered_record list \<Rightarrow> memtable \<Rightarrow> kerror + memtable" where
  "replay_records checkpoint previous [] m = Inr m"
| "replay_records checkpoint previous (r # rs) m =
     (if \<exists>p\<in>set_option previous. rec_sequence r \<le> p
      then Inl (Wal_Non_Increasing (the previous) (rec_sequence r))
      else if rec_sequence r = max_u64 then Inl Wal_Sequence_Exhausted
      else if \<exists>c\<in>set_option checkpoint. rec_sequence r \<le> c
      then replay_records checkpoint (Some (rec_sequence r)) rs m
      else
        let (result, m') =
          (if rec_operation r = PUT then memtable_put m (rec_key r) (rec_value r) (rec_sequence r)
           else memtable_remove m (rec_key r) (rec_sequence r))
        in if result \<noteq> WR_SUCCESS then Inl Engine_Replay_Rejected
           else replay_records checkpoint (Some (rec_sequence r)) rs m')"

definition engine_recover :: "crc_fn \<Rightarrow> engine \<Rightarrow> kerror + engine" where
  "engine_recover crc e =
     bind_res (validate_tables crc (engine_files e) (live_files (engine_manifest e))) (\<lambda>_.
     let (res, w) = wal_recover crc (engine_wal e); checkpoint = persisted_through (engine_manifest e)
     in bind_res res (\<lambda>records.
        bind_res (replay_records checkpoint None records (the (active_memtable e))) (\<lambda>m.
        case checkpoint of
          None \<Rightarrow> Inr (e\<lparr>engine_wal := w, active_memtable := Some m\<rparr>)
        | Some c \<Rightarrow>
            if c = max_u64 then Inl Wal_Sequence_Exhausted
            else Inr (e\<lparr>engine_wal := ensure_next_sequence_at_least (c + 1) w, active_memtable := Some m\<rparr>))))"

definition memtable_bytes_from_config :: "int \<Rightarrow> kerror + u64" where
  "memtable_bytes_from_config configured_mb =
     (if configured_mb \<le> 0 then Inl Engine_Memtable_Size
      else if (2 ^ 64 - 1) div (1024 * 1024) < configured_mb then Inl Engine_Memtable_Overflow
      else Inr (of_int (configured_mb * (1024 * 1024))))"

text \<open>The constructor, from the configured values, the content of the WAL file and the other files
  of the directory.\<close>

definition engine_new ::
  "crc_fn \<Rightarrow> int \<Rightarrow> u64 \<Rightarrow> path \<Rightarrow> bytes option \<Rightarrow> file_system \<Rightarrow> kerror + engine" where
  "engine_new crc configured_mb trigger p wal_content fs =
     (if p = [] then Inl Engine_Empty_Path
      else
        bind_res (memtable_bytes_from_config configured_mb) (\<lambda>target.
        bind_res (wal_open wal_content) (\<lambda>w.
        bind_res (policy_new trigger) (\<lambda>l0.
        let (res, fs') = manifest_new fs (path_join p (map of_char ''MANIFEST''))
        in bind_res res (\<lambda>man.
           engine_recover crc
             \<lparr>db_path = p, memtable_target_bytes = target, next_sstable_id = 1, engine_wal = w,
              l0_trigger = l0, active_memtable = Some (memtable_new target),
              immutable_memtable = None, engine_manifest = man, flush_queue = tq_new,
              background_error = None, shutting_down = False, sstable_readers = (\<lambda>_. None),
              flush_count = 0, compaction_count = 0, engine_files = fs'\<rparr>)))))"

section \<open>Shutdown\<close>

text \<open>The critical sections of \<open>shutdown\<close>: publishing the flag, which only the first call does;
  scheduling the final memtable once the slot is free or the worker has failed; and the report
  after the worker has been joined.\<close>

definition shutdown_begin :: "engine \<Rightarrow> bool \<times> engine" where
  "shutdown_begin e = (if shutting_down e then (False, e) else (True, e\<lparr>shutting_down := True\<rparr>))"

definition shutdown_schedule :: "engine \<Rightarrow> ((kerror + unit) \<times> engine) option" where
  "shutdown_schedule e =
     (if \<not> (immutable_memtable e = None \<or> background_error e \<noteq> None) then None
      else
        case active_memtable e of
          None \<Rightarrow> Some (Inr (), e)
        | Some m \<Rightarrow>
            if background_error e \<noteq> None \<or> entry_count m = 0 then Some (Inr (), e)
            else
              let (ok, frozen) = memtable_freeze m
              in if \<not> ok then Some (Inl Engine_Freeze_Failed, e)
                 else
                   let (pushed, q) = tq_push frozen (flush_queue e);
                       e' = e\<lparr>active_memtable := None, immutable_memtable := Some frozen, flush_queue := q\<rparr>
                   in if pushed then Some (Inr (), e') else Some (Inl Engine_Queue_Rejected, e'))"

definition shutdown_close :: "engine \<Rightarrow> engine" where
  "shutdown_close e = e\<lparr>flush_queue := tq_shutdown (flush_queue e)\<rparr>"

definition shutdown_report :: "kerror + unit \<Rightarrow> engine \<Rightarrow> kerror + unit" where
  "shutdown_report scheduled e =
     (case scheduled of
        Inl err \<Rightarrow> Inl err
      | Inr _ \<Rightarrow> (case background_error e of Some err \<Rightarrow> Inl err | None \<Rightarrow> Inr ()))"

end
