(* ===== verification/Engine_Inv.thy ===== *)
theory Engine_Inv
  imports Engine Compaction_Properties Manifest_Properties Wal_Log
begin

text \<open>
  The invariant of the engine and the abstract map it stands for. Three generations hold the
  versions of a key: the active memtable, the immutable one and the live tables. Sequence numbers
  order them, the manifest's checkpoint separates what the tables hold from what only memory and
  the WAL hold, and replaying the WAL records above the checkpoint gives back the memory.
\<close>

section \<open>Names of table files\<close>

definition table_name :: "bytes \<Rightarrow> bool" where
  "table_name n \<longleftrightarrow>
     n \<noteq> [] \<and> slash \<notin> set n \<and> hd n = of_char CHR ''L'' \<and> (\<exists>b. n = b @ map of_char ''.sst'')"

lemma path_join_inject [simp]: "path_join p n = path_join p n' \<longleftrightarrow> n = n'"
  by (auto simp: path_join_def)

lemma split_slash_no_slash: "slash \<notin> set n \<Longrightarrow> split_slash n = [n]"
  by (induction n) auto

lemma split_slash_not_Nil [simp]: "split_slash p \<noteq> []"
  by (induction p) auto

lemma split_slash_append: "split_slash (p @ slash # q) = split_slash p @ split_slash q"
  by (induction p) (auto simp: hd_append tl_append split: list.splits)

lemma path_elements_join:
  assumes "n \<noteq> []" and "slash \<notin> set n"
  shows "\<exists>pre. path_elements (path_join p n) = pre @ [n]"
proof -
  have last: "last n \<noteq> slash" using assms by (metis last_in_set)
  consider "p = []" | q where "path_join p n = q @ slash # n"
  proof (cases "p = []")
    case False
    show ?thesis
    proof (cases "last p = slash")
      case True
      then have "path_join p n = butlast p @ slash # n"
        using False by (simp add: path_join_def) (metis append.assoc append_Cons append_Nil append_butlast_last_id)
      then show ?thesis using that(2) by blast
    qed (use False that(2) in \<open>simp add: path_join_def\<close>)
  qed (use that in blast)
  then show ?thesis
  proof cases
    case 1
    then show ?thesis using assms last by (simp add: path_join_def path_elements_def split_slash_no_slash)
  next
    case 2
    then show ?thesis
      using assms last by (simp add: path_elements_def split_slash_append split_slash_no_slash Let_def)
  qed
qed

lemma path_eq_join:
  assumes "n \<noteq> []" "slash \<notin> set n" "n' \<noteq> []" "slash \<notin> set n'"
  shows "path_eq (path_join p n) (path_join p n') \<longleftrightarrow> n = n'"
proof
  assume "path_eq (path_join p n) (path_join p n')"
  then have "path_elements (path_join p n) = path_elements (path_join p n')" by (simp add: path_eq_def)
  then show "n = n'"
    using path_elements_join [OF assms(1,2), of p] path_elements_join [OF assms(3,4), of p]
    by (elim exE) simp
qed auto

lemma decimal_no_slash: "slash \<notin> set (decimal n)"
  using decimal_digits [of n] by (auto simp: list_all_iff slash_def is_digit_def)

lemma sstable_path_name: "\<exists>n. table_name n \<and> sstable_path e level i = path_join (db_path e) n"
proof -
  have "slash \<notin> set (map of_char ''L'') \<and> slash \<notin> set (map of_char ''-'') \<and> slash \<notin> set (map of_char ''.sst'')"
    by (simp add: slash_def)
  then have "table_name ((map of_char ''L'' @ decimal (unat level) @ map of_char ''-'' @ decimal (unat i)) @ map of_char ''.sst'')"
    using decimal_no_slash by (auto simp: table_name_def simp del: append_assoc)
  then show ?thesis by (auto simp: sstable_path_def)
qed

abbreviation manifest_file :: "path \<Rightarrow> path" where
  "manifest_file db \<equiv> path_join db (map of_char ''MANIFEST'')"

lemma table_name_not_manifest:
  assumes "table_name n"
  shows "path_join db n \<noteq> manifest_file db" and "path_join db n \<noteq> temporary_path (manifest_file db)"
proof -
  have t: "temporary_path (manifest_file db) = path_join db (map of_char ''MANIFEST'' @ map of_char ''.tmp'')"
    by (simp add: temporary_path_def path_join_def)
  show "path_join db n \<noteq> manifest_file db" using assms by (auto simp: table_name_def)
  show "path_join db n \<noteq> temporary_path (manifest_file db)"
    unfolding t path_join_inject using assms by (auto simp: table_name_def)
qed

lemma allocate_SomeD:
  "allocate_sstable_path level e = Some (p, e') \<Longrightarrow>
   (\<exists>i. e' = e\<lparr>next_sstable_id := i\<rparr>) \<and> engine_files e p = None \<and> (\<exists>n. table_name n \<and> p = path_join (db_path e) n)"
proof -
  assume a: "allocate_sstable_path level e = Some (p, e')"
  define P where "P l e r \<longleftrightarrow> (\<exists>i. snd r = e\<lparr>next_sstable_id := i\<rparr>) \<and> engine_files e (fst r) = None
    \<and> (\<exists>n. table_name n \<and> fst r = path_join (db_path e) n)" for l :: u64 and e :: engine and r :: "path \<times> engine"
  have "P level e (p, e')"
  proof (rule allocate_sstable_path.raw_induct [of P, OF _ a])
    fix f level e y
    assume IH: "\<And>level e y. f level e = Some y \<Longrightarrow> P level e y"
      and y: "(let candidate = sstable_path e level (next_sstable_id e); e' = e\<lparr>next_sstable_id := next_sstable_id e + 1\<rparr>
        in if engine_files e candidate = None then Some (candidate, e') else f level e') = Some y"
    show "P level e y"
    proof (cases "engine_files e (sstable_path e level (next_sstable_id e)) = None")
      case True
      then show ?thesis using y sstable_path_name [of e level "next_sstable_id e"] by (auto simp: P_def Let_def)
    next
      case False
      then show ?thesis using y IH [of level "e\<lparr>next_sstable_id := next_sstable_id e + 1\<rparr>" y] by (auto simp: P_def Let_def)
    qed
  qed
  then show ?thesis by (simp add: P_def)
qed

section \<open>What is on disk\<close>

definition table_entries :: "crc_fn \<Rightarrow> file_system \<Rightarrow> path \<Rightarrow> entries" where
  "table_entries crc fs p =
     (case fs p of
        None \<Rightarrow> []
      | Some f \<Rightarrow> (case table_scan crc f of Inl e \<Rightarrow> [] | Inr es \<Rightarrow> es))"

definition file_ok :: "crc_fn \<Rightarrow> path \<Rightarrow> file_system \<Rightarrow> sstable_metadata \<Rightarrow> bool" where
  "file_ok crc db fs m \<longleftrightarrow>
     (\<exists>es. input_holds crc fs (md_path m) es \<and> md_smallest m = fst (hd es) \<and> md_largest m = fst (last es))
     \<and> (\<exists>n. table_name n \<and> md_path m = path_join db n)"

lemma table_entries_holds: "input_holds crc fs p es \<Longrightarrow> table_entries crc fs p = es"
  using sst.iterate_content by (fastforce simp: table_entries_def input_holds_def)

lemma file_ok_entries:
  assumes "file_ok crc db fs m"
  shows "input_holds crc fs (md_path m) (table_entries crc fs (md_path m))"
    and "ascending (table_entries crc fs (md_path m))" and "table_entries crc fs (md_path m) \<noteq> []"
    and "md_smallest m = fst (hd (table_entries crc fs (md_path m)))"
    and "md_largest m = fst (last (table_entries crc fs (md_path m)))"
proof -
  obtain es where es: "input_holds crc fs (md_path m) es" "md_smallest m = fst (hd es)" "md_largest m = fst (last es)"
    using assms by (auto simp: file_ok_def)
  have h: "ascending es \<and> es \<noteq> []"
    using es(1) sst.content_ascending table_holds_fits(2) unfolding input_holds_def by blast
  show "input_holds crc fs (md_path m) (table_entries crc fs (md_path m))"
    "ascending (table_entries crc fs (md_path m))" "table_entries crc fs (md_path m) \<noteq> []"
    "md_smallest m = fst (hd (table_entries crc fs (md_path m)))"
    "md_largest m = fst (last (table_entries crc fs (md_path m)))"
    using es h by (simp_all add: table_entries_holds [OF es(1)])
qed

lemma ascending_bounds:
  fixes es :: entries
  assumes "ascending es" and "p \<in> set es"
  shows "fst (hd es) \<le> fst p \<and> fst p \<le> fst (last es)"
proof -
  obtain q es' where es: "es = q # es'" using assms(2) by (cases es) auto
  have lo: "fst q \<le> fst p" using assms by (auto simp: es intro: less_imp_le)
  have "es \<noteq> []" using es by simp
  then have l: "es = butlast es @ [last es]" by simp
  have "ascending (butlast es @ [last es])" using assms(1) l by simp
  then have "\<forall>x\<in>set (butlast es). fst x < fst (last es)" by (simp add: sorted_wrt_append)
  moreover have "p \<in> set (butlast es) \<or> p = last es" using assms(2) l by (metis Un_iff append_Nil list.set(1) list.set(2) set_append singletonD)
  ultimately have "fst p \<le> fst (last es)" by (auto intro: less_imp_le)
  then show ?thesis using lo es by simp
qed

lemma file_ok_range:
  assumes "file_ok crc db fs m" and "map_of (table_entries crc fs (md_path m)) k = Some x"
  shows "in_range k m"
  using ascending_bounds [OF file_ok_entries(2) [OF assms(1)], of "(k, x)"] assms(2)
    file_ok_entries(4,5) [OF assms(1)] by (simp add: in_range_def map_of_SomeD)

lemma file_ok_valid: "file_ok crc db fs m \<Longrightarrow> valid_range m"
  using file_ok_entries [of crc db fs m] ascending_bounds [of "table_entries crc fs (md_path m)" "hd (table_entries crc fs (md_path m))"]
  by (simp add: valid_range_def)

definition disk_versions :: "crc_fn \<Rightarrow> file_system \<Rightarrow> sstable_metadata list \<Rightarrow> bytes \<Rightarrow> internal_entry option list" where
  "disk_versions crc fs ms k = map (\<lambda>m. map_of (table_entries crc fs (md_path m)) k) ms"

abbreviation live :: "engine \<Rightarrow> sstable_metadata list" where
  "live e \<equiv> live_files (engine_manifest e)"

definition disk_view :: "crc_fn \<Rightarrow> engine \<Rightarrow> bytes \<Rightarrow> internal_entry option" where
  "disk_view crc e k = newest (disk_versions crc (engine_files e) (live e) k)"

lemma disk_versions_cong:
  "(\<And>m. m \<in> set ms \<Longrightarrow> fs' (md_path m) = fs (md_path m)) \<Longrightarrow> disk_versions crc fs' ms k = disk_versions crc fs ms k"
  by (simp add: disk_versions_def table_entries_def)

lemma file_ok_cong: "fs' (md_path m) = fs (md_path m) \<Longrightarrow> file_ok crc db fs' m \<longleftrightarrow> file_ok crc db fs m"
  by (simp add: file_ok_def input_holds_def)

section \<open>The abstract map\<close>

definition mem_of :: "memtable option \<Rightarrow> bytes \<Rightarrow> internal_entry option" where
  "mem_of mo = (case mo of None \<Rightarrow> Map.empty | Some m \<Rightarrow> memtable_lookup m)"

lemma mem_of_simps [simp]: "mem_of None = Map.empty" "mem_of (Some m) = memtable_lookup m"
  by (simp_all add: mem_of_def)

definition engine_view :: "crc_fn \<Rightarrow> engine \<Rightarrow> bytes \<Rightarrow> internal_entry option" where
  "engine_view crc e k =
     newest [mem_of (active_memtable e) k, mem_of (immutable_memtable e) k, disk_view crc e k]"

text \<open>The value a version stands for, and the answer of a lookup as such a value.\<close>

fun value_of :: "internal_entry option \<Rightarrow> bytes option" where
  "value_of None = None"
| "value_of (Some x) = (if entry_operation x = PUT then Some (entry_value x) else None)"

definition answer_value :: "get_result \<Rightarrow> bytes option" where
  "answer_value r = (if result_status r = FOUND then Some (result_value r) else None)"

lemma answer_of_entry [simp]: "answer_value (result_of_entry x) = value_of x"
proof (cases x)
  case (Some y)
  then show ?thesis by (cases "entry_operation y") (simp_all add: answer_value_def result_of_entry_def)
qed (simp add: answer_value_def result_of_entry_def)

definition logical_map :: "crc_fn \<Rightarrow> engine \<Rightarrow> bytes \<Rightarrow> bytes option" where
  "logical_map crc e k = value_of (engine_view crc e k)"

lemma value_of_surviving [simp]: "value_of (surviving d x) = value_of x"
proof (cases x)
  case (Some y)
  then show ?thesis by (cases "entry_operation y") auto
qed simp

section \<open>The invariant\<close>

definition covered :: "engine \<Rightarrow> nat" where
  "covered e = (case persisted_through (engine_manifest e) of None \<Rightarrow> 0 | Some c \<Rightarrow> Suc (unat c))"

definition all_from :: "(bytes \<Rightarrow> internal_entry option) \<Rightarrow> nat \<Rightarrow> bool" where
  "all_from f n \<longleftrightarrow> (\<forall>k x. f k = Some x \<longrightarrow> n \<le> unat (entry_sequence x))"

definition memory_ok :: "engine \<Rightarrow> bool" where
  "memory_ok e \<longleftrightarrow>
     (active_memtable e = None \<longrightarrow> shutting_down e)
     \<and> (\<forall>m. active_memtable e = Some m \<longrightarrow> memtable_inv m \<and> mt_state m = MT_MUTABLE)
     \<and> (\<forall>m. immutable_memtable e = Some m \<longrightarrow>
          memtable_inv m \<and> mt_state m = MT_IMMUTABLE \<and> mtable m \<noteq> [])"

definition tables_ok :: "crc_fn \<Rightarrow> engine \<Rightarrow> bool" where
  "tables_ok crc e \<longleftrightarrow>
     manifest_ok (engine_manifest e) \<and> manifest_path (engine_manifest e) = manifest_file (db_path e)
     \<and> manifest_load (engine_files e) (engine_manifest e) = Inr (engine_manifest e)
     \<and> levels_ok (live e) \<and> (\<forall>m\<in>set (live e). file_ok crc (db_path e) (engine_files e) m)
     \<and> (\<forall>k. versions_distinct (disk_versions crc (engine_files e) (live e) k))
     \<and> (\<forall>m\<in>set (live e). all_below (map_of (table_entries crc (engine_files e) (md_path m))) (covered e))"

definition cache_ok :: "crc_fn \<Rightarrow> engine \<Rightarrow> bool" where
  "cache_ok crc e \<longleftrightarrow>
     (\<forall>p r. sstable_readers e p = Some r \<longrightarrow>
        (\<exists>f. engine_files e p = Some f \<and> reader_open crc f = Inr r)
        \<and> (\<exists>n. table_name n \<and> p = path_join (db_path e) n))"

text \<open>The immutable memtable is either not committed yet, or already covered by the tables.\<close>

definition immutable_committed :: "crc_fn \<Rightarrow> engine \<Rightarrow> bool" where
  "immutable_committed crc e \<longleftrightarrow>
     (\<forall>k x. mem_of (immutable_memtable e) k = Some x \<longrightarrow>
        unat (entry_sequence x) < covered e \<and> disk_view crc e k = Some x)"

definition order_ok :: "crc_fn \<Rightarrow> nat \<Rightarrow> engine \<Rightarrow> bool" where
  "order_ok crc fresh e \<longleftrightarrow>
     (all_from (mem_of (immutable_memtable e)) (covered e) \<or> immutable_committed crc e)
     \<and> (\<exists>n. covered e \<le> n \<and> n \<le> fresh \<and> all_below (mem_of (immutable_memtable e)) n
          \<and> all_from (mem_of (active_memtable e)) n)
     \<and> all_below (mem_of (active_memtable e)) fresh"

text \<open>Replaying a log into an empty map, and a record that is in the log but not in memory yet.\<close>

definition entry_of :: "recovered_record \<Rightarrow> internal_entry" where
  "entry_of r = written_entry (rec_operation r) (rec_value r) (rec_sequence r)"

definition replay_map :: "recovered_record list \<Rightarrow> bytes \<Rightarrow> internal_entry option" where
  "replay_map rs = fold (\<lambda>r f. f(rec_key r \<mapsto> entry_of r)) rs Map.empty"

definition with_pending ::
  "recovered_record option \<Rightarrow> (bytes \<Rightarrow> internal_entry option) \<Rightarrow> bytes \<Rightarrow> internal_entry option" where
  "with_pending pend f = (case pend of None \<Rightarrow> f | Some r \<Rightarrow> f(rec_key r \<mapsto> entry_of r))"

definition above :: "nat \<Rightarrow> (bytes \<Rightarrow> internal_entry option) \<Rightarrow> bytes \<Rightarrow> internal_entry option" where
  "above c f k =
     (case f k of None \<Rightarrow> None | Some x \<Rightarrow> if c \<le> unat (entry_sequence x) then Some x else None)"

definition log_ok :: "crc_fn \<Rightarrow> recovered_record option \<Rightarrow> engine \<Rightarrow> bool" where
  "log_ok crc pend e \<longleftrightarrow>
     (\<exists>rs. wal_ok crc (engine_wal e) rs
        \<and> replay_map (filter (\<lambda>r. covered e \<le> unat (rec_sequence r)) rs) =
            with_pending pend (above (covered e) (mem_of (immutable_memtable e)) ++ mem_of (active_memtable e)))"

definition fresh_sequence :: "recovered_record option \<Rightarrow> engine \<Rightarrow> nat" where
  "fresh_sequence pend e =
     (case pend of None \<Rightarrow> unat (next_sequence (engine_wal e)) | Some r \<Rightarrow> unat (rec_sequence r))"

definition engine_inv :: "crc_fn \<Rightarrow> recovered_record option \<Rightarrow> engine \<Rightarrow> bool" where
  "engine_inv crc pend e \<longleftrightarrow>
     memory_ok e \<and> tables_ok crc e \<and> cache_ok crc e \<and> order_ok crc (fresh_sequence pend e) e \<and> log_ok crc pend e
     \<and> (\<forall>r. pend = Some r \<longrightarrow> unat (next_sequence (engine_wal e)) = Suc (unat (rec_sequence r)))"

end
