(* ===== verification/Engine_Phases.thy ===== *)
theory Engine_Phases
  imports Engine_Inv
begin

text \<open>
  Every critical section of the engine keeps the invariant, and what it does to the abstract map:
  a write sets one key, everything else leaves the map as it is.
\<close>

section \<open>The view of a key\<close>

lemma newest_two: "newest [a, b, c] = consider_newer a (consider_newer b c)"
  by simp

lemma consider_newer_left: "(\<And>x y. a = Some x \<Longrightarrow> b = Some y \<Longrightarrow> entry_sequence y \<le> entry_sequence x) \<Longrightarrow>
  consider_newer a b = (case a of None \<Rightarrow> b | Some x \<Rightarrow> Some x)"
  by (cases a; cases b) (auto simp: not_less [symmetric])

lemma disk_view_below: "tables_ok crc e \<Longrightarrow> all_below (disk_view crc e) (covered e)"
  unfolding all_below_def
proof (intro allI impI)
  fix k x assume t: "tables_ok crc e" and x: "disk_view crc e k = Some x"
  then have "Some x \<in> set (disk_versions crc (engine_files e) (live e) k)"
    using newest_SomeD by (auto simp: disk_view_def)
  then obtain m where "m \<in> set (live e)" "map_of (table_entries crc (engine_files e) (md_path m)) k = Some x"
    by (auto simp: disk_versions_def)
  then show "unat (entry_sequence x) < covered e" using t unfolding tables_ok_def all_below_def by blast
qed

lemma engine_view_layers:
  assumes "tables_ok crc e" and "order_ok crc fresh e"
  shows "engine_view crc e = disk_view crc e ++ mem_of (immutable_memtable e) ++ mem_of (active_memtable e)"
proof
  fix k
  let ?a = "mem_of (active_memtable e) k" and ?i = "mem_of (immutable_memtable e) k" and ?d = "disk_view crc e k"
  obtain n where n: "covered e \<le> n" "all_below (mem_of (immutable_memtable e)) n" "all_from (mem_of (active_memtable e)) n"
    using assms(2) by (auto simp: order_ok_def)
  have d: "unat (entry_sequence y) < covered e" if "?d = Some y" for y
    using disk_view_below [OF assms(1)] that by (simp add: all_below_def)
  have i: "entry_sequence y \<le> entry_sequence x" if "?i = Some x" "?d = Some y" for x y
  proof (cases "all_from (mem_of (immutable_memtable e)) (covered e)")
    case True
    then have "covered e \<le> unat (entry_sequence x)" using that(1) by (simp add: all_from_def)
    then show ?thesis using d [OF that(2)] by (simp add: word_le_nat_alt)
  next
    case False
    then have "?d = Some x" using assms(2) that(1) by (simp add: order_ok_def immutable_committed_def)
    then show ?thesis using that(2) by simp
  qed
  have a: "entry_sequence y \<le> entry_sequence x" if "?a = Some x" "?i = Some y \<or> ?d = Some y" for x y
  proof -
    have "unat (entry_sequence y) < n"
      using that(2) d [of y] n(1,2) unfolding all_below_def by (elim disjE) (blast, simp)
    moreover have "n \<le> unat (entry_sequence x)" using that(1) n(3) by (simp add: all_from_def)
    ultimately show ?thesis by (simp add: word_le_nat_alt)
  qed
  have "consider_newer ?i ?d = (case ?i of None \<Rightarrow> ?d | Some x \<Rightarrow> Some x)" by (rule consider_newer_left) (rule i)
  moreover have "consider_newer ?a (consider_newer ?i ?d) = (case ?a of None \<Rightarrow> consider_newer ?i ?d | Some x \<Rightarrow> Some x)"
  proof (rule consider_newer_left)
    fix x y assume "?a = Some x" "consider_newer ?i ?d = Some y"
    then show "entry_sequence y \<le> entry_sequence x" using a consider_newer_Some by blast
  qed
  ultimately show "engine_view crc e k = (disk_view crc e ++ mem_of (immutable_memtable e) ++ mem_of (active_memtable e)) k"
    by (simp add: engine_view_def map_add_def split: option.splits)
qed

text \<open>What a section that leaves manifest and files alone does not change.\<close>

lemma disk_view_same:
  "engine_manifest e' = engine_manifest e \<Longrightarrow> engine_files e' = engine_files e \<Longrightarrow> disk_view crc e' = disk_view crc e"
  by (intro ext) (simp add: disk_view_def)

lemma covered_same: "engine_manifest e' = engine_manifest e \<Longrightarrow> covered e' = covered e"
  by (simp add: covered_def)

lemma fresh_sequence_same: "engine_wal e' = engine_wal e \<Longrightarrow> fresh_sequence pend e' = fresh_sequence pend e"
  by (cases pend) (simp_all add: fresh_sequence_def)

lemma tables_ok_same:
  "tables_ok crc e \<Longrightarrow> engine_manifest e' = engine_manifest e \<Longrightarrow> engine_files e' = engine_files e \<Longrightarrow>
   db_path e' = db_path e \<Longrightarrow> tables_ok crc e'"
  by (simp add: tables_ok_def covered_def)

lemma cache_ok_same:
  "cache_ok crc e \<Longrightarrow> sstable_readers e' = sstable_readers e \<Longrightarrow> engine_files e' = engine_files e \<Longrightarrow>
   db_path e' = db_path e \<Longrightarrow> cache_ok crc e'"
  by (simp add: cache_ok_def)

lemma all_simps [simp]:
  "all_below Map.empty n" "all_from Map.empty n"
  by (simp_all add: all_below_def all_from_def)

lemma all_from_mono: "all_from f n \<Longrightarrow> m \<le> n \<Longrightarrow> all_from f m"
  by (meson all_from_def order_trans)

lemma all_below_mono: "all_below f n \<Longrightarrow> n \<le> m \<Longrightarrow> all_below f m"
  by (meson all_below_def less_le_trans)

lemma above_all_from: "all_from f c \<Longrightarrow> above c f = f"
  by (auto simp: above_def all_from_def fun_eq_iff split: option.splits)

lemma above_all_below: "all_below f c \<Longrightarrow> above c f = Map.empty"
  by (intro ext) (fastforce simp: above_def all_below_def split: option.splits dest: leD)

lemma above_empty [simp]: "above c Map.empty = Map.empty"
  by (simp add: above_def fun_eq_iff)

lemma engine_invD:
  assumes "engine_inv crc pend e"
  shows "memory_ok e" "tables_ok crc e" "cache_ok crc e" "order_ok crc (fresh_sequence pend e) e" "log_ok crc pend e"
  using assms by (simp_all add: engine_inv_def)

lemma engine_inv_layers:
  "engine_inv crc pend e \<Longrightarrow>
   engine_view crc e = disk_view crc e ++ mem_of (immutable_memtable e) ++ mem_of (active_memtable e)"
  using engine_view_layers engine_invD(2,4) by blast

section \<open>Rotation\<close>

lemma memtable_lookup_new [simp]: "memtable_lookup (memtable_new t) = Map.empty"
  by (simp add: memtable_lookup_def memtable_new_def fun_eq_iff)

text \<open>Freezing the active memtable into the empty slot, with a new active memtable or, when the engine
  shuts down, none.\<close>

abbreviation frozen :: "memtable \<Rightarrow> memtable" where
  "frozen m \<equiv> m\<lparr>mt_state := MT_IMMUTABLE\<rparr>"

lemma freeze_inv:
  assumes inv: "engine_inv crc None e" and m: "active_memtable e = Some m" and i: "immutable_memtable e = None"
    and ne: "0 < entry_count m" and a: "a = Some (memtable_new t) \<or> a = None \<and> shutting_down e"
    and e': "e' = e\<lparr>immutable_memtable := Some (frozen m), active_memtable := a, flush_queue := q\<rparr>"
  shows "engine_inv crc None e'" and "engine_view crc e' = engine_view crc e"
    and "all_from (mem_of (immutable_memtable e')) (covered e')"
proof -
  note d = engine_invD [OF inv]
  have l: "memtable_lookup (frozen m) = memtable_lookup m" by (simp add: memtable_lookup_def fun_eq_iff)
  have empty: "mem_of a = Map.empty" using a by auto
  have c: "covered e' = covered e" "fresh_sequence None e' = fresh_sequence None e"
    by (simp_all add: covered_def fresh_sequence_def e')
  obtain n where n: "covered e \<le> n" "n \<le> fresh_sequence None e" "all_from (memtable_lookup m) n"
    "all_below (memtable_lookup m) (fresh_sequence None e)"
    using d(4) m i by (auto simp: order_ok_def)
  have from_c: "all_from (memtable_lookup m) (covered e)" using all_from_mono [OF n(3,1)] .
  then show "all_from (mem_of (immutable_memtable e')) (covered e')" by (simp add: e' l c [unfolded e'])
  have mem: "memory_ok e'"
    using d(1) m ne a by (auto simp: memory_ok_def memtable_inv_def memtable_new_def entry_count_def e')
  have tab: "tables_ok crc e'" and cache: "cache_ok crc e'"
    using tables_ok_same [OF d(2)] cache_ok_same [OF d(3)] by (simp_all add: e')
  have "covered e \<le> fresh_sequence None e" using n(1,2) by simp
  then have ord: "order_ok crc (fresh_sequence None e') e'"
    unfolding order_ok_def c using from_c n by (auto simp: l e' empty intro!: exI [of _ "fresh_sequence None e"])
  have log: "log_ok crc None e'"
    using d(5) from_c m i unfolding log_ok_def c
    by (simp add: l with_pending_def above_all_from e' empty)
  show "engine_inv crc None e'" using mem tab cache ord log by (simp add: engine_inv_def)
  show "engine_view crc e' = engine_view crc e"
    unfolding engine_view_layers [OF tab ord] engine_inv_layers [OF inv]
    using disk_view_same [of e' e crc] by (simp add: l m i e' empty)
qed

lemma rotate_cases:
  assumes "memory_ok e" and "active_memtable e = Some m" and "immutable_memtable e = None" and "0 < entry_count m"
  shows "snd (rotate_active e) = e\<lparr>immutable_memtable := Some (frozen m),
      active_memtable := Some (memtable_new (memtable_target_bytes e)),
      flush_queue := snd (tq_push (frozen m) (flush_queue e))\<rparr>"
    and "fst (rotate_active e) =
      (if fst (tq_push (frozen m) (flush_queue e)) then Inr () else Inl Engine_Queue_Rejected)"
  using assms
  by (auto simp: rotate_active_def memory_ok_def memtable_freeze_def Let_def split: prod.splits)

lemma rotate_inv:
  assumes inv: "engine_inv crc None e" and m: "active_memtable e = Some m" and i: "immutable_memtable e = None"
    and "0 < entry_count m"
  shows "engine_inv crc None (snd (rotate_active e))" and "engine_view crc (snd (rotate_active e)) = engine_view crc e"
    and "all_from (mem_of (immutable_memtable (snd (rotate_active e)))) (covered (snd (rotate_active e)))"
  using freeze_inv [OF inv m i assms(4) _ rotate_cases(1) [OF engine_invD(1) [OF inv] m i assms(4)]] by blast+

lemma prepare_inv:
  assumes inv: "engine_inv crc None e" and "prepare_for_write key cand e = Some (res, e')"
  shows "engine_inv crc None e' \<and> engine_view crc e' = engine_view crc e"
proof (cases "shutting_down e \<or> background_error e \<noteq> None \<or> \<not> rotation_required e key cand")
  case True
  then have "e' = e" using assms(2) by (auto simp: prepare_for_write_def split: if_splits option.splits)
  then show ?thesis using inv by simp
next
  case False
  then have r: "rotation_required e key cand" and i: "immutable_memtable e = None"
    and e': "rotate_active e = (res, e')"
    using assms(2) by (auto simp: prepare_for_write_def split: if_splits)
  obtain m where "active_memtable e = Some m" "0 < entry_count m"
    using r by (auto simp: rotation_required_def split: option.splits)
  from rotate_inv [OF inv this(1) i this(2)] show ?thesis unfolding e' by simp
qed

section \<open>Appending to the log\<close>

abbreviation stored_value :: "operation_type \<Rightarrow> bytes \<Rightarrow> bytes" where
  "stored_value op val \<equiv> if op = PUT then val else []"

lemma append_wal_write:
  "append_wal crc io op key val e =
     (let (res, w) = write_record crc io op key (stored_value op val) (engine_wal e) in (res, e\<lparr>engine_wal := w\<rparr>))"
  by (cases op) (simp_all add: append_wal_def wal_put_def wal_remove_def)

lemma replay_map_snoc: "replay_map (rs @ [r]) = (replay_map rs)(rec_key r \<mapsto> entry_of r)"
  by (simp add: replay_map_def)

lemma append_wal_inv:
  assumes inv: "engine_inv crc None e" and app: "append_wal crc Io_Complete op key val e = (res, e')"
  shows "case res of
      Inr sequence \<Rightarrow> sequence = next_sequence (engine_wal e)
        \<and> (\<exists>w. e' = e\<lparr>engine_wal := w\<rparr>) \<and> engine_view crc e' = engine_view crc e
        \<and> engine_inv crc (Some (new_record op key (stored_value op val) sequence)) e'
    | Inl err \<Rightarrow> e' = e"
proof -
  note d = engine_invD [OF inv]
  obtain rs where w: "wal_ok crc (engine_wal e) rs" and rs:
    "replay_map (filter (\<lambda>r. covered e \<le> unat (rec_sequence r)) rs) =
      above (covered e) (mem_of (immutable_memtable e)) ++ mem_of (active_memtable e)"
    using d(5) by (auto simp: log_ok_def with_pending_def)
  let ?seq = "next_sequence (engine_wal e)" and ?val = "stored_value op val"
  show ?thesis
  proof (cases "?seq = max_u64 \<or> \<not> fits_record key ?val")
    case True
    then have "write_record crc Io_Complete op key ?val (engine_wal e) = (res, engine_wal e)"
      using wlog.append_rejects [OF w, of key ?val op] app unfolding append_wal_write
      by (cases "write_record crc Io_Complete op key ?val (engine_wal e)") (simp add: Let_def)
    moreover from True this have "\<exists>err. res = Inl err"
      by (auto simp: write_record_def fits_record_def Let_def split: if_splits)
    ultimately show ?thesis using app by (auto simp: append_wal_write)
  next
    case False
    then have ok: "?seq \<noteq> max_u64" "fits_record key ?val" by auto
    obtain w' where w': "write_record crc Io_Complete op key ?val (engine_wal e) = (Inr ?seq, w')"
      "wal_ok crc w' (rs @ [new_record op key ?val ?seq])" "next_sequence w' = ?seq + 1"
      using wlog.append_accepts [OF w ok, of op] by (cases "write_record crc Io_Complete op key ?val (engine_wal e)") auto
    then have res: "res = Inr ?seq" "e' = e\<lparr>engine_wal := w'\<rparr>" using app by (simp_all add: append_wal_write)
    let ?r = "new_record op key ?val ?seq"
    let ?e = "e\<lparr>engine_wal := w'\<rparr>"
    have c: "covered ?e = covered e" "fresh_sequence (Some ?r) ?e = fresh_sequence None e"
      by (simp_all add: covered_def fresh_sequence_def)
    have ord: "order_ok crc (fresh_sequence (Some ?r) ?e) ?e"
      using d(4) disk_view_same [of ?e e crc] unfolding order_ok_def immutable_committed_def c by simp
    have "covered e \<le> unat ?seq" using d(4) by (auto simp: order_ok_def fresh_sequence_def)
    then have "replay_map (filter (\<lambda>r. covered e \<le> unat (rec_sequence r)) (rs @ [?r])) =
        with_pending (Some ?r) (above (covered e) (mem_of (immutable_memtable e)) ++ mem_of (active_memtable e))"
      using rs by (simp add: replay_map_snoc with_pending_def)
    then have "log_ok crc (Some ?r) ?e"
      using w'(2) unfolding log_ok_def c by (intro exI [of _ "rs @ [?r]"]) simp
    moreover have "unat (next_sequence w') = Suc (unat ?seq)" using w'(3) unat_u64_inc [OF ok(1)] by simp
    ultimately have "engine_inv crc (Some ?r) ?e"
      using d(1) tables_ok_same [OF d(2), of ?e] cache_ok_same [OF d(3), of ?e] ord
      by (simp add: engine_inv_def memory_ok_def)
    moreover have "engine_view crc ?e = engine_view crc e"
      using disk_view_same [of ?e e crc] by (simp add: engine_view_def fun_eq_iff)
    ultimately show ?thesis using res by auto
  qed
qed

section \<open>The memtable insert\<close>

lemma insert_active_write:
  "active_memtable e = Some m \<Longrightarrow>
   insert_active op key val sequence e =
     (if fst (memtable_write op key val sequence m) \<noteq> WR_SUCCESS
      then (Inl Engine_Write_Rejected, e\<lparr>active_memtable := Some (snd (memtable_write op key val sequence m))\<rparr>)
      else (Inr (), e\<lparr>active_memtable := Some (snd (memtable_write op key val sequence m))\<rparr>))"
  by (auto simp: insert_active_def memtable_write_def Let_def split: prod.splits)

lemma insert_active_inv:
  assumes inv: "engine_inv crc (Some (new_record op key (stored_value op val) sequence)) e"
    and m: "active_memtable e = Some m"
  shows "\<exists>e'. insert_active op key val sequence e = (Inr (), e') \<and> engine_inv crc None e'
    \<and> e' = e\<lparr>active_memtable := Some (snd (memtable_write op key val sequence m))\<rparr>
    \<and> memtable_lookup (snd (memtable_write op key val sequence m)) = (memtable_lookup m)(key \<mapsto> written_entry op val sequence)
    \<and> engine_view crc e' = (engine_view crc e)(key \<mapsto> written_entry op val sequence)"
proof -
  let ?r = "new_record op key (stored_value op val) sequence"
  note d = engine_invD [OF inv]
  have seq: "unat (next_sequence (engine_wal e)) = Suc (unat sequence)" and fresh: "fresh_sequence (Some ?r) e = unat sequence"
    using inv by (simp_all add: engine_inv_def fresh_sequence_def)
  obtain n where n: "covered e \<le> n" "n \<le> unat sequence" "all_below (mem_of (immutable_memtable e)) n"
    "all_from (memtable_lookup m) n" and below: "all_below (memtable_lookup m) (unat sequence)"
    using d(4) m fresh by (auto simp: order_ok_def)
  have "memtable_inv m" "mt_state m = MT_MUTABLE" using d(1) m by (auto simp: memory_ok_def)
  note st = mt.store_fresh [OF this below order_refl, of op key val]
  define m' where "m' = snd (memtable_write op key val sequence m)"
  let ?e = "e\<lparr>active_memtable := Some m'\<rparr>" and ?x = "written_entry op val sequence"
  have look: "memtable_lookup m' = (memtable_lookup m)(key \<mapsto> ?x)" using st(4) by (simp add: m'_def)
  have run: "insert_active op key val sequence e = (Inr (), ?e)"
    using st(1) by (simp add: insert_active_write [OF m] m'_def)
  have c: "covered ?e = covered e" by (simp add: covered_def)
  have fresh': "fresh_sequence None ?e = Suc (unat sequence)" using seq by (simp add: fresh_sequence_def)
  have from_n: "all_from (memtable_lookup m') n" using n(2,4) by (auto simp: look all_from_def)
  have "all_from (mem_of (immutable_memtable ?e)) (covered ?e) \<or> immutable_committed crc ?e"
    using d(4) disk_view_same [of ?e e crc] unfolding order_ok_def immutable_committed_def c by simp
  moreover have "all_below (mem_of (active_memtable ?e)) (Suc (unat sequence))" using st(5) by (simp add: m'_def)
  moreover have "\<exists>n. covered ?e \<le> n \<and> n \<le> Suc (unat sequence) \<and> all_below (mem_of (immutable_memtable ?e)) n
      \<and> all_from (mem_of (active_memtable ?e)) n"
    using n(1-3) from_n by (intro exI [of _ n]) (simp add: c)
  ultimately have ord: "order_ok crc (fresh_sequence None ?e) ?e" by (simp add: order_ok_def fresh')
  have mem: "memory_ok ?e" using d(1) st(2,3) by (simp add: memory_ok_def m'_def)
  have tab: "tables_ok crc ?e" and cache: "cache_ok crc ?e"
    using tables_ok_same [OF d(2)] cache_ok_same [OF d(3)] by simp_all
  have "entry_of ?r = ?x" by (cases op) (simp_all add: entry_of_def written_entry_def)
  then have "log_ok crc None ?e"
    using d(5) m look by (simp add: log_ok_def with_pending_def c map_add_upd)
  then have "engine_inv crc None ?e" using mem tab cache ord by (simp add: engine_inv_def)
  moreover have "engine_view crc ?e = (engine_view crc e)(key \<mapsto> ?x)"
    unfolding engine_view_layers [OF tab ord] engine_inv_layers [OF inv]
    using disk_view_same [of ?e e crc] by (simp add: m look map_add_upd)
  ultimately show ?thesis using run look by (simp add: m'_def)
qed

end
