(* ===== verification/Engine_Flush.thy ===== *)
theory Engine_Flush
  imports Engine_Phases
begin

text \<open>
  Reading, and the three sections of a flush: committing the table of the immutable memtable,
  releasing the slot, and reclaiming the log.
\<close>

section \<open>Reading\<close>

lemma file_ok_reader:
  assumes "file_ok crc db fs m"
  shows "\<exists>f r. fs (md_path m) = Some f \<and> reader_open crc f = Inr r
    \<and> (\<forall>k. lookup_entry crc r k = Inr (map_of (table_entries crc fs (md_path m)) k))"
proof -
  obtain f where f: "fs (md_path m) = Some f" "table_holds crc f (table_entries crc fs (md_path m))"
    using file_ok_entries(1) [OF assms] by (auto simp: input_holds_def)
  have "table_lookup crc f k = Inr (map_of (table_entries crc fs (md_path m)) k)" for k
    by (rule sst.lookup_content [OF f(2)])
  moreover from this [of "[]"] obtain r where "reader_open crc f = Inr r"
    unfolding table_lookup_def by auto
  ultimately have "lookup_entry crc r k = Inr (map_of (table_entries crc fs (md_path m)) k)" for k
    unfolding table_lookup_def by simp
  then show ?thesis using f(1) \<open>reader_open crc f = Inr r\<close> by blast
qed

lemma get_sstable_reader_ok:
  assumes "cache_ok crc e" and "file_ok crc (db_path e) (engine_files e) m"
  shows "\<exists>r c. get_sstable_reader crc (md_path m) e = (Inr r, e\<lparr>sstable_readers := c\<rparr>)
    \<and> cache_ok crc (e\<lparr>sstable_readers := c\<rparr>)
    \<and> (\<forall>k. lookup_entry crc r k = Inr (map_of (table_entries crc (engine_files e) (md_path m)) k))"
proof -
  obtain f r where r: "engine_files e (md_path m) = Some f" "reader_open crc f = Inr r"
    "\<forall>k. lookup_entry crc r k = Inr (map_of (table_entries crc (engine_files e) (md_path m)) k)"
    using file_ok_reader [OF assms(2)] by blast
  show ?thesis
  proof (cases "sstable_readers e (md_path m)")
    case None
    then have "get_sstable_reader crc (md_path m) e = (Inr r, e\<lparr>sstable_readers := (sstable_readers e)(md_path m \<mapsto> r)\<rparr>)"
      using r(1,2) by (simp add: get_sstable_reader_def)
    moreover have "cache_ok crc (e\<lparr>sstable_readers := (sstable_readers e)(md_path m \<mapsto> r)\<rparr>)"
      using assms r(1,2) by (auto simp: cache_ok_def file_ok_def)
    ultimately show ?thesis using r(3) by blast
  next
    case (Some r')
    then have "\<exists>f. engine_files e (md_path m) = Some f \<and> reader_open crc f = Inr r'"
      using assms(1) by (simp add: cache_ok_def)
    then have "r' = r" using r(1,2) by auto
    then have "get_sstable_reader crc (md_path m) e = (Inr r, e\<lparr>sstable_readers := sstable_readers e\<rparr>)"
      using Some by (simp add: get_sstable_reader_def)
    then show ?thesis using r(3) assms(1) by (intro exI [of _ r] exI [of _ "sstable_readers e"]) simp
  qed
qed

lemma search_tables_ok:
  "cache_ok crc e \<Longrightarrow> \<forall>m\<in>set ms. file_ok crc (db_path e) (engine_files e) m \<Longrightarrow>
   \<exists>c. search_tables crc key ms w e =
         (Inr (consider_newer w (newest (disk_versions crc (engine_files e) ms key))), e\<lparr>sstable_readers := c\<rparr>)
     \<and> cache_ok crc (e\<lparr>sstable_readers := c\<rparr>)"
proof (induction ms arbitrary: w e)
  case Nil
  then show ?case by (intro exI [of _ "sstable_readers e"]) (simp add: disk_versions_def)
next
  case (Cons m ms)
  let ?v = "map_of (table_entries crc (engine_files e) (md_path m)) key"
  have m: "file_ok crc (db_path e) (engine_files e) m" using Cons.prems(2) by simp
  show ?case
  proof (cases "key < md_smallest m \<or> md_largest m < key")
    case True
    then have "?v = None" using file_ok_range [OF m, of key] by (fastforce simp: in_range_def)
    then show ?thesis using True Cons.IH [OF Cons.prems(1)] Cons.prems(2) by (simp add: disk_versions_def)
  next
    case False
    obtain r c where r: "get_sstable_reader crc (md_path m) e = (Inr r, e\<lparr>sstable_readers := c\<rparr>)"
      "cache_ok crc (e\<lparr>sstable_readers := c\<rparr>)" "lookup_entry crc r key = Inr ?v"
      using get_sstable_reader_ok [OF Cons.prems(1) m] by blast
    obtain c' where c': "search_tables crc key ms (consider_newer w ?v) (e\<lparr>sstable_readers := c\<rparr>) =
        (Inr (consider_newer (consider_newer w ?v) (newest (disk_versions crc (engine_files e) ms key))),
         e\<lparr>sstable_readers := c'\<rparr>)" "cache_ok crc (e\<lparr>sstable_readers := c'\<rparr>)"
      using Cons.IH [OF r(2), of "consider_newer w ?v"] Cons.prems(2) by auto
    then show ?thesis using False r(1,3) by (auto simp: disk_versions_def consider_newer_assoc)
  qed
qed

lemma engine_inv_cache:
  assumes "engine_inv crc pend e" and "cache_ok crc (e\<lparr>sstable_readers := c\<rparr>)"
  shows "engine_inv crc pend (e\<lparr>sstable_readers := c\<rparr>)" and "engine_view crc (e\<lparr>sstable_readers := c\<rparr>) = engine_view crc e"
proof -
  let ?e = "e\<lparr>sstable_readers := c\<rparr>"
  note d = engine_invD [OF assms(1)]
  have c: "covered ?e = covered e" by (simp add: covered_def)
  have fr: "fresh_sequence pend ?e = fresh_sequence pend e" by (rule fresh_sequence_same) simp
  have dv: "disk_view crc ?e = disk_view crc e" by (rule disk_view_same) simp_all
  show "engine_view crc ?e = engine_view crc e" using dv by (simp add: engine_view_def fun_eq_iff)
  have "order_ok crc (fresh_sequence pend ?e) ?e"
    using d(4) dv unfolding order_ok_def immutable_committed_def c fr by simp
  moreover have "log_ok crc pend ?e" using d(5) unfolding log_ok_def c by simp
  ultimately show "engine_inv crc pend ?e"
    using assms tables_ok_same [OF d(2), of ?e] by (simp add: engine_inv_def memory_ok_def)
qed

lemma get_memory_view:
  assumes "engine_inv crc pend e"
  shows "get_memory key e =
    (case (mem_of (immutable_memtable e) ++ mem_of (active_memtable e)) key of
       None \<Rightarrow> None | Some x \<Rightarrow> Some (result_of_entry (engine_view crc e key)))"
  by (auto simp: get_memory_def engine_inv_layers [OF assms] mem_of_def map_add_def split: option.splits)

lemma get_disk_view:
  assumes "engine_inv crc pend e"
  shows "\<exists>c. get_disk crc key (live e) e = (Inr (result_of_entry (disk_view crc e key)), e\<lparr>sstable_readers := c\<rparr>)
    \<and> cache_ok crc (e\<lparr>sstable_readers := c\<rparr>)"
  using search_tables_ok [OF engine_invD(3) [OF assms], of "live e" key None] engine_invD(2) [OF assms]
  by (auto simp: get_disk_def tables_ok_def disk_view_def)

lemma engine_get_ok:
  assumes "engine_inv crc pend e"
  shows "\<exists>c. engine_get crc key e = (Inr (result_of_entry (engine_view crc e key)), e\<lparr>sstable_readers := c\<rparr>)
    \<and> cache_ok crc (e\<lparr>sstable_readers := c\<rparr>)"
proof (cases "(mem_of (immutable_memtable e) ++ mem_of (active_memtable e)) key")
  case None
  then have "engine_view crc e key = disk_view crc e key"
    unfolding engine_inv_layers [OF assms] by (simp add: map_add_def split: option.splits)
  then show ?thesis
    unfolding engine_get_def get_memory_view [OF assms] None option.case using get_disk_view [OF assms, of key] by simp
next
  case (Some x)
  then show ?thesis
    unfolding engine_get_def get_memory_view [OF assms] Some option.case
    using engine_invD(3) [OF assms] by (intro exI [of _ "sstable_readers e"]) simp
qed

section \<open>Building the table of a memtable\<close>

definition fits_table :: "entries \<Rightarrow> bool" where
  "fits_table es \<longleftrightarrow> list_all entry_fits es \<and> length es < 2 ^ 28"

lemma length_records_fit: "list_all entry_fits es \<Longrightarrow> length (records_bytes es) \<le> length es * 2 ^ 32"
  by (induction es) (auto simp: entry_fits_def)

lemma built_table:
  assumes "running_crc crc" and "fits_table es" and "ascending es" and "es \<noteq> []"
  shows "\<exists>f. sstable_build crc sstable_block_size bloom_bits_per_key es = Inr f \<and> table_holds crc f es"
proof -
  have fits: "list_all entry_fits es" and len: "length es < 2 ^ 28" using assms(2) by (simp_all add: fits_table_def)
  have small: "unat sstable_block_size < 2 ^ 32" "unat bloom_bits_per_key * length es + 7 < 2 ^ 32"
    using len by (simp_all add: sstable_block_size_def bloom_bits_per_key_def)
  have bits: "bloom_bits_per_key \<noteq> 0" by (simp add: bloom_bits_per_key_def)
  obtain f blocks where b: "sstable_build crc sstable_block_size bloom_bits_per_key es = Inr (table_image crc f blocks)"
    "concat blocks = es" "list_all block_ok blocks" "length (filter_bits f) < 2 ^ 32"
    using sstable_build_cases [OF assms(1) small(1) fits small(2)] assms(3,4) bits by auto
  have "length es * 2 ^ 32 \<le> 2 ^ 28 * (2 ^ 32 :: nat)" using len by simp
  then have "length (records_bytes es) \<le> 2 ^ 60" using length_records_fit [OF fits] by simp
  then have "length (table_image crc f blocks) < 2 ^ 63"
    using length_table_image [OF b(3), of crc f] b(4) len unfolding b(2) by simp
  then show ?thesis using b(1) sstable_build_holds [OF assms(1) small(1) fits small(2)] by blast
qed

lemma flushed_through_max:
  "it \<noteq> [] \<Longrightarrow> (\<forall>p\<in>set it. entry_sequence (snd p) \<le> flushed_through it)
    \<and> (\<exists>p\<in>set it. entry_sequence (snd p) = flushed_through it)"
proof -
  have gen: "s \<le> fold (\<lambda>(k, x) s. max s (entry_sequence x)) es s
      \<and> (\<forall>p\<in>set es. entry_sequence (snd p) \<le> fold (\<lambda>(k, x) s. max s (entry_sequence x)) es s)
      \<and> (fold (\<lambda>(k, x) s. max s (entry_sequence x)) es s = s
         \<or> (\<exists>p\<in>set es. entry_sequence (snd p) = fold (\<lambda>(k, x) s. max s (entry_sequence x)) es s))"
    for s and es :: entries
  proof (induction es arbitrary: s)
    case (Cons p es)
    let ?s = "max s (entry_sequence (snd p))"
    have step: "fold (\<lambda>(k, x) s. max s (entry_sequence x)) (p # es) s =
        fold (\<lambda>(k, x) s. max s (entry_sequence x)) es ?s" by (simp add: case_prod_beta)
    have le: "s \<le> ?s" "entry_sequence (snd p) \<le> ?s" "?s = s \<or> ?s = entry_sequence (snd p)" by (auto simp: max_def)
    show ?case unfolding step using Cons.IH [of ?s] le by (auto intro: order_trans)
  qed simp
  assume "it \<noteq> []"
  then have "hd it \<in> set it" by simp
  then show ?thesis using gen [of "entry_sequence (snd (hd it))" it] unfolding flushed_through_def by metis
qed

section \<open>The view does not depend on the order of the tables\<close>

lemma newest_set:
  assumes "versions_distinct vs" and "set vs = set ws"
  shows "newest vs = newest ws"
proof (cases "newest vs")
  case None
  then have "newest ws = None" using assms(2) by simp
  then show ?thesis unfolding None ..
next
  case (Some x)
  have "versions_distinct ws" using assms by (simp add: versions_distinct_def)
  then have "newest ws = Some x" by (rule newest_eq_Some) (use newest_SomeD [OF Some] assms(2) in auto)
  then show ?thesis using Some by simp
qed

lemma replay_above:
  "wf_log rs \<Longrightarrow> replay_map (filter (\<lambda>r. c \<le> unat (rec_sequence r)) rs) = above c (replay_map rs)"
proof (induction rs rule: rev_induct)
  case Nil
  then show ?case by (simp add: replay_map_def)
next
  case (snoc r rs)
  have wf: "wf_log rs" and below: "\<forall>q\<in>set rs. rec_sequence q < rec_sequence r"
    using snoc.prems by (auto simp: wf_log_append)
  have seq: "entry_sequence (entry_of r) = rec_sequence r" by (simp add: entry_of_def)
  show ?case
  proof (cases "c \<le> unat (rec_sequence r)")
    case True
    then show ?thesis using snoc.IH [OF wf] seq by (auto simp: replay_map_snoc above_def fun_eq_iff)
  next
    case False
    then have "\<forall>q\<in>set rs. \<not> c \<le> unat (rec_sequence q)"
      using below unfolding word_less_nat_alt by (meson less_imp_le order_trans)
    then have none: "filter (\<lambda>r. c \<le> unat (rec_sequence r)) rs = []" by (simp add: filter_empty_conv)
    then have "above c (replay_map rs) = Map.empty" using snoc.IH [OF wf] by (simp add: replay_map_def)
    then show ?thesis using False none seq
      by (auto simp: replay_map_snoc replay_map_def above_def fun_eq_iff)
  qed
qed

lemma above_add: "above c (f ++ g) = (\<lambda>k. case g k of None \<Rightarrow> above c f k | Some x \<Rightarrow> above c g k)"
  by (auto simp: above_def map_add_def fun_eq_iff split: option.splits)

lemma above_above: "c \<le> c' \<Longrightarrow> above c' (above c f) = above c' f"
  by (auto simp: above_def fun_eq_iff split: option.splits)

lemma filter_above: "c \<le> c' \<Longrightarrow>
  filter (\<lambda>r. c' \<le> unat (rec_sequence r)) (filter (\<lambda>r. c \<le> unat (rec_sequence r)) rs) = filter (\<lambda>r. c' \<le> unat (rec_sequence r)) rs"
  by (induction rs) auto

text \<open>Moving the checkpoint past the immutable memtable leaves the active one to be replayed.\<close>

lemma log_after_commit:
  assumes "replay_map (filter (\<lambda>r. c \<le> unat (rec_sequence r)) rs) = with_pending pend (i ++ a)" and "wf_log rs"
    and "c \<le> c'" and "all_below i c'" and "all_from a c'" and "\<forall>r. pend = Some r \<longrightarrow> c' \<le> unat (rec_sequence r)"
  shows "replay_map (filter (\<lambda>r. c' \<le> unat (rec_sequence r)) rs) = with_pending pend a"
proof -
  have "replay_map (filter (\<lambda>r. c' \<le> unat (rec_sequence r)) rs) = above c' (with_pending pend (i ++ a))"
    using replay_above [OF wf_log_filter [OF assms(2)], of c' "\<lambda>r. c \<le> unat (rec_sequence r)"]
    unfolding filter_above [OF assms(3)] assms(1) .
  also have "\<dots> = with_pending pend (above c' (i ++ a))"
    using assms(6) by (cases pend) (auto simp: with_pending_def above_def entry_of_def fun_eq_iff)
  also have "above c' (i ++ a) = a"
    unfolding above_add above_all_below [OF assms(4)] above_all_from [OF assms(5)] by (auto split: option.split)
  finally show ?thesis .
qed

end
