(* ===== verification/Engine_Commit.thy ===== *)
theory Engine_Commit
  imports Engine_Flush
begin

text \<open>
  The sections that change the set of live tables: the commit of a flushed memtable with the
  checkpoint, the release of the slot, log reclamation, and compaction.
\<close>

section \<open>Sizes and files that stay\<close>

text \<open>How many entries the live tables hold, how many more names the directory must have room for,
  and that an existing table file is never written again.\<close>

definition table_volume :: "crc_fn \<Rightarrow> engine \<Rightarrow> nat" where
  "table_volume crc e = (\<Sum>m\<leftarrow>live e. length (table_entries crc (engine_files e) (md_path m)))"

definition room :: "nat \<Rightarrow> engine \<Rightarrow> bool" where
  "room n e \<longleftrightarrow> finite (dom (engine_files e)) \<and> card (dom (engine_files e)) + n < 2 ^ 64"

definition tables_kept :: "engine \<Rightarrow> file_system \<Rightarrow> bool" where
  "tables_kept e fs \<longleftrightarrow>
     (\<forall>n. table_name n \<and> engine_files e (path_join (db_path e) n) \<noteq> None \<longrightarrow>
        fs (path_join (db_path e) n) = engine_files e (path_join (db_path e) n))"

text \<open>A section that changes only what concerns the table files.\<close>

definition only_tables :: "engine \<Rightarrow> engine \<Rightarrow> bool" where
  "only_tables e e' \<longleftrightarrow>
     e' = e\<lparr>next_sstable_id := next_sstable_id e', engine_files := engine_files e', engine_manifest := engine_manifest e',
          flush_count := flush_count e', compaction_count := compaction_count e'\<rparr>"

lemma only_tables_self [simp]: "only_tables e e"
  by (simp add: only_tables_def)

lemma only_tables_simps:
  assumes "only_tables e e'"
  shows "db_path e' = db_path e" "engine_wal e' = engine_wal e" "active_memtable e' = active_memtable e"
    "immutable_memtable e' = immutable_memtable e" "flush_queue e' = flush_queue e" "background_error e' = background_error e"
    "shutting_down e' = shutting_down e" "l0_trigger e' = l0_trigger e" "memtable_target_bytes e' = memtable_target_bytes e"
    "sstable_readers e' = sstable_readers e"
  by (subst assms [unfolded only_tables_def]; simp)+

lemma tables_keptD:
  "tables_kept e fs \<Longrightarrow> engine_files e p = Some f \<Longrightarrow> p = path_join (db_path e) n \<Longrightarrow> table_name n \<Longrightarrow> fs p = Some f"
  by (simp add: tables_kept_def)

lemma tables_kept_refl [simp]: "tables_kept e (engine_files e)"
  by (simp add: tables_kept_def)

lemma tables_kept_new: "engine_files e p = None \<Longrightarrow> tables_kept e ((engine_files e)(p \<mapsto> f))"
  by (auto simp: tables_kept_def)

lemma tables_kept_edit:
  assumes "tables_ok crc e" and "apply_edit io edit (engine_manifest e) fs = (res, fs')" and "tables_kept e fs"
  shows "tables_kept e fs'"
proof -
  have "fs' (path_join (db_path e) n) = fs (path_join (db_path e) n)" if "table_name n" for n
    using table_name_not_manifest [OF that, of "db_path e"] assms(1) apply_edit_other_files [OF assms(2)]
    by (simp add: tables_ok_def)
  then show ?thesis using assms(3) by (simp add: tables_kept_def)
qed

lemma cached_path:
  "cache_ok crc e \<Longrightarrow> sstable_readers e q \<noteq> None \<Longrightarrow>
   engine_files e q \<noteq> None \<and> (\<exists>n. table_name n \<and> q = path_join (db_path e) n)"
  unfolding cache_ok_def by (metis option.distinct(1) option.exhaust)

lemma cached_kept:
  "cache_ok crc e \<Longrightarrow> tables_kept e fs \<Longrightarrow> sstable_readers e q \<noteq> None \<Longrightarrow> fs q = engine_files e q"
  using cached_path unfolding tables_kept_def by blast

lemma room_edit:
  assumes "room (n + 3) e" and "apply_edit io edit man ((engine_files e)(p \<mapsto> f)) = (res, fs)" and "engine_files e' = fs"
  shows "room n e'"
proof -
  have "dom fs \<subseteq> {p, manifest_path man, temporary_path (manifest_path man)} \<union> dom (engine_files e)"
    using apply_edit_other_files [OF assms(2)] by (auto simp: domIff split: if_splits)
  moreover have fin: "finite (dom (engine_files e))" using assms(1) by (simp add: room_def)
  ultimately have "card (dom fs) \<le> card ({p, manifest_path man, temporary_path (manifest_path man)} \<union> dom (engine_files e))"
    and fs: "finite (dom fs)" by (auto intro: card_mono finite_subset)
  moreover have "card {p, manifest_path man, temporary_path (manifest_path man)} \<le> 3" by (simp add: card_insert_if)
  ultimately have "card (dom fs) \<le> 3 + card (dom (engine_files e))"
    using card_Un_le [of "{p, manifest_path man, temporary_path (manifest_path man)}" "dom (engine_files e)"] by linarith
  then show ?thesis using fs assms(1,3) by (simp add: room_def)
qed

section \<open>Adding a table\<close>

lemma table_path_not_live:
  assumes "tables_ok crc e" and "engine_files e p = None" and "p = path_join (db_path e) n" and "table_name n"
  shows "\<forall>m\<in>set (live e). \<not> path_eq (md_path m) p"
proof
  fix m assume m: "m \<in> set (live e)"
  then have f: "file_ok crc (db_path e) (engine_files e) m" using assms(1) by (simp add: tables_ok_def)
  then obtain n' where n': "table_name n'" "md_path m = path_join (db_path e) n'" by (auto simp: file_ok_def)
  have "md_path m \<noteq> p" using f assms(2) by (auto simp: file_ok_def input_holds_def)
  then show "\<not> path_eq (md_path m) p"
    using path_eq_join [of n' n "db_path e"] n' assms(3,4) by (auto simp: table_name_def)
qed

lemma live_path_kept:
  assumes "tables_ok crc e" and "apply_edit io edit (engine_manifest e) fs = (res, fs')" and "file_ok crc (db_path e) fs m"
  shows "fs' (md_path m) = fs (md_path m)" and "file_ok crc (db_path e) fs' m"
proof -
  obtain n where "table_name n" "md_path m = path_join (db_path e) n" using assms(3) by (auto simp: file_ok_def)
  then have "md_path m \<noteq> manifest_path (engine_manifest e)" "md_path m \<noteq> temporary_path (manifest_path (engine_manifest e))"
    using assms(1) table_name_not_manifest by (auto simp: tables_ok_def)
  from apply_edit_other_files [OF assms(2) this] show "fs' (md_path m) = fs (md_path m)" .
  then show "file_ok crc (db_path e) fs' m" using assms(3) file_ok_cong by blast
qed

lemma live_files_edited: "set (live_files (edited edit man)) =
  {f \<in> set (live_files man). \<forall>p\<in>set (remove_files edit). \<not> path_eq (md_path f) p} \<union> set (add_files edit)"
  by (simp add: edited_def)

lemma path_join_not_Nil: "n \<noteq> [] \<Longrightarrow> path_join p n \<noteq> []"
  by (simp add: path_join_def)

lemma levels_ok_add_l0:
  "levels_ok ms \<Longrightarrow> valid_range m \<Longrightarrow> md_level m = 0 \<Longrightarrow> set ms' = insert m (set ms) \<Longrightarrow> levels_ok ms'"
  by (auto simp: levels_ok_def)

lemma versions_distinct_insert:
  assumes "versions_distinct vs" and "set ws = insert v (set vs)"
    and "\<And>a b. v = Some a \<Longrightarrow> Some b \<in> set vs \<Longrightarrow> entry_sequence b < entry_sequence a"
  shows "versions_distinct ws" and "newest ws = (case v of None \<Rightarrow> newest vs | Some x \<Rightarrow> Some x)"
proof -
  have old: "a = b" if "Some a \<in> set vs" "Some b \<in> set vs" "entry_sequence a = entry_sequence b" for a b
    using assms(1) that by (simp add: versions_distinct_def)
  have "a = b" if "Some a \<in> set ws" "Some b \<in> set ws" "entry_sequence a = entry_sequence b" for a b
    using that assms(3) [of a b] assms(3) [of b a] old [of a b] by (auto simp: assms(2))
  then show d: "versions_distinct ws" by (auto simp: versions_distinct_def)
  have "newest ws = newest (v # vs)" by (rule newest_set [OF d]) (simp add: assms(2))
  also have "\<dots> = consider_newer v (newest vs)" by simp
  also have "\<dots> = (case v of None \<Rightarrow> newest vs | Some x \<Rightarrow> Some x)"
    by (rule consider_newer_left) (use assms(3) newest_SomeD in \<open>blast intro: less_imp_le\<close>)
  finally show "newest ws = (case v of None \<Rightarrow> newest vs | Some x \<Rightarrow> Some x)" .
qed

lemma commit_table:
  assumes tab: "tables_ok crc e" and p: "engine_files e p = None" "p = path_join (db_path e) n" "table_name n"
    and f: "table_holds crc f es" and es: "all_from (map_of es) (covered e)"
    and through: "all_below (map_of es) (Suc (unat through))" "\<exists>k x. map_of es k = Some x \<and> entry_sequence x = through"
    and run: "apply_edit Snapshot_Ok \<lparr>remove_files = [],
        add_files = [Sstable_Metadata p 0 (fst (hd es)) (fst (last es))], edit_persisted_through = Some through\<rparr>
      (engine_manifest e) ((engine_files e)(p \<mapsto> f)) = (res, fs)"
  shows "\<exists>man. res = Inr man \<and> persisted_through man = Some through
    \<and> (\<forall>e'. engine_manifest e' = man \<longrightarrow> engine_files e' = fs \<longrightarrow> db_path e' = db_path e \<longrightarrow>
          tables_ok crc e' \<and> disk_view crc e' = disk_view crc e ++ map_of es
          \<and> table_volume crc e' = table_volume crc e + length es)"
proof -
  let ?m = "Sstable_Metadata p 0 (fst (hd es)) (fst (last es))" and ?fs = "(engine_files e)(p \<mapsto> f)"
  let ?edit = "\<lparr>remove_files = [], add_files = [?m], edit_persisted_through = Some through\<rparr>"
  let ?man = "engine_manifest e"
  have t: "manifest_ok ?man" "manifest_path ?man = manifest_file (db_path e)"
    "manifest_load (engine_files e) ?man = Inr ?man" "levels_ok (live e)"
    "\<forall>m\<in>set (live e). file_ok crc (db_path e) (engine_files e) m"
    "\<And>k. versions_distinct (disk_versions crc (engine_files e) (live e) k)"
    "\<forall>m\<in>set (live e). all_below (map_of (table_entries crc (engine_files e) (md_path m))) (covered e)"
    using tab by (simp_all add: tables_ok_def)
  have new: "file_ok crc (db_path e) ?fs ?m" using p(2,3) f by (auto simp: file_ok_def input_holds_def)
  have valid: "validate_metadata ?m = Inr ()"
    using file_ok_valid [OF new] p(2,3) path_join_not_Nil
    by (auto simp: validate_metadata_def valid_range_def table_name_def not_less)
  have np: "\<forall>m\<in>set (live e). \<not> path_eq (md_path m) p" by (rule table_path_not_live [OF tab p])
  have "files_ok (live e @ [?m])" using t(1) valid np by (simp add: files_ok_snoc manifest_ok_def)
  moreover have "c \<le> through" if "persisted_through ?man = Some c" for c
    using es through(2) that by (fastforce simp: all_from_def covered_def word_le_nat_alt)
  ultimately have ok: "edit_ok ?edit ?man" by (simp add: edit_ok_def)
  have "?fs (manifest_path ?man) = engine_files e (manifest_path ?man)"
    using table_name_not_manifest(1) [OF p(3)] p(2) t(2) by simp
  with t(3) have "manifest_load ?fs ?man = Inr ?man" by (rule manifest_load_again)
  from apply_edit_cases [OF t(1) this run] ok
  have res: "res = Inr (edited ?edit ?man)" "manifest_load fs (edited ?edit ?man) = Inr (edited ?edit ?man)" by simp_all
  let ?man' = "edited ?edit ?man"
  have live': "set (live_files ?man') = insert ?m (set (live e))" by (auto simp: live_files_edited)
  have other: "?fs (md_path m) = engine_files e (md_path m)" if "m \<in> set (live e)" for m
    using t(5) that p(1) by (auto simp: file_ok_def input_holds_def)
  have kept: "file_ok crc (db_path e) ?fs m" if "m \<in> set (live e)" for m
    using t(5) that file_ok_cong [of ?fs m "engine_files e"] other [OF that] by blast
  have same: "table_entries crc fs (md_path m) = table_entries crc (engine_files e) (md_path m)" if "m \<in> set (live e)" for m
    using live_path_kept(1) [OF tab run kept [OF that]] other [OF that] by (simp add: table_entries_def)
  have new': "file_ok crc (db_path e) fs ?m" by (rule live_path_kept(2) [OF tab run new])
  have "input_holds crc ?fs p es" using f by (simp add: input_holds_def)
  moreover have "fs p = ?fs p" using live_path_kept(1) [OF tab run new] by simp
  ultimately have "input_holds crc fs p es" by (simp add: input_holds_def)
  then have entries: "table_entries crc fs p = es" by (rule table_entries_holds)
  have set: "set (disk_versions crc fs (live_files ?man') k) =
      insert (map_of es k) (set (disk_versions crc (engine_files e) (live e) k))" for k
    using live' same entries by (auto simp: disk_versions_def image_iff)
  have below: "entry_sequence b < entry_sequence a"
    if "map_of es k = Some a" "Some b \<in> set (disk_versions crc (engine_files e) (live e) k)" for a b k
  proof -
    have "unat (entry_sequence b) < covered e"
      using that(2) t(7) by (auto simp: disk_versions_def all_below_def)
    moreover have "covered e \<le> unat (entry_sequence a)" using es that(1) by (simp add: all_from_def)
    ultimately show ?thesis by (simp add: word_less_nat_alt)
  qed
  have vd: "versions_distinct (disk_versions crc fs (live_files ?man') k)" for k
    by (rule versions_distinct_insert(1) [OF t(6) set]) (rule below)
  have nv: "newest (disk_versions crc fs (live_files ?man') k) =
      (case map_of es k of None \<Rightarrow> disk_view crc e k | Some x \<Rightarrow> Some x)" for k
    unfolding disk_view_def by (rule versions_distinct_insert(2) [OF t(6) set]) (rule below)
  have lv: "levels_ok (live_files ?man')"
    by (rule levels_ok_add_l0 [OF t(4) file_ok_valid [OF new] _ live']) simp
  have cov: "covered e \<le> Suc (unat through)" using es through(2) by (fastforce simp: all_from_def)
  have files: "\<forall>m\<in>set (live_files ?man'). file_ok crc (db_path e) fs m"
    using live_path_kept(2) [OF tab run kept] new' by (simp add: live')
  have bounds: "\<forall>m\<in>set (live_files ?man'). all_below (map_of (table_entries crc fs (md_path m))) (Suc (unat through))"
    using t(7) same entries through(1) all_below_mono [OF _ cov] by (simp add: live')
  have sum: "sum_list (map g (sort xs)) = sum_list (map g xs)" for g :: "sstable_metadata \<Rightarrow> nat" and xs
    by (metis mset_map mset_sort sum_mset_sum_list)
  have "tables_ok crc e' \<and> disk_view crc e' = disk_view crc e ++ map_of es
      \<and> table_volume crc e' = table_volume crc e + length es"
    if "engine_manifest e' = ?man'" "engine_files e' = fs" "db_path e' = db_path e" for e'
  proof (intro conjI)
    note e' = that
    have "map (\<lambda>m. length (table_entries crc fs (md_path m))) (live e) =
        map (\<lambda>m. length (table_entries crc (engine_files e) (md_path m))) (live e)" using same by simp
    from arg_cong [OF this, of sum_list] show "table_volume crc e' = table_volume crc e + length es"
      by (simp add: table_volume_def e' edited_def sum entries)
    show "tables_ok crc e'"
      unfolding tables_ok_def e' covered_def
      using edited_ok [OF ok] t(2) res(2) lv files bounds vd
      by (simp add: edited_def)
    show "disk_view crc e' = disk_view crc e ++ map_of es"
      by (intro ext) (simp add: disk_view_def [of crc e'] e' map_add_def nv)
  qed
  then show ?thesis using res(1) by (auto simp: edited_def)
qed

section \<open>The flush\<close>

lemma memtable_lookup_map: "memtable_lookup m = map_of (mtable m)"
  by (simp add: memtable_lookup_def fun_eq_iff)

lemma flushed_through_bounds:
  assumes "ascending es" and "es \<noteq> []"
  shows "all_below (map_of es) (Suc (unat (flushed_through es)))"
    and "\<exists>k x. map_of es k = Some x \<and> entry_sequence x = flushed_through es"
proof -
  note fm = flushed_through_max [OF assms(2)]
  show "all_below (map_of es) (Suc (unat (flushed_through es)))"
    using fm by (fastforce simp: all_below_def less_Suc_eq_le word_le_nat_alt dest: map_of_SomeD)
  obtain p where "p \<in> set es" "entry_sequence (snd p) = flushed_through es" using fm by blast
  then show "\<exists>k x. map_of es k = Some x \<and> entry_sequence x = flushed_through es"
    using ascending_map_of_mem [OF assms(1), of "fst p" "snd p"] by auto
qed

text \<open>What holds after a section that replaced the manifest and the table files.\<close>

lemma commit_inv:
  assumes inv: "engine_inv crc pend e" and i: "immutable_memtable e = Some m"
    and pending: "all_from (memtable_lookup m) (covered e)"
    and e': "immutable_memtable e' = Some m" "active_memtable e' = active_memtable e" "engine_wal e' = engine_wal e"
      "shutting_down e' = shutting_down e" "sstable_readers e' = sstable_readers e" "db_path e' = db_path e"
    and files: "\<And>p n. sstable_readers e p \<noteq> None \<Longrightarrow> engine_files e' p = engine_files e p"
    and tab: "tables_ok crc e'" and view: "disk_view crc e' = disk_view crc e ++ memtable_lookup m"
    and cov: "covered e' = Suc (unat (flushed_through (mtable m)))"
  shows "engine_inv crc pend e'" and "engine_view crc e' = engine_view crc e" and "immutable_committed crc e'"
proof -
  note d = engine_invD [OF inv]
  have m: "ascending (mtable m)" "mtable m \<noteq> []" using d(1) i by (auto simp: memory_ok_def memtable_inv_def)
  note b = flushed_through_bounds [OF m, folded memtable_lookup_map]
  have fr: "fresh_sequence pend e' = fresh_sequence pend e" by (rule fresh_sequence_same) (rule e')
  obtain n where n: "covered e \<le> n" "n \<le> fresh_sequence pend e" "all_below (memtable_lookup m) n"
    "all_from (mem_of (active_memtable e)) n" using d(4) i by (auto simp: order_ok_def)
  have cn: "covered e' \<le> n" using b(2) n(3) unfolding cov all_below_def by (metis Suc_leI)
  have cc: "covered e \<le> covered e'" using b(2) pending by (fastforce simp: cov all_from_def)
  show com: "immutable_committed crc e'"
    using b(1) by (simp add: immutable_committed_def e' view cov all_below_def)
  have ord: "order_ok crc (fresh_sequence pend e') e'"
    using com n cn d(4) by (auto simp: order_ok_def fr e' intro!: exI [of _ n])
  obtain rs where rs: "wal_ok crc (engine_wal e) rs"
    "replay_map (filter (\<lambda>r. covered e \<le> unat (rec_sequence r)) rs) =
      with_pending pend (memtable_lookup m ++ mem_of (active_memtable e))"
    using d(5) i above_all_from [OF pending] by (auto simp: log_ok_def)
  have below: "all_below (memtable_lookup m) (covered e')" using b(1) by (simp add: cov)
  have "replay_map (filter (\<lambda>r. covered e' \<le> unat (rec_sequence r)) rs) = with_pending pend (mem_of (active_memtable e))"
  proof (rule log_after_commit [OF rs(2) _ cc below])
    show "wf_log rs" using rs(1) by (simp add: wal_ok_def)
    show "all_from (mem_of (active_memtable e)) (covered e')" by (rule all_from_mono [OF n(4) cn])
    show "\<forall>r. pend = Some r \<longrightarrow> covered e' \<le> unat (rec_sequence r)" using cn n(2) by (auto simp: fresh_sequence_def)
  qed
  then have log: "log_ok crc pend e'" using rs(1) above_all_below [OF below] by (auto simp: log_ok_def e')
  have "cache_ok crc e'" using d(3) files unfolding cache_ok_def e' by (metis option.distinct(1))
  then show "engine_inv crc pend e'"
    using inv d(1) i tab ord log by (simp add: engine_inv_def memory_ok_def e')
  show "engine_view crc e' = engine_view crc e"
    unfolding engine_view_layers [OF tab ord] engine_inv_layers [OF inv]
    by (simp add: view e' i) (auto simp: map_add_def split: option.split)
qed

lemma flush_build_ok:
  assumes crc: "running_crc crc" and inv: "engine_inv crc pend e" and i: "immutable_memtable e = Some m"
    and pending: "all_from (memtable_lookup m) (covered e)" and fits: "fits_table (mtable m)"
    and run: "flush_build crc Snapshot_Ok m e = Some (res, e')"
  shows "\<exists>through. res = Inr through \<and> Suc (unat through) = covered e'
    \<and> engine_inv crc pend e' \<and> engine_view crc e' = engine_view crc e \<and> immutable_committed crc e'
    \<and> table_volume crc e' = table_volume crc e + length (mtable m) \<and> tables_kept e (engine_files e')
    \<and> (\<forall>n. room (n + 3) e \<longrightarrow> room n e') \<and> disk_view crc e' = disk_view crc e ++ memtable_lookup m
    \<and> only_tables e e'"
proof -
  note d = engine_invD [OF inv]
  have m: "mt_state m = MT_IMMUTABLE" "ascending (mtable m)" "mtable m \<noteq> []"
    using d(1) i by (auto simp: memory_ok_def memtable_inv_def)
  have run': "Option.bind (allocate_sstable_path 0 e) (\<lambda>(output_path, e1).
        let it = memtable_iterate m
        in case sstable_build crc sstable_block_size bloom_bits_per_key it of
             Inl err \<Rightarrow> Some (Inl err, e1)
           | Inr f \<Rightarrow>
               let e2 = e1\<lparr>engine_files := (engine_files e1)(output_path \<mapsto> f)\<rparr>;
                   through = flushed_through it;
                   edit = \<lparr>remove_files = [],
                           add_files = [Sstable_Metadata output_path 0 (fst (hd it)) (fst (last it))],
                           edit_persisted_through = Some through\<rparr>
               in case apply_edit Snapshot_Ok edit (engine_manifest e2) (engine_files e2) of
                    (Inl err, fs) \<Rightarrow> Some (Inl err, e2\<lparr>engine_files := fs\<rparr>)
                  | (Inr man, fs) \<Rightarrow>
                      Some (Inr through, e2\<lparr>engine_files := fs, engine_manifest := man,
                                           flush_count := flush_count e2 + 1\<rparr>)) = Some (res, e')"
    using run m by (simp add: flush_build_def entry_count_def)
  then obtain p e1 where alloc: "allocate_sstable_path 0 e = Some (p, e1)" by (auto split: bind_splits)
  obtain j n where a: "e1 = e\<lparr>next_sstable_id := j\<rparr>" "engine_files e p = None" "table_name n" "p = path_join (db_path e) n"
    using allocate_SomeD [OF alloc] by blast
  obtain f where f: "sstable_build crc sstable_block_size bloom_bits_per_key (mtable m) = Inr f" "table_holds crc f (mtable m)"
    using built_table [OF crc fits m(2,3)] by blast
  let ?through = "flushed_through (mtable m)" and ?es = "mtable m"
  let ?edit = "\<lparr>remove_files = [], add_files = [Sstable_Metadata p 0 (fst (hd ?es)) (fst (last ?es))],
      edit_persisted_through = Some ?through\<rparr>"
  obtain r fs where ap: "apply_edit Snapshot_Ok ?edit (engine_manifest e) ((engine_files e)(p \<mapsto> f)) = (r, fs)" by fastforce
  note b = flushed_through_bounds [OF m(2,3)]
  obtain man where man: "r = Inr man" "persisted_through man = Some ?through"
    "\<And>e'. engine_manifest e' = man \<Longrightarrow> engine_files e' = fs \<Longrightarrow> db_path e' = db_path e \<Longrightarrow>
      tables_ok crc e' \<and> disk_view crc e' = disk_view crc e ++ map_of ?es
      \<and> table_volume crc e' = table_volume crc e + length ?es"
    using commit_table [OF d(2) a(2,4,3) f(2) pending [unfolded memtable_lookup_map] b ap] by blast
  have e': "res = Inr ?through" "e' = e\<lparr>next_sstable_id := j, engine_files := fs, engine_manifest := man,
      flush_count := flush_count e + 1\<rparr>"
    using run' by (simp_all add: alloc memtable_iterate_def a(1) Let_def f(1) ap man(1))
  have tv: "tables_ok crc e' \<and> disk_view crc e' = disk_view crc e ++ memtable_lookup m
      \<and> table_volume crc e' = table_volume crc e + length ?es"
    unfolding memtable_lookup_map by (rule man(3)) (simp_all add: e'(2))
  have cov: "covered e' = Suc (unat ?through)" by (simp add: covered_def e'(2) man(2))
  have kept: "tables_kept e (engine_files e')"
    using tables_kept_edit [OF d(2) ap tables_kept_new [OF a(2)]] by (simp add: e'(2))
  have rm: "room n e'" if "room (n + 3) e" for n by (rule room_edit [OF that ap]) (simp add: e'(2))
  have "engine_inv crc pend e'" "engine_view crc e' = engine_view crc e" "immutable_committed crc e'"
    using commit_inv [OF inv i pending, of e'] cached_kept [OF d(3) kept] tv cov by (simp_all add: e'(2) i)
  moreover have "only_tables e e'" unfolding e'(2) only_tables_def by simp
  ultimately show ?thesis using e'(1) cov tv kept rm by simp
qed

section \<open>Releasing the slot\<close>

lemma flush_clear_ok:
  assumes inv: "engine_inv crc pend e" and i: "immutable_memtable e = Some m" and com: "immutable_committed crc e"
  shows "flush_clear m e = (Inr (), e\<lparr>immutable_memtable := None\<rparr>)"
    and "engine_inv crc pend (e\<lparr>immutable_memtable := None\<rparr>)"
    and "engine_view crc (e\<lparr>immutable_memtable := None\<rparr>) = engine_view crc e"
proof -
  let ?e = "e\<lparr>immutable_memtable := None\<rparr>"
  note d = engine_invD [OF inv]
  show "flush_clear m e = (Inr (), ?e)" by (simp add: flush_clear_def i)
  have c: "covered ?e = covered e" by (simp add: covered_def)
  have fr: "fresh_sequence pend ?e = fresh_sequence pend e" by (rule fresh_sequence_same) simp
  have dv: "disk_view crc ?e = disk_view crc e" by (rule disk_view_same) simp_all
  have below: "all_below (memtable_lookup m) (covered e)" using com i by (simp add: immutable_committed_def all_below_def)
  have tab: "tables_ok crc ?e" and cache: "cache_ok crc ?e"
    using tables_ok_same [OF d(2), of ?e] cache_ok_same [OF d(3), of ?e] by simp_all
  have ord: "order_ok crc (fresh_sequence pend ?e) ?e" using d(4) by (auto simp: order_ok_def c fr)
  have log: "log_ok crc pend ?e" using d(5) i above_all_below [OF below] by (simp add: log_ok_def c)
  show "engine_inv crc pend ?e" using inv d(1) tab cache ord log by (simp add: engine_inv_def memory_ok_def)
  have "disk_view crc e ++ memtable_lookup m = disk_view crc e"
    using com i by (auto simp: immutable_committed_def map_add_def fun_eq_iff split: option.splits)
  then show "engine_view crc ?e = engine_view crc e"
    unfolding engine_view_layers [OF tab ord] engine_inv_layers [OF inv] by (simp add: dv i)
qed

section \<open>Reclaiming the log\<close>

lemma flush_reclaim_ok:
  assumes inv: "engine_inv crc pend e" and through: "unat through < covered e"
  shows "\<exists>w. flush_reclaim crc through e = (Inr (), e\<lparr>engine_wal := w\<rparr>)
    \<and> engine_inv crc pend (e\<lparr>engine_wal := w\<rparr>)
    \<and> engine_view crc (e\<lparr>engine_wal := w\<rparr>) = engine_view crc e"
proof -
  note d = engine_invD [OF inv]
  obtain rs where rs: "wal_ok crc (engine_wal e) rs" "replay_map (filter (\<lambda>r. covered e \<le> unat (rec_sequence r)) rs) =
      with_pending pend (above (covered e) (mem_of (immutable_memtable e)) ++ mem_of (active_memtable e))"
    using d(5) by (auto simp: log_ok_def)
  obtain w where w: "reclaim_through crc through (engine_wal e) = (Inr (), w)"
    "wal_ok crc w (filter (\<lambda>r. through < rec_sequence r) rs)" "next_sequence w = next_sequence (engine_wal e)"
    using wlog.reclaim_law [OF rs(1), of through] by (cases "reclaim_through crc through (engine_wal e)") auto
  let ?e = "e\<lparr>engine_wal := w\<rparr>"
  have c: "covered ?e = covered e" by (simp add: covered_def)
  have fr: "fresh_sequence pend ?e = fresh_sequence pend e" using w(3) by (cases pend) (simp_all add: fresh_sequence_def)
  have dv: "disk_view crc ?e = disk_view crc e" by (rule disk_view_same) simp_all
  have "filter (\<lambda>r. covered e \<le> unat (rec_sequence r)) (filter (\<lambda>r. through < rec_sequence r) rs) =
      filter (\<lambda>r. covered e \<le> unat (rec_sequence r)) rs"
    using through by (auto simp: word_less_nat_alt intro!: filter_cong)
  then have log: "log_ok crc pend ?e" using w(2) rs(2) unfolding log_ok_def c by auto
  have ord: "order_ok crc (fresh_sequence pend ?e) ?e"
    using d(4) dv unfolding order_ok_def immutable_committed_def c fr by simp
  have "engine_inv crc pend ?e"
    using inv d(1) tables_ok_same [OF d(2), of ?e] cache_ok_same [OF d(3), of ?e] ord log w(3)
    by (simp add: engine_inv_def memory_ok_def)
  moreover have "engine_view crc ?e = engine_view crc e" using dv by (simp add: engine_view_def fun_eq_iff)
  ultimately show ?thesis using w(1) by (auto simp: flush_reclaim_def)
qed

end
