(* ===== verification/Engine_Compact.thy ===== *)
theory Engine_Compact
  imports Engine_Commit
begin

text \<open>
  Compaction as the engine runs it: the plan's inputs are replaced by the merged table in one
  manifest edit. The abstract map stays the same; of the versions only tombstones go away.
\<close>

section \<open>Replacing the inputs of a plan\<close>

lemma live_path_eq:
  "manifest_ok man \<Longrightarrow> a \<in> set (live_files man) \<Longrightarrow> b \<in> set (live_files man) \<Longrightarrow>
   path_eq (md_path a) (md_path b) \<longleftrightarrow> a = b"
  by (auto simp: manifest_ok_def files_ok_def path_eq_key distinct_map dest: inj_onD)

lemma versions_distinct_subset:
  "versions_distinct vs \<Longrightarrow> (\<And>x. Some x \<in> set ws \<Longrightarrow> Some x \<in> set vs) \<Longrightarrow> versions_distinct ws"
  by (simp add: versions_distinct_def)

lemma surviving_cases: "surviving d v = v \<or> surviving d v = None"
  by (cases v) auto

text \<open>Versions of one key, those of the inputs and those of the tables left out: never are there
  some of both.\<close>

lemma replace_versions:
  assumes "versions_distinct vs" and "set vs = set ins \<union> set rest"
    and "(\<forall>v\<in>set ins. v = None) \<or> (\<forall>v\<in>set rest. v = None)"
    and "set ws = insert (surviving d (newest ins)) (set rest) \<or> surviving d (newest ins) = None \<and> set ws = set rest"
  shows "versions_distinct ws" and "newest ws = newest vs \<or> newest ws = surviving d (newest vs)"
proof -
  let ?s = "surviving d (newest ins)"
  have sub: "Some x \<in> set vs" if "Some x \<in> set ws" for x
    using that assms(2,4) surviving_cases [of d "newest ins"] newest_SomeD [of ins]
    by (cases "newest ins") auto
  show dw: "versions_distinct ws" by (rule versions_distinct_subset [OF assms(1) sub])
  have "versions_distinct (ins @ rest)" by (rule versions_distinct_subset [OF assms(1)]) (simp add: assms(2))
  then have v: "newest vs = consider_newer (newest ins) (newest rest)"
    using newest_set [OF assms(1), of "ins @ rest"] assms(2) by simp
  have w: "newest ws = consider_newer ?s (newest rest)"
  proof (cases "set ws = insert ?s (set rest)")
    case True
    then show ?thesis using newest_set [OF dw, of "?s # rest"] by simp
  next
    case False
    then show ?thesis using newest_set [OF dw, of rest] assms(4) by simp
  qed
  from assms(3) show "newest ws = newest vs \<or> newest ws = surviving d (newest vs)"
  proof
    assume "\<forall>v\<in>set ins. v = None"
    then have none: "newest ins = None" by simp
    show ?thesis unfolding v w none by simp
  next
    assume "\<forall>v\<in>set rest. v = None"
    then have none: "newest rest = None" by simp
    show ?thesis unfolding v w none by simp
  qed
qed

lemma plan_versions:
  assumes tab: "tables_ok crc e" and ins: "set ins = set (l0_of (live e) @ l1_touched (live e))"
    and rest: "rest = filter (\<lambda>m. m \<notin> set ins) (live e)"
  shows "(\<forall>v\<in>set (disk_versions crc (engine_files e) ins k). v = None)
    \<or> (\<forall>v\<in>set (disk_versions crc (engine_files e) rest k). v = None)"
proof (rule ccontr)
  assume "\<not> ?thesis"
  then obtain a b where a: "a \<in> set ins" "map_of (table_entries crc (engine_files e) (md_path a)) k \<noteq> None"
    and b: "b \<in> set rest" "map_of (table_entries crc (engine_files e) (md_path b)) k \<noteq> None"
    by (auto simp: disk_versions_def)
  have ok: "file_ok crc (db_path e) (engine_files e) m" if "m \<in> set (live e)" for m
    using that tab by (simp add: tables_ok_def)
  have mem: "a \<in> set (live e)" "b \<in> set (live e)" "b \<notin> set ins" using a(1) b(1) ins rest by auto
  have "in_range k a" "in_range k b" using file_ok_range ok mem a(2) b(2) by blast+
  then have "b \<in> set ins" using plan_closed [OF _ ins] tab a(1) mem by (auto simp: tables_ok_def)
  then show False using mem by simp
qed

text \<open>The range of the merged table lies within that of the inputs.\<close>

lemma merged_within_hull:
  assumes "merged (map (table_entries crc fs) (map md_path ins)) d es" and "es \<noteq> []"
    and "\<And>m. m \<in> set ins \<Longrightarrow> file_ok crc db fs m"
  shows "hull_low ins \<le> fst (hd es)" and "fst (last es) \<le> hull_high ins"
proof -
  have within: "hull_low ins \<le> k \<and> k \<le> hull_high ins" if "(k, x) \<in> set es" for k x
  proof -
    note kx = that
    obtain m where m: "m \<in> set ins" "(k, x) \<in> set (table_entries crc fs (md_path m))"
      using merged_entry_from_input [OF assms(1) kx] by auto
    then have "in_range k m"
      using file_ok_range [OF assms(3)] file_ok_entries(2) [OF assms(3)] ascending_map_of_mem by metis
    then show ?thesis using m(1) by (rule in_hull)
  qed
  show "hull_low ins \<le> fst (hd es)" "fst (last es) \<le> hull_high ins"
    using within [of "fst (hd es)" "snd (hd es)"] within [of "fst (last es)" "snd (last es)"] assms(2) by auto
qed

lemma levels_ok_replace:
  assumes lv: "levels_ok ms" and ins: "set ins = set (l0_of ms @ l1_touched ms)" and ne: "l0_of ms \<noteq> []"
    and out: "\<forall>m\<in>set added. valid_range m \<and> md_level m = 1 \<and> hull_low ins \<le> md_smallest m \<and> md_largest m \<le> hull_high ins"
    and "set ms' = {m \<in> set ms. m \<notin> set ins} \<union> set added" and "length added \<le> 1"
  shows "levels_ok ms'"
proof -
  have hull: "hull_low ins = hull_low (l0_of ms @ l1_touched ms)" "hull_high ins = hull_high (l0_of ms @ l1_touched ms)"
    by (simp_all only: hull_low_def hull_high_def ins)
  have beside: "\<not> overlaps b m \<and> \<not> overlaps m b" if "b \<in> set ms" "b \<notin> set ins" "m \<in> set added" for b m
    using left_out_beside_hull [OF lv refl ne, of b] that out
    unfolding hull ins by (auto simp: ranges_overlap_def intro: less_le_trans le_less_trans)
  have one: "m = m'" if "m \<in> set added" "m' \<in> set added" for m m'
    using assms(6) that by (cases added) auto
  show ?thesis
    using lv out beside one unfolding levels_ok_def assms(5) by (simp add: ball_Un)
qed

text \<open>The output of a merge: no file at all, or one table at a new path.\<close>

definition merged_output :: "crc_fn \<Rightarrow> file_system \<Rightarrow> path \<Rightarrow> entries \<Rightarrow> sstable_metadata list \<Rightarrow> file_system \<Rightarrow> bool" where
  "merged_output crc fs p es added fs1 \<longleftrightarrow>
     (if es = [] then added = [] \<and> fs1 = fs
      else added = [Sstable_Metadata p 1 (fst (hd es)) (fst (last es))]
        \<and> (\<exists>f. fs1 = fs(p \<mapsto> f) \<and> table_holds crc f es))"

lemma merged_output_kept:
  "merged_output crc (engine_files e) p es added fs1 \<Longrightarrow> engine_files e p = None \<Longrightarrow> tables_kept e fs1"
  using tables_kept_new [of e p] by (auto simp: merged_output_def split: if_splits)

lemma replace_tables:
  assumes tab: "tables_ok crc e" and plan: "pick_compaction trigger (live e) = Inr (Some plan)" "trigger \<noteq> 0"
    and p: "engine_files e p = None" "p = path_join (db_path e) n" "table_name n"
    and mg: "merged (map (table_entries crc (engine_files e)) (map md_path (input_files plan))) True es"
    and out: "merged_output crc (engine_files e) p es added fs1"
    and run: "apply_edit Snapshot_Ok \<lparr>remove_files = map md_path (input_files plan), add_files = added,
        edit_persisted_through = None\<rparr> (engine_manifest e) fs1 = (res, fs)"
  shows "\<exists>man. res = Inr man \<and> persisted_through man = persisted_through (engine_manifest e)
    \<and> (\<forall>e'. engine_manifest e' = man \<longrightarrow> engine_files e' = fs \<longrightarrow> db_path e' = db_path e \<longrightarrow>
          tables_ok crc e' \<and> (\<forall>k. disk_view crc e' k = disk_view crc e k \<or> disk_view crc e' k = surviving True (disk_view crc e k)))"
proof -
  note out = out [unfolded merged_output_def]
  let ?man = "engine_manifest e" and ?ins = "input_files plan"
  let ?edit = "\<lparr>remove_files = map md_path ?ins, add_files = added, edit_persisted_through = None\<rparr>"
  let ?ess = "map (table_entries crc (engine_files e)) (map md_path ?ins)"
  define rest where "rest = filter (\<lambda>m. m \<notin> set ?ins) (live e)"
  have t: "manifest_ok ?man" "manifest_path ?man = manifest_file (db_path e)"
    "manifest_load (engine_files e) ?man = Inr ?man" "levels_ok (live e)"
    "\<forall>m\<in>set (live e). file_ok crc (db_path e) (engine_files e) m"
    "\<And>k. versions_distinct (disk_versions crc (engine_files e) (live e) k)"
    "\<forall>m\<in>set (live e). all_below (map_of (table_entries crc (engine_files e) (md_path m))) (covered e)"
    using tab by (simp_all add: tables_ok_def)
  note pl = pick_compaction_SomeD [OF plan]
  have ins: "set ?ins = set (l0_of (live e) @ l1_touched (live e))" by (simp add: pl(1))
  have sub: "set ?ins \<subseteq> set (live e)" by (auto simp: ins)
  have fin: "file_ok crc (db_path e) (engine_files e) m" if "m \<in> set ?ins" for m using that sub t(5) by auto
  have dk: "distinct (map md_key (live e))" using t(1) by (simp add: manifest_ok_def files_ok_def)
  have "distinct ?ins" using dk by (auto simp: pl(1) distinct_map)
  moreover have "inj_on md_key (set ?ins)" using dk by (intro inj_on_subset [OF _ sub]) (simp add: distinct_map)
  ultimately have dr: "distinct (map path_key (map md_path ?ins))" by (simp add: distinct_map comp_def)
  have eq: "path_eq (md_path a) (md_path b) \<longleftrightarrow> a = b" if "a \<in> set (live e)" "b \<in> set ?ins" for a b
    using live_path_eq [OF t(1) that(1)] that(2) sub by auto
  have rest': "filter (\<lambda>f. \<forall>q\<in>set (map md_path ?ins). \<not> path_eq (md_path f) q) (live e) = rest"
    unfolding rest_def by (rule filter_cong [OF refl]) (use eq in auto)
  have other: "fs1 (md_path m) = engine_files e (md_path m)" if "m \<in> set (live e)" for m
  proof -
    have "md_path m \<noteq> p" using bspec [OF t(5) that] p(1) by (auto simp: file_ok_def input_holds_def)
    then show ?thesis using out by (auto split: if_splits)
  qed
  have mpath: "fs1 (manifest_path ?man) = engine_files e (manifest_path ?man)"
    using table_name_not_manifest(1) [OF p(3)] p(2) t(2) out by (auto split: if_splits)
  have kept: "file_ok crc (db_path e) fs1 m" if "m \<in> set (live e)" for m
    using t(5) that file_ok_cong [of fs1 m "engine_files e"] other [OF that] by blast
  have ascending_es: "ascending es" using mg by (simp add: merged_def)
  have new: "file_ok crc (db_path e) fs1 m \<and> md_path m = p \<and> table_entries crc fs1 p = es" if "m \<in> set added" for m
  proof -
    note mem = that
    obtain f where "m = Sstable_Metadata p 1 (fst (hd es)) (fst (last es))" "fs1 p = Some f" "table_holds crc f es"
      using mem out by (auto split: if_splits)
    moreover from this have "input_holds crc fs1 p es" by (simp add: input_holds_def)
    ultimately show ?thesis using p(2,3) table_entries_holds by (auto simp: file_ok_def)
  qed
  have levels: "levels_ok (live_files (edited ?edit ?man))"
  proof (rule levels_ok_replace [OF t(4) ins pl(2)])
    show "\<forall>m\<in>set added. valid_range m \<and> md_level m = 1 \<and> hull_low ?ins \<le> md_smallest m \<and> md_largest m \<le> hull_high ?ins"
      using new out file_ok_valid merged_within_hull [OF mg _ fin] by (fastforce split: if_splits)
    show "set (live_files (edited ?edit ?man)) = {m \<in> set (live e). m \<notin> set ?ins} \<union> set added"
      using rest' by (simp add: edited_def rest_def)
    show "length added \<le> 1" using out by (simp split: if_splits)
  qed
  have valid: "validate_metadata m = Inr ()" if "m \<in> set added" for m
    using file_ok_valid [of crc "db_path e" fs1 m] new [OF that] p(2,3) path_join_not_Nil
    by (auto simp: validate_metadata_def valid_range_def table_name_def not_less)
  have fr: "files_ok rest" unfolding rest_def using t(1) by (intro files_ok_filter) (simp add: manifest_ok_def)
  have "files_ok (rest @ added)"
  proof (cases "es = []")
    case False
    then obtain m where m: "added = [m]" using out by auto
    then show ?thesis
      using fr valid new table_path_not_live [OF tab p] by (simp add: files_ok_snoc rest_def)
  qed (use fr out in simp)
  then have ok: "edit_ok ?edit ?man"
    using dr sub rest' by (auto simp: edit_ok_def manifest_contains_def)
  from t(3) mpath have "manifest_load fs1 ?man = Inr ?man" by (rule manifest_load_again)
  from apply_edit_cases [OF t(1) this run] ok
  have res: "res = Inr (edited ?edit ?man)" "manifest_load fs (edited ?edit ?man) = Inr (edited ?edit ?man)" by simp_all
  let ?man' = "edited ?edit ?man"
  have live': "set (live_files ?man') = set rest \<union> set added" using rest' by (simp add: edited_def)
  have fs_ok: "fs (md_path m) = fs1 (md_path m)" if "m \<in> set rest \<union> set added" for m
    using live_path_kept(1) [OF tab run] kept new that by (auto simp: rest_def)
  have same: "table_entries crc fs (md_path m) = table_entries crc (engine_files e) (md_path m)" if "m \<in> set rest" for m
    using fs_ok [of m] other [of m] that by (simp add: table_entries_def rest_def)
  have entries: "table_entries crc fs (md_path m) = es" if "m \<in> set added" for m
    using fs_ok [of m] new [OF that] that by (simp add: table_entries_def)
  have one: "disk_versions crc (engine_files e) ?ins k = versions_of ?ess k" for k
    by (simp add: disk_versions_def)
  have vd_ins: "versions_distinct (versions_of ?ess k)" for k
    by (rule versions_distinct_subset [OF t(6) [of k]]) (use sub in \<open>auto simp: disk_versions_def\<close>)
  have es: "map_of es k = surviving True (newest (disk_versions crc (engine_files e) ?ins k))" for k
    unfolding one by (rule merged_lookup [OF mg vd_ins])
  have ws: "set (disk_versions crc fs (live_files ?man') k) =
        insert (surviving True (newest (disk_versions crc (engine_files e) ?ins k))) (set (disk_versions crc (engine_files e) rest k))
      \<or> surviving True (newest (disk_versions crc (engine_files e) ?ins k)) = None
        \<and> set (disk_versions crc fs (live_files ?man') k) = set (disk_versions crc (engine_files e) rest k)" for k
  proof (cases "es = []")
    case True
    then have "added = []" "map_of es k = None" using out by auto
    then show ?thesis using live' same es [of k] by (auto simp: disk_versions_def image_iff)
  next
    case False
    then obtain m where "added = [m]" using out by auto
    then show ?thesis using live' same entries es [of k] by (auto simp: disk_versions_def image_iff)
  qed
  have vs: "set (disk_versions crc (engine_files e) (live e) k) =
      set (disk_versions crc (engine_files e) ?ins k) \<union> set (disk_versions crc (engine_files e) rest k)" for k
    using sub by (auto simp: disk_versions_def rest_def)
  note rv = replace_versions [OF t(6) vs plan_versions [OF tab ins rest_def] ws]
  have files: "\<forall>m\<in>set (live_files ?man'). file_ok crc (db_path e) fs m"
    using live_path_kept(2) [OF tab run] kept new live' by (auto simp: rest_def)
  have below_es: "all_below (map_of es) (covered e)"
    unfolding all_below_def
  proof (intro allI impI)
    fix k x assume "map_of es k = Some x"
    then have "(k, x) \<in> set es" by (rule map_of_SomeD)
    then obtain m where m: "m \<in> set ?ins" "(k, x) \<in> set (table_entries crc (engine_files e) (md_path m))"
      using merged_entry_from_input [OF mg] by auto
    then have "map_of (table_entries crc (engine_files e) (md_path m)) k = Some x"
      using ascending_map_of_mem [OF file_ok_entries(2) [OF fin]] by simp
    then show "unat (entry_sequence x) < covered e" using t(7) m(1) sub unfolding all_below_def by blast
  qed
  have bounds: "\<forall>m\<in>set (live_files ?man'). all_below (map_of (table_entries crc fs (md_path m))) (covered e)"
    using t(7) same entries below_es by (auto simp: live' rest_def)
  have cov: "persisted_through ?man' = persisted_through ?man" by (simp add: edited_def)
  have "tables_ok crc e' \<and> (\<forall>k. disk_view crc e' k = disk_view crc e k \<or> disk_view crc e' k = surviving True (disk_view crc e k))"
    if e': "engine_manifest e' = ?man'" "engine_files e' = fs" "db_path e' = db_path e" for e'
  proof
    have "covered e' = covered e" by (simp add: covered_def e' cov)
    then show "tables_ok crc e'"
      unfolding tables_ok_def e' using edited_ok [OF ok] t(2) res(2) levels files bounds rv(1)
      by (simp add: edited_def)
    show "\<forall>k. disk_view crc e' k = disk_view crc e k \<or> disk_view crc e' k = surviving True (disk_view crc e k)"
      unfolding disk_view_def e' using rv(2) by blast
  qed
  then show ?thesis using res(1) cov by blast
qed

section \<open>The whole step\<close>

lemma sum_list_sublist:
  "distinct xs \<Longrightarrow> distinct ys \<Longrightarrow> set xs \<subseteq> set ys \<Longrightarrow> sum_list (map f xs) \<le> sum_list (map (f :: 'a \<Rightarrow> nat) ys)"
  by (simp add: sum_list_distinct_conv_sum_set sum_mono2)

lemma metadata_of_table:
  assumes "fs p = Some f" and "table_holds crc f es" and "es \<noteq> []"
  shows "metadata_for_sstable crc fs p level = Inr (Sstable_Metadata p level (fst (hd es)) (fst (last es)))"
proof -
  have "bind_res (reader_open crc f) (iterate_table crc) = Inr es"
    using sst.iterate_content [OF assms(2)] by (simp add: table_scan_def)
  then obtain r where "reader_open crc f = Inr r" "iterate_table crc r = Inr es"
    by (cases "reader_open crc f") auto
  then show ?thesis using assms by (simp add: metadata_for_sstable_def)
qed

text \<open>What holds after a section that replaced manifest and table files without touching the
  checkpoint; a memtable frozen meanwhile is not committed yet.\<close>

lemma compaction_inv:
  assumes inv: "engine_inv crc pend e" and i: "all_from (mem_of (immutable_memtable e)) (covered e)"
    and e': "immutable_memtable e' = immutable_memtable e" "active_memtable e' = active_memtable e" "engine_wal e' = engine_wal e"
      "shutting_down e' = shutting_down e" "sstable_readers e' = sstable_readers e" "db_path e' = db_path e"
      "persisted_through (engine_manifest e') = persisted_through (engine_manifest e)"
    and kept: "tables_kept e (engine_files e')"
    and tab: "tables_ok crc e'"
    and view: "\<And>k. disk_view crc e' k = disk_view crc e k \<or> disk_view crc e' k = surviving True (disk_view crc e k)"
  shows "engine_inv crc pend e'" and "logical_map crc e' = logical_map crc e"
proof -
  note d = engine_invD [OF inv]
  have fr: "fresh_sequence pend e' = fresh_sequence pend e" by (rule fresh_sequence_same) (rule e')
  have c: "covered e' = covered e" by (simp add: covered_def e')
  have ord: "order_ok crc (fresh_sequence pend e') e'"
    using d(4) i by (simp add: order_ok_def fr e' c)
  have "log_ok crc pend e'" using d(5) by (simp add: log_ok_def e' c)
  moreover have "cache_ok crc e'"
    using d(3) cached_kept [OF d(3) kept] unfolding cache_ok_def e' by (metis option.distinct(1))
  ultimately show "engine_inv crc pend e'"
    using inv d(1) tab ord by (simp add: engine_inv_def memory_ok_def e')
  show "logical_map crc e' = logical_map crc e"
  proof
    fix k
    have "value_of (disk_view crc e' k) = value_of (disk_view crc e k)" using view [of k] by auto
    then show "logical_map crc e' k = logical_map crc e k"
      unfolding logical_map_def engine_view_layers [OF tab ord] engine_inv_layers [OF inv]
      by (simp add: e' map_add_def split: option.split)
  qed
qed

text \<open>The merge of the inputs of a plan, with the metadata the engine derives from the output.\<close>

lemma compact_publishes:
  assumes heap: "min_heap ops invar items" and crc: "running_crc crc" and inv: "engine_inv crc pend e"
    and small: "table_volume crc e < 2 ^ 28"
    and ins: "distinct ins" "set ins \<subseteq> set (live e)" "ins \<noteq> []"
    and p: "engine_files e p = None" "p = path_join (db_path e) n" "table_name n"
  shows "\<exists>es added fs1. merged (map (table_entries crc (engine_files e)) (map md_path ins)) True es
    \<and> merged_output crc (engine_files e) p es added fs1
    \<and> compact ops crc (engine_files e) (map md_path ins) p sstable_block_size bloom_bits_per_key True = Some
        (Inr (\<lparr>result_input_files = map md_path ins, result_output_files = map md_path added\<rparr>, fs1))
    \<and> metadata_for_all crc fs1 1 (map md_path added) = Inr added"
proof -
  note d = engine_invD [OF inv]
  let ?ins = "map md_path ins" and ?fs = "engine_files e"
  let ?ess = "map (table_entries crc ?fs) ?ins"
  have fin: "file_ok crc (db_path e) ?fs m" if "m \<in> set ins" for m
    using ins(2) that d(2) by (auto simp: tables_ok_def)
  have hold: "list_all2 (input_holds crc ?fs) ?ins ?ess"
    by (auto simp: list.rel_map intro!: list.rel_refl_strong file_ok_entries(1) [OF fin])
  have dl: "distinct (live e)" using d(2) by (simp add: tables_ok_def manifest_ok_def files_ok_def distinct_map)
  from sum_list_sublist [OF ins(1) dl ins(2), of "\<lambda>m. length (table_entries crc ?fs (md_path m))"]
  have vol: "sum_list (map length ?ess) < 2 ^ 28" using small by (simp add: table_volume_def comp_def)
  have np: "\<forall>q\<in>set ?ins. \<not> path_eq q p" using table_path_not_live [OF d(2) p] ins(2) by auto
  have ne: "?ins \<noteq> []" using ins(3) by simp
  have size: "unat sstable_block_size < 2 ^ 32" by (simp add: sstable_block_size_def)
  obtain es where es: "merged ?ess True es" "compact ops crc ?fs ?ins p sstable_block_size bloom_bits_per_key True = Some
    (if es = [] then Inr (\<lparr>result_input_files = ?ins, result_output_files = []\<rparr>, ?fs)
     else case sstable_build crc sstable_block_size bloom_bits_per_key es of
       Inl err \<Rightarrow> Inl err
     | Inr f \<Rightarrow> Inr (\<lparr>result_input_files = ?ins, result_output_files = [p]\<rparr>, ?fs(p \<mapsto> f)))"
    using min_heap.compact_ends [OF heap crc size hold ne p(1) np, of True bloom_bits_per_key] by blast
  show ?thesis
  proof (cases "es = []")
    case True
    then show ?thesis
      using es by (intro exI [of _ es] exI [of _ "[]"] exI [of _ ?fs]) (simp add: merged_output_def)
  next
    case False
    note fits = merged_fits [OF es(1) inputs_hold_fits [OF hold]]
    have len: "length es < 2 ^ 28" using fits(2) vol by linarith
    have "ascending es" using es(1) by (simp add: merged_def)
    then obtain f where f: "sstable_build crc sstable_block_size bloom_bits_per_key es = Inr f" "table_holds crc f es"
      using built_table [OF crc] fits(1) len False by (auto simp: fits_table_def)
    then show ?thesis
      using es False metadata_of_table [of "?fs(p \<mapsto> f)" p f crc es 1]
      by (intro exI [of _ es] exI [of _ "[Sstable_Metadata p 1 (fst (hd es)) (fst (last es))]"] exI [of _ "?fs(p \<mapsto> f)"])
        (auto simp: merged_output_def)
  qed
qed

text \<open>The edit of a compaction and the step up to it, whatever becomes of the manifest write.\<close>

abbreviation replacement :: "compaction_plan \<Rightarrow> sstable_metadata list \<Rightarrow> manifest_edit" where
  "replacement plan added \<equiv>
     \<lparr>remove_files = map md_path (input_files plan), add_files = added, edit_persisted_through = None\<rparr>"

lemma run_compaction_form:
  assumes heap: "min_heap ops invar items" and crc: "running_crc crc" and inv: "engine_inv crc pend e"
    and trigger: "l0_trigger e \<noteq> 0" and small: "table_volume crc e < 2 ^ 28"
    and due: "should_compact (l0_trigger e) (live e)"
    and alloc: "allocate_sstable_path 1 e = Some (p, e1)"
  shows "\<exists>plan n j es added fs1. pick_compaction (l0_trigger e) (live e) = Inr (Some plan)
    \<and> engine_files e p = None \<and> p = path_join (db_path e) n \<and> table_name n
    \<and> merged (map (table_entries crc (engine_files e)) (map md_path (input_files plan))) True es
    \<and> merged_output crc (engine_files e) p es added fs1
    \<and> (\<forall>io. run_compaction ops crc io e = Some
        (case apply_edit io (replacement plan added) (engine_manifest e) fs1 of
           (Inl err, fs) \<Rightarrow> (Inl err, e\<lparr>next_sstable_id := j, engine_files := fs\<rparr>)
         | (Inr man, fs) \<Rightarrow> (Inr (), e\<lparr>next_sstable_id := j, engine_files := fs, engine_manifest := man,
               compaction_count := compaction_count e + 1\<rparr>)))"
proof -
  note d = engine_invD [OF inv]
  have lv: "levels_ok (live e)" using d(2) by (simp add: tables_ok_def)
  define plan where "plan = \<lparr>input_files = sort (l0_of (live e) @ l1_touched (live e)), output_level = 1, can_drop_tombstones = True\<rparr>"
  have pick: "pick_compaction (l0_trigger e) (live e) = Inr (Some plan)"
    using pick_compaction_valid [OF lv trigger] due by (simp add: plan_def)
  have plan_fields: "output_level plan = 1" "can_drop_tombstones plan" by (simp_all add: plan_def)
  obtain j n where a: "e1 = e\<lparr>next_sstable_id := j\<rparr>" "engine_files e p = None" "table_name n" "p = path_join (db_path e) n"
    using allocate_SomeD [OF alloc] by blast
  have dl: "distinct (live e)" using d(2) by (simp add: tables_ok_def manifest_ok_def files_ok_def distinct_map)
  have ins: "distinct (input_files plan)" "set (input_files plan) \<subseteq> set (live e)" "input_files plan \<noteq> []"
    using dl pick_compaction_SomeD(2) [OF pick trigger] by (auto simp: plan_def simp flip: length_greater_0_conv)
  obtain es added fs1 where es: "merged (map (table_entries crc (engine_files e)) (map md_path (input_files plan))) True es"
    "merged_output crc (engine_files e) p es added fs1"
    "compact ops crc (engine_files e) (map md_path (input_files plan)) p sstable_block_size bloom_bits_per_key True = Some
        (Inr (\<lparr>result_input_files = map md_path (input_files plan), result_output_files = map md_path added\<rparr>, fs1))"
    "metadata_for_all crc fs1 1 (map md_path added) = Inr added"
    using compact_publishes [OF heap crc inv small ins a(2,4,3)] by blast
  have "run_compaction ops crc io e = Some
        (case apply_edit io (replacement plan added) (engine_manifest e) fs1 of
           (Inl err, fs) \<Rightarrow> (Inl err, e\<lparr>next_sstable_id := j, engine_files := fs\<rparr>)
         | (Inr man, fs) \<Rightarrow> (Inr (), e\<lparr>next_sstable_id := j, engine_files := fs, engine_manifest := man,
               compaction_count := compaction_count e + 1\<rparr>))" for io
    by (simp add: run_compaction_def pick plan_fields alloc a(1) es(3,4) Let_def split: prod.split sum.split)
  then show ?thesis using pick a(2-4) es(1,2) by blast
qed

lemma run_compaction_idle:
  assumes "engine_inv crc pend e" and "l0_trigger e \<noteq> 0" and "\<not> should_compact (l0_trigger e) (live e)"
  shows "run_compaction ops crc io e = Some (Inr (), e)"
proof -
  have "levels_ok (live e)" using engine_invD(2) [OF assms(1)] by (simp add: tables_ok_def)
  from pick_compaction_valid [OF this assms(2)] show ?thesis using assms(3) by (auto simp: run_compaction_def)
qed

text \<open>A compaction returns whenever a path can be found.\<close>

lemma run_compaction_needs_path:
  assumes "engine_inv crc pend e" and "l0_trigger e \<noteq> 0" and "should_compact (l0_trigger e) (live e)"
    and "run_compaction ops crc io e = Some r"
  shows "\<exists>p e1. allocate_sstable_path 1 e = Some (p, e1)"
proof -
  have "levels_ok (live e)" using engine_invD(2) [OF assms(1)] by (simp add: tables_ok_def)
  from pick_compaction_valid [OF this assms(2)] show ?thesis
    using assms(3,4) by (auto simp: run_compaction_def split: bind_splits)
qed

lemma run_compaction_ok:
  assumes heap: "min_heap ops invar items" and crc: "running_crc crc" and inv: "engine_inv crc pend e"
    and trigger: "l0_trigger e \<noteq> 0" and small: "table_volume crc e < 2 ^ 28"
    and i: "all_from (mem_of (immutable_memtable e)) (covered e)"
    and run: "run_compaction ops crc Snapshot_Ok e = Some (res, e')"
  shows "res = Inr () \<and> engine_inv crc pend e' \<and> logical_map crc e' = logical_map crc e \<and> covered e' = covered e
    \<and> (\<forall>k. value_of (disk_view crc e' k) = value_of (disk_view crc e k))
    \<and> tables_kept e (engine_files e') \<and> only_tables e e'"
proof (cases "should_compact (l0_trigger e) (live e)")
  case False
  from run_compaction_idle [OF inv trigger this, of ops Snapshot_Ok] have "res = Inr () \<and> e' = e" using run by auto
  then show ?thesis using inv only_tables_self by simp
next
  case True
  note d = engine_invD [OF inv]
  obtain p e1 where alloc: "allocate_sstable_path 1 e = Some (p, e1)"
    using run_compaction_needs_path [OF inv trigger True run] by blast
  obtain plan n j es added fs1 where c: "pick_compaction (l0_trigger e) (live e) = Inr (Some plan)"
    "engine_files e p = None" "p = path_join (db_path e) n" "table_name n"
    "merged (map (table_entries crc (engine_files e)) (map md_path (input_files plan))) True es"
    "merged_output crc (engine_files e) p es added fs1"
    and all: "\<And>io. run_compaction ops crc io e = Some
        (case apply_edit io (replacement plan added) (engine_manifest e) fs1 of
           (Inl err, fs) \<Rightarrow> (Inl err, e\<lparr>next_sstable_id := j, engine_files := fs\<rparr>)
         | (Inr man, fs) \<Rightarrow> (Inr (), e\<lparr>next_sstable_id := j, engine_files := fs, engine_manifest := man,
               compaction_count := compaction_count e + 1\<rparr>))"
    using run_compaction_form [OF heap crc inv trigger small True alloc] by blast
  obtain r fs where ap: "apply_edit Snapshot_Ok (replacement plan added) (engine_manifest e) fs1 = (r, fs)" by fastforce
  obtain man where man: "r = Inr man" "persisted_through man = persisted_through (engine_manifest e)"
    "\<And>e'. engine_manifest e' = man \<Longrightarrow> engine_files e' = fs \<Longrightarrow> db_path e' = db_path e \<Longrightarrow>
      tables_ok crc e' \<and> (\<forall>k. disk_view crc e' k = disk_view crc e k \<or> disk_view crc e' k = surviving True (disk_view crc e k))"
    using replace_tables [OF d(2) c(1) trigger c(2-6) ap] by blast
  have e': "res = Inr ()" "e' = e\<lparr>next_sstable_id := j, engine_files := fs, engine_manifest := man,
      compaction_count := compaction_count e + 1\<rparr>"
    using run all [of Snapshot_Ok] by (simp_all add: ap man(1))
  have tv: "tables_ok crc e' \<and> (\<forall>k. disk_view crc e' k = disk_view crc e k \<or> disk_view crc e' k = surviving True (disk_view crc e k))"
    by (rule man(3)) (simp_all add: e'(2))
  have kept: "tables_kept e (engine_files e')"
    using tables_kept_edit [OF d(2) ap merged_output_kept [OF c(6,2)]] by (simp add: e'(2))
  have "engine_inv crc pend e'" "logical_map crc e' = logical_map crc e"
    using compaction_inv [OF inv i, of e'] kept tv man(2) by (simp_all add: e'(2))
  moreover have "value_of (disk_view crc e' k) = value_of (disk_view crc e k)" for k
    using tv by (metis value_of_surviving)
  moreover have "covered e' = covered e" by (simp add: covered_def e'(2) man(2))
  moreover have "only_tables e e'" unfolding e'(2) only_tables_def by simp
  ultimately show ?thesis using e'(1) kept by simp
qed

lemma maybe_compact_ok:
  assumes "min_heap ops invar items" and "running_crc crc" and inv: "engine_inv crc pend e"
    and "l0_trigger e \<noteq> 0" and "table_volume crc e < 2 ^ 28"
    and run: "maybe_compact ops crc Snapshot_Ok e = Some (res, e')"
  shows "res = Inr () \<and> engine_inv crc pend e' \<and> logical_map crc e' = logical_map crc e \<and> covered e' = covered e
    \<and> tables_kept e (engine_files e') \<and> only_tables e e'"
proof (cases "immutable_memtable e")
  case None
  then show ?thesis using run_compaction_ok [OF assms(1-5), of res e'] run by (simp add: maybe_compact_def)
next
  case (Some m)
  then show ?thesis using run inv only_tables_self by (simp add: maybe_compact_def)
qed

end
