(* ===== verification/Engine_Restart.thy ===== *)
theory Engine_Restart
  imports Engine_Flush
begin

text \<open>
  Opening the directory of an engine that stopped: the constructor finds the tables of the
  MANIFEST readable, reads the log and replays what lies above the checkpoint, and the state it
  reaches stands for the same map, a pending write included.
\<close>

section \<open>Replaying the log\<close>

abbreviation not_covered :: "u64 option \<Rightarrow> recovered_record \<Rightarrow> bool" where
  "not_covered checkpoint r \<equiv> \<not> (\<exists>c\<in>set_option checkpoint. rec_sequence r \<le> c)"

lemma written_entry_of: "written_entry (rec_operation r) (rec_value r) (rec_sequence r) = entry_of r"
  by (simp add: entry_of_def)

lemma replay_records_Cons:
  assumes "\<forall>p. previous = Some p \<longrightarrow> p < rec_sequence r" and "rec_sequence r \<noteq> max_u64"
  shows "replay_records checkpoint previous (r # rs) m =
    (if not_covered checkpoint r
     then let (result, m') = memtable_write (rec_operation r) (rec_key r) (rec_value r) (rec_sequence r) m
          in if result \<noteq> WR_SUCCESS then Inl Engine_Replay_Rejected
             else replay_records checkpoint (Some (rec_sequence r)) rs m'
     else replay_records checkpoint (Some (rec_sequence r)) rs m)"
proof -
  have "\<not> (\<exists>p\<in>set_option previous. rec_sequence r \<le> p)" using assms(1) by (auto simp: leD)
  then show ?thesis using assms(2) by (simp add: memtable_write_def del: Bex_def)
qed

lemma replay_records_ok:
  assumes "wf_log rs" and "\<forall>p r. previous = Some p \<and> r \<in> set rs \<longrightarrow> p < rec_sequence r"
    and "memtable_inv m \<and> mt_state m = MT_MUTABLE"
    and "all_below (memtable_lookup m) n" and "\<forall>r\<in>set rs. n \<le> unat (rec_sequence r)"
  shows "\<exists>m'. replay_records checkpoint previous rs m = Inr m' \<and> memtable_inv m' \<and> mt_state m' = MT_MUTABLE
    \<and> memtable_lookup m' = fold (\<lambda>r f. f(rec_key r \<mapsto> entry_of r)) (filter (not_covered checkpoint) rs) (memtable_lookup m)"
  using assms
proof (induction rs arbitrary: previous m n)
  case (Cons r rs)
  have wf: "wf_log rs" and later: "\<forall>q\<in>set rs. rec_sequence r < rec_sequence q" and "rec_sequence r \<noteq> max_u64"
    using Cons.prems(1) by simp_all
  then have step: "replay_records checkpoint previous (r # rs) m =
    (if not_covered checkpoint r
     then let (result, m') = memtable_write (rec_operation r) (rec_key r) (rec_value r) (rec_sequence r) m
          in if result \<noteq> WR_SUCCESS then Inl Engine_Replay_Rejected
             else replay_records checkpoint (Some (rec_sequence r)) rs m'
     else replay_records checkpoint (Some (rec_sequence r)) rs m)"
    using Cons.prems(2) by (intro replay_records_Cons) auto
  have prev: "\<forall>p q. Some (rec_sequence r) = Some p \<and> q \<in> set rs \<longrightarrow> p < rec_sequence q" using later by simp
  show ?case
  proof (cases "not_covered checkpoint r")
    case True
    have nr: "n \<le> unat (rec_sequence r)" using Cons.prems(5) by simp
    have inv: "memtable_inv m" "mt_state m = MT_MUTABLE" using Cons.prems(3) by simp_all
    note st = mt.store_fresh [OF inv Cons.prems(4) nr, of "rec_operation r" "rec_key r" "rec_value r", unfolded written_entry_of]
    obtain m' where m': "memtable_write (rec_operation r) (rec_key r) (rec_value r) (rec_sequence r) m = (WR_SUCCESS, m')"
      using st(1) by (cases "memtable_write (rec_operation r) (rec_key r) (rec_value r) (rec_sequence r) m") simp
    have after: "\<forall>q\<in>set rs. Suc (unat (rec_sequence r)) \<le> unat (rec_sequence q)"
      using later by (simp add: word_less_nat_alt Suc_le_eq)
    have "memtable_inv m' \<and> mt_state m' = MT_MUTABLE" "all_below (memtable_lookup m') (Suc (unat (rec_sequence r)))"
      "memtable_lookup m' = (memtable_lookup m)(rec_key r \<mapsto> entry_of r)"
      using st(2-5) by (simp_all add: m')
    from Cons.IH [OF wf prev this(1,2) after] show ?thesis
      using True \<open>memtable_lookup m' = _\<close> unfolding step m' by (simp del: fun_upd_apply Bex_def)
  next
    case False
    have "\<forall>q\<in>set rs. n \<le> unat (rec_sequence q)" using Cons.prems(5) by simp
    from Cons.IH [OF wf prev Cons.prems(3,4) this] False show ?thesis unfolding step by (auto simp del: fun_upd_apply)
  qed
qed simp

lemma not_covered_iff: "not_covered (persisted_through (engine_manifest e)) r \<longleftrightarrow> covered e \<le> unat (rec_sequence r)"
  by (auto simp: covered_def word_le_nat_alt Suc_le_eq not_le split: option.splits)

lemma replay_empty:
  assumes "wf_log rs"
  shows "\<exists>m. replay_records (persisted_through (engine_manifest e)) None rs (memtable_new t) = Inr m
    \<and> memtable_inv m \<and> mt_state m = MT_MUTABLE
    \<and> memtable_lookup m = replay_map (filter (\<lambda>r. covered e \<le> unat (rec_sequence r)) rs)"
proof -
  have "filter (not_covered (persisted_through (engine_manifest e))) rs = filter (\<lambda>r. covered e \<le> unat (rec_sequence r)) rs"
    by (simp only: not_covered_iff)
  moreover have "mt_state (memtable_new t) = MT_MUTABLE" by (simp add: memtable_new_def)
  ultimately show ?thesis
    using replay_records_ok [OF assms, of None "memtable_new t" 0 "persisted_through (engine_manifest e)"]
    unfolding replay_map_def by (simp del: Bex_def)
qed

lemma replay_map_mem:
  "replay_map rs k = Some x \<Longrightarrow> \<exists>r\<in>set rs. x = entry_of r"
  by (induction rs rule: rev_induct) (auto simp: replay_map_snoc replay_map_def split: if_splits)

section \<open>The tables are readable\<close>

lemma validate_tables_ok:
  "\<forall>m\<in>set ms. file_ok crc db fs m \<Longrightarrow> validate_tables crc fs ms = Inr ()"
proof (induction ms)
  case (Cons m ms)
  then obtain f r where "fs (md_path m) = Some f" "reader_open crc f = Inr r"
    using file_ok_reader [of crc db fs m] by auto
  then show ?case using Cons by simp
qed simp

text \<open>The manifest's constructor removes a leftover temporary file and loads the snapshot.\<close>

lemma manifest_reload:
  assumes "tables_ok crc e"
  shows "manifest_new (engine_files e) (manifest_file (db_path e)) =
    (Inr (engine_manifest e), (engine_files e)(temporary_path (manifest_file (db_path e)) := None))"
proof -
  let ?man = "engine_manifest e" and ?p = "manifest_file (db_path e)"
  let ?fs = "(engine_files e)(temporary_path ?p := None)"
  have t: "manifest_path ?man = ?p" "manifest_load (engine_files e) ?man = Inr ?man" using assms by (simp_all add: tables_ok_def)
  have "manifest_load ?fs ?man = Inr ?man"
    by (rule manifest_load_again [OF t(2)]) (simp add: t(1))
  moreover have "manifest_load ?fs \<lparr>manifest_path = ?p, live_files = [], persisted_through = None\<rparr> = manifest_load ?fs ?man"
    by (cases ?man) (use t(1) in \<open>auto simp: manifest_load_def split: option.splits\<close>)
  ultimately show ?thesis by (simp add: manifest_new_def)
qed

section \<open>The log is read back\<close>

lemma recovered_wal:
  assumes "wal_ok crc w rs" and "tail = [] \<or> parse_record crc tail = Parse_Torn"
  shows "\<exists>w0. wal_open (Some (wal_file w @ tail)) = Inr w0
    \<and> wal_recover crc w0 = (Inr rs, w\<lparr>next_sequence := next_after 0 rs\<rparr>)"
    and "wal_ok crc (w\<lparr>next_sequence := next_after 0 rs\<rparr>) rs"
proof -
  have w: "wal_file w = wal_header @ log_bytes crc rs" "wal_pos w = length (wal_file w)" "wf_log rs"
    using assms(1) by (auto simp: wal_ok_def)
  show "wal_ok crc (w\<lparr>next_sequence := next_after 0 rs\<rparr>) rs" by (rule wal_restart_ok [OF assms(1)])
  let ?w0 = "\<lparr>wal_file = wal_file w @ tail, wal_pos = length (wal_file w @ tail), next_sequence = 0\<rparr>"
  have "wal_open (Some (wal_file w @ tail)) = Inr ?w0" by (simp add: w(1) wal_open_log)
  moreover have "wal_recover crc ?w0 = (Inr rs, w\<lparr>next_sequence := next_after 0 rs\<rparr>)"
    using assms(2)
  proof
    assume "tail = []"
    then show ?thesis using wal_recover_log [of ?w0 crc rs] w by (cases w) simp
  next
    assume "parse_record crc tail = Parse_Torn"
    then show ?thesis using wal_recover_torn [of ?w0 crc rs tail] w by (cases w) simp
  qed
  ultimately show "\<exists>w0. wal_open (Some (wal_file w @ tail)) = Inr w0
    \<and> wal_recover crc w0 = (Inr rs, w\<lparr>next_sequence := next_after 0 rs\<rparr>)" by blast
qed

text \<open>The checkpoint is below every sequence number in use.\<close>

lemma covered_le_fresh: "engine_inv crc pend e \<Longrightarrow> covered e \<le> fresh_sequence pend e"
  using engine_invD(4) by (fastforce simp: order_ok_def)

lemma checkpoint_not_max:
  assumes "engine_inv crc pend e" and "persisted_through (engine_manifest e) = Some c"
  shows "c \<noteq> max_u64"
proof
  assume "c = max_u64"
  then have "covered e = 2 ^ 64" using assms(2) by (simp add: covered_def max_u64_def)
  moreover have "fresh_sequence pend e < 2 ^ 64"
    using unsigned_less [of "next_sequence (engine_wal e)"] unsigned_less [of "rec_sequence (the pend)"]
    by (cases pend) (simp_all add: fresh_sequence_def)
  ultimately show False using covered_le_fresh [OF assms(1)] by simp
qed

text \<open>Layers that hold the same versions once the committed part of the immutable memtable is
  taken away.\<close>

lemma committed_layers:
  assumes "engine_inv crc pend e"
  shows "disk_view crc e ++ above (covered e) (mem_of (immutable_memtable e)) = disk_view crc e ++ mem_of (immutable_memtable e)"
proof -
  have "all_from (mem_of (immutable_memtable e)) (covered e) \<or> immutable_committed crc e"
    using engine_invD(4) [OF assms] by (simp add: order_ok_def)
  then show ?thesis
  proof
    assume c: "immutable_committed crc e"
    then have "all_below (mem_of (immutable_memtable e)) (covered e)" by (simp add: immutable_committed_def all_below_def)
    from above_all_below [OF this] show ?thesis
      using c by (auto simp: immutable_committed_def map_add_def fun_eq_iff split: option.splits)
  qed (simp add: above_all_from)
qed

lemma with_pending_add: "f ++ with_pending pend g = with_pending pend (f ++ g)"
  by (cases pend) (simp_all add: with_pending_def map_add_upd)

section \<open>The whole restart\<close>

lemma engine_restart_ok:
  assumes inv: "engine_inv crc pend e" and db: "db_path e \<noteq> []" and mb: "memtable_bytes_from_config mb = Inr target"
    and trigger: "trigger \<noteq> 0" and tail: "tail = [] \<or> parse_record crc tail = Parse_Torn"
  shows "\<exists>e'. engine_new crc mb trigger (db_path e) (Some (wal_file (engine_wal e) @ tail)) (engine_files e) = Inr e'
    \<and> engine_inv crc None e' \<and> engine_view crc e' = with_pending pend (engine_view crc e)
    \<and> l0_trigger e' = trigger \<and> db_path e' = db_path e \<and> \<not> shutting_down e' \<and> background_error e' = None
    \<and> immutable_memtable e' = None \<and> flush_queue e' = tq_new"
proof -
  note d = engine_invD [OF inv]
  let ?man = "engine_manifest e"
  define fs' where "fs' = (engine_files e)(temporary_path (manifest_file (db_path e)) := None)"
  obtain rs where rs: "wal_ok crc (engine_wal e) rs"
    "replay_map (filter (\<lambda>r. covered e \<le> unat (rec_sequence r)) rs) =
      with_pending pend (above (covered e) (mem_of (immutable_memtable e)) ++ mem_of (active_memtable e))"
    using d(5) by (auto simp: log_ok_def)
  have wf: "wf_log rs" using rs(1) by (simp add: wal_ok_def)
  obtain w0 where w0: "wal_open (Some (wal_file (engine_wal e) @ tail)) = Inr w0"
    "wal_recover crc w0 = (Inr rs, (engine_wal e)\<lparr>next_sequence := next_after 0 rs\<rparr>)"
    using recovered_wal(1) [OF rs(1) tail] by blast
  obtain m where m: "replay_records (persisted_through ?man) None rs (memtable_new target) = Inr m"
    "memtable_inv m" "mt_state m = MT_MUTABLE"
    "memtable_lookup m = replay_map (filter (\<lambda>r. covered e \<le> unat (rec_sequence r)) rs)"
    using replay_empty [OF wf] by blast
  define w where "w = (case persisted_through ?man of
      None \<Rightarrow> (engine_wal e)\<lparr>next_sequence := next_after 0 rs\<rparr>
    | Some c \<Rightarrow> ensure_next_sequence_at_least (c + 1) ((engine_wal e)\<lparr>next_sequence := next_after 0 rs\<rparr>))"
  define e' where "e' = \<lparr>db_path = db_path e, memtable_target_bytes = target, next_sstable_id = 1, engine_wal = w,
      l0_trigger = trigger, active_memtable = Some m, immutable_memtable = None, engine_manifest = ?man,
      flush_queue = tq_new, background_error = None, shutting_down = False, sstable_readers = (\<lambda>_. None),
      flush_count = 0, compaction_count = 0, engine_files = fs'\<rparr>"
  have keep: "fs' (md_path f) = engine_files e (md_path f)" if f: "file_ok crc (db_path e) (engine_files e) f" for f
  proof -
    obtain n where "table_name n" "md_path f = path_join (db_path e) n" using f by (auto simp: file_ok_def)
    then show ?thesis using table_name_not_manifest(2) [of n "db_path e"] by (auto simp: fs'_def)
  qed
  have fok: "\<forall>f\<in>set (live e). file_ok crc (db_path e) (engine_files e) f" using d(2) by (simp add: tables_ok_def)
  have fok': "\<forall>f\<in>set (live e). file_ok crc (db_path e) fs' f" using fok file_ok_cong [of fs' _ "engine_files e"] keep by blast
  note valid = validate_tables_ok [OF this]
  have run: "engine_new crc mb trigger (db_path e) (Some (wal_file (engine_wal e) @ tail)) (engine_files e) = Inr e'"
    using checkpoint_not_max [OF inv]
    by (auto simp: engine_new_def db mb w0 policy_new_def trigger manifest_reload [OF d(2), folded fs'_def] engine_recover_def valid m(1)
        e'_def w_def simp del: list.map split: option.split)
  have c: "covered e' = covered e" and fr: "fresh_sequence None e' = unat (next_sequence w)"
    by (simp_all add: covered_def e'_def fresh_sequence_def)
  have same: "table_entries crc fs' (md_path f) = table_entries crc (engine_files e) (md_path f)" if "f \<in> set (live e)" for f
    using keep fok that by (simp add: table_entries_def)
  have vers: "disk_versions crc fs' (live e) k = disk_versions crc (engine_files e) (live e) k" for k
    by (rule disk_versions_cong) (use keep fok in blast)
  have dv: "disk_view crc e' = disk_view crc e" by (intro ext) (simp add: disk_view_def e'_def vers)
  have "fs' (manifest_path ?man) = engine_files e (manifest_path ?man)" using d(2) by (simp add: tables_ok_def fs'_def)
  then have "manifest_load fs' ?man = Inr ?man" using d(2) manifest_load_again unfolding tables_ok_def by blast
  then have tab: "tables_ok crc e'"
    using d(2) fok' vers same unfolding tables_ok_def c by (simp add: e'_def)
  have wok: "wal_ok crc w rs"
    using recovered_wal(2) [OF rs(1) tail] wal_ok_ensure by (auto simp: w_def split: option.split)
  have cn: "covered e \<le> unat (next_sequence w)"
  proof (cases "persisted_through ?man")
    case (Some x)
    then have "x + 1 \<le> next_sequence w" by (auto simp: w_def ensure_next_sequence_at_least_def)
    then show ?thesis
      using unat_u64_inc [OF checkpoint_not_max [OF inv Some]] Some by (simp add: covered_def word_le_nat_alt)
  qed (simp add: covered_def)
  have ent: "\<exists>r\<in>set rs. x = entry_of r \<and> covered e \<le> unat (rec_sequence r)" if "memtable_lookup m k = Some x" for k x
    using replay_map_mem that unfolding m(4) by fastforce
  have below: "all_below (memtable_lookup m) (unat (next_sequence w))"
    using ent wok by (fastforce simp: all_below_def wal_ok_def word_less_nat_alt entry_of_def)
  have from_c: "all_from (memtable_lookup m) (covered e)"
    using ent by (fastforce simp: all_from_def entry_of_def)
  have ord: "order_ok crc (fresh_sequence None e') e'"
    unfolding order_ok_def c fr using below from_c cn
    by (auto simp: e'_def intro!: exI [of _ "covered e"])
  have log: "log_ok crc None e'"
    unfolding log_ok_def c using wok m(4)
    by (intro exI [of _ rs]) (simp add: e'_def with_pending_def)
  have mem: "memory_ok e'" and cache: "cache_ok crc e'" using m(2,3) by (simp_all add: memory_ok_def cache_ok_def e'_def)
  have inv': "engine_inv crc None e'" using mem tab cache ord log by (simp add: engine_inv_def)
  have "engine_view crc e' = disk_view crc e ++ memtable_lookup m"
    unfolding engine_view_layers [OF tab ord] dv by (simp add: e'_def)
  also have "\<dots> = with_pending pend (engine_view crc e)"
    unfolding m(4) rs(2) with_pending_add map_add_assoc committed_layers [OF inv] engine_inv_layers [OF inv] ..
  finally show ?thesis using run inv' by (intro exI [of _ e']) (simp add: e'_def)
qed

end
