(* ===== verification/Engine_Crash.thy ===== *)
theory Engine_Crash
  imports Engine_Compact Engine_Restart
begin

text \<open>
  What a crash or a failing manifest write in the middle of a flush or a compaction leaves on
  disk: the files of some state that satisfies the invariant and stands for the same map. With
  the restart this is the durability of the engine.
\<close>

section \<open>Files that do not matter\<close>

text \<open>Leftovers: new files and the temporary snapshot may change, the manifest and the files that
  existed may not.\<close>

definition leftovers :: "engine \<Rightarrow> file_system \<Rightarrow> bool" where
  "leftovers e fs \<longleftrightarrow>
     fs (manifest_file (db_path e)) = engine_files e (manifest_file (db_path e)) \<and> tables_kept e fs"

lemma leftovers_live:
  "leftovers e fs \<Longrightarrow> file_ok crc (db_path e) (engine_files e) m \<Longrightarrow> fs (md_path m) = engine_files e (md_path m)"
  by (auto simp: leftovers_def tables_kept_def file_ok_def input_holds_def)

lemma leftovers_inv:
  assumes inv: "engine_inv crc pend e" and fs: "leftovers e fs"
  shows "engine_inv crc pend (e\<lparr>engine_files := fs\<rparr>)"
    and "engine_view crc (e\<lparr>engine_files := fs\<rparr>) = engine_view crc e"
proof -
  let ?e = "e\<lparr>engine_files := fs\<rparr>"
  note d = engine_invD [OF inv]
  have fok: "\<forall>f\<in>set (live e). file_ok crc (db_path e) (engine_files e) f" using d(2) by (simp add: tables_ok_def)
  have keep: "fs (md_path f) = engine_files e (md_path f)" if "f \<in> set (live e)" for f
    using leftovers_live [OF fs] fok that by blast
  have vers: "disk_versions crc fs (live e) k = disk_versions crc (engine_files e) (live e) k" for k
    by (rule disk_versions_cong) (rule keep)
  have dv: "disk_view crc ?e = disk_view crc e" by (intro ext) (simp add: disk_view_def vers)
  have c: "covered ?e = covered e" by (simp add: covered_def)
  have fr: "fresh_sequence pend ?e = fresh_sequence pend e" by (rule fresh_sequence_same) simp
  have "manifest_load fs (engine_manifest e) = Inr (engine_manifest e)"
    using d(2) fs manifest_load_again unfolding tables_ok_def leftovers_def by metis
  moreover have "\<forall>f\<in>set (live e). file_ok crc (db_path e) fs f" using fok keep file_ok_cong [of fs _ "engine_files e"] by blast
  ultimately have tab: "tables_ok crc ?e"
    using d(2) vers keep unfolding tables_ok_def c by (simp add: table_entries_def)
  have cache: "cache_ok crc ?e"
    using d(3) fs unfolding cache_ok_def leftovers_def tables_kept_def by (fastforce simp del: list.map)
  have ord: "order_ok crc (fresh_sequence pend ?e) ?e"
    using d(4) dv unfolding order_ok_def immutable_committed_def c fr by simp
  have log: "log_ok crc pend ?e" using d(5) by (simp add: log_ok_def c)
  show "engine_inv crc pend ?e" using inv d(1) tab cache ord log by (simp add: engine_inv_def memory_ok_def)
  show "engine_view crc ?e = engine_view crc e" using dv by (simp add: engine_view_def fun_eq_iff)
qed

section \<open>A manifest edit that fails\<close>

lemma apply_edit_any:
  assumes "apply_edit io edit m fs = (res, fs')"
  shows "(\<forall>q. q \<noteq> temporary_path (manifest_path m) \<longrightarrow> fs' q = fs q)
    \<or> (\<exists>man. apply_edit Snapshot_Ok edit m fs = (Inr man, fs'))"
  using assms
  by (auto simp: apply_edit_def persist_snapshot_def split: sum.splits prod.splits option.splits snapshot_io.splits)

text \<open>The durable state of an engine, as a restart sees it.\<close>

definition durable_as :: "crc_fn \<Rightarrow> recovered_record option \<Rightarrow> engine \<Rightarrow> engine \<Rightarrow> bool" where
  "durable_as crc pend e e' \<longleftrightarrow>
     (\<exists>s. engine_inv crc pend s \<and> engine_files s = engine_files e' \<and> engine_wal s = engine_wal e' \<and> db_path s = db_path e'
        \<and> active_memtable s = active_memtable e' \<and> logical_map crc s = logical_map crc e)
     \<and> tables_kept e (engine_files e')"

lemma durable_asI:
  "engine_inv crc pend s \<Longrightarrow> engine_files s = engine_files e' \<Longrightarrow> engine_wal s = engine_wal e' \<Longrightarrow> db_path s = db_path e' \<Longrightarrow>
   active_memtable s = active_memtable e' \<Longrightarrow> logical_map crc s = logical_map crc e \<Longrightarrow> tables_kept e (engine_files e') \<Longrightarrow>
   durable_as crc pend e e'"
  by (auto simp: durable_as_def)

lemma logical_map_view: "engine_view crc s = engine_view crc e \<Longrightarrow> logical_map crc s = logical_map crc e"
  by (simp add: logical_map_def fun_eq_iff)

lemma durable_leftovers:
  assumes "engine_inv crc pend e" and "leftovers e (engine_files e')" and "engine_wal e' = engine_wal e" and "db_path e' = db_path e"
    and "active_memtable e' = active_memtable e"
  shows "durable_as crc pend e e'"
  using leftovers_inv [OF assms(1,2)] assms(2-5)
  by (intro durable_asI [of _ _ "e\<lparr>engine_files := engine_files e'\<rparr>"] logical_map_view) (auto simp: leftovers_def)

lemma leftovers_edit:
  assumes "tables_ok crc e" and "\<forall>q. q \<noteq> temporary_path (manifest_path (engine_manifest e)) \<longrightarrow> fs' q = fs q" and "leftovers e fs"
  shows "leftovers e fs'"
proof -
  have t: "manifest_path (engine_manifest e) = manifest_file (db_path e)" using assms(1) by (simp add: tables_ok_def)
  have "fs' (path_join (db_path e) n) = fs (path_join (db_path e) n)" if "table_name n" for n
    using assms(2) table_name_not_manifest(2) [OF that] unfolding t by blast
  moreover have "fs' (manifest_file (db_path e)) = fs (manifest_file (db_path e))" using assms(2) by (simp add: t)
  ultimately show ?thesis using assms(3) by (simp add: leftovers_def tables_kept_def)
qed

lemma leftovers_new_table:
  assumes "engine_files e p = None" "p = path_join (db_path e) n" "table_name n"
  shows "leftovers e ((engine_files e)(p \<mapsto> f))"
  using assms tables_kept_new table_name_not_manifest(1) [OF assms(3), of "db_path e"]
  by (auto simp: leftovers_def simp del: list.map)

section \<open>Flush and compaction under a failing manifest\<close>

lemma flush_crash:
  assumes crc: "running_crc crc" and inv: "engine_inv crc pend e" and i: "immutable_memtable e = Some m"
    and pending: "all_from (memtable_lookup m) (covered e)" and fits: "fits_table (mtable m)"
    and run: "flush_build crc io m e = Some (res, e')"
  shows "durable_as crc pend e e'"
proof -
  note d = engine_invD [OF inv]
  have m: "mt_state m = MT_IMMUTABLE" "ascending (mtable m)" "mtable m \<noteq> []"
    using d(1) i by (auto simp: memory_ok_def memtable_inv_def)
  obtain f where f: "sstable_build crc sstable_block_size bloom_bits_per_key (mtable m) = Inr f"
    using built_table [OF crc fits m(2,3)] by blast
  obtain p e1 where alloc: "allocate_sstable_path 0 e = Some (p, e1)"
    using run m by (auto simp: flush_build_def entry_count_def split: bind_splits)
  obtain j n where a: "e1 = e\<lparr>next_sstable_id := j\<rparr>" "engine_files e p = None" "table_name n" "p = path_join (db_path e) n"
    using allocate_SomeD [OF alloc] by blast
  define edit where "edit = \<lparr>remove_files = [], add_files = [Sstable_Metadata p 0 (fst (hd (mtable m))) (fst (last (mtable m)))],
      edit_persisted_through = Some (flushed_through (mtable m))\<rparr>"
  let ?fs1 = "(engine_files e)(p \<mapsto> f)"
  have out: "flush_build crc io m e = Some
      (case apply_edit io edit (engine_manifest e) ?fs1 of
         (Inl err, fs) \<Rightarrow> (Inl err, e\<lparr>next_sstable_id := j, engine_files := fs\<rparr>)
       | (Inr man, fs) \<Rightarrow> (Inr (flushed_through (mtable m)), e\<lparr>next_sstable_id := j, engine_files := fs,
            engine_manifest := man, flush_count := flush_count e + 1\<rparr>))" for io
    using m by (simp add: flush_build_def entry_count_def alloc a(1) memtable_iterate_def Let_def f edit_def split: prod.split sum.split)
  obtain r fs where ap: "apply_edit io edit (engine_manifest e) ?fs1 = (r, fs)" by fastforce
  have e': "engine_files e' = fs" "engine_wal e' = engine_wal e" "db_path e' = db_path e" "active_memtable e' = active_memtable e"
    using run ap by (auto simp: out split: sum.splits)
  from apply_edit_any [OF ap] show ?thesis
  proof
    assume "\<forall>q. q \<noteq> temporary_path (manifest_path (engine_manifest e)) \<longrightarrow> fs q = ?fs1 q"
    from leftovers_edit [OF d(2) this leftovers_new_table [OF a(2,4,3)]] show ?thesis
      by (intro durable_leftovers [OF inv]) (simp_all add: e')
  next
    assume "\<exists>man. apply_edit Snapshot_Ok edit (engine_manifest e) ?fs1 = (Inr man, fs)"
    then obtain s where s: "flush_build crc Snapshot_Ok m e = Some (Inr (flushed_through (mtable m)), s)"
      "engine_files s = fs" "engine_wal s = engine_wal e" "db_path s = db_path e" "active_memtable s = active_memtable e"
      using out [of Snapshot_Ok] by auto
    from flush_build_ok [OF crc inv i pending fits s(1)] show ?thesis
      using s(2-5) by (intro durable_asI [of _ _ s] logical_map_view) (simp_all add: e')
  qed
qed

lemma compaction_crash:
  assumes heap: "min_heap ops invar items" and crc: "running_crc crc" and inv: "engine_inv crc pend e"
    and trigger: "l0_trigger e \<noteq> 0" and small: "table_volume crc e < 2 ^ 28"
    and i: "all_from (mem_of (immutable_memtable e)) (covered e)"
    and run: "run_compaction ops crc io e = Some (res, e')"
  shows "durable_as crc pend e e'"
proof (cases "should_compact (l0_trigger e) (live e)")
  case False
  from run_compaction_idle [OF inv trigger this, of ops io] run have "e' = e" by simp
  then show ?thesis using inv by (intro durable_asI [of _ _ e]) simp_all
next
  case True
  note d = engine_invD [OF inv]
  obtain p e1 where alloc: "allocate_sstable_path 1 e = Some (p, e1)"
    using run_compaction_needs_path [OF inv trigger True run] by blast
  obtain plan n j es added fs1 where c: "engine_files e p = None" "p = path_join (db_path e) n" "table_name n"
    "merged_output crc (engine_files e) p es added fs1"
    and all: "\<And>io. run_compaction ops crc io e = Some
        (case apply_edit io (replacement plan added) (engine_manifest e) fs1 of
           (Inl err, fs) \<Rightarrow> (Inl err, e\<lparr>next_sstable_id := j, engine_files := fs\<rparr>)
         | (Inr man, fs) \<Rightarrow> (Inr (), e\<lparr>next_sstable_id := j, engine_files := fs, engine_manifest := man,
               compaction_count := compaction_count e + 1\<rparr>))"
    using run_compaction_form [OF heap crc inv trigger small True alloc] by blast
  obtain r fs where ap: "apply_edit io (replacement plan added) (engine_manifest e) fs1 = (r, fs)" by fastforce
  have e': "engine_files e' = fs" "engine_wal e' = engine_wal e" "db_path e' = db_path e" "active_memtable e' = active_memtable e"
    using run all [of io] ap by (auto split: sum.splits)
  have left: "leftovers e fs1"
  proof (cases "es = []")
    case True
    then show ?thesis using c(4) by (simp add: merged_output_def leftovers_def)
  next
    case False
    then show ?thesis using c(4) leftovers_new_table [OF c(1-3)] by (auto simp: merged_output_def)
  qed
  from apply_edit_any [OF ap] show ?thesis
  proof
    assume "\<forall>q. q \<noteq> temporary_path (manifest_path (engine_manifest e)) \<longrightarrow> fs q = fs1 q"
    from leftovers_edit [OF d(2) this left] show ?thesis
      by (intro durable_leftovers [OF inv]) (simp_all add: e')
  next
    assume "\<exists>man. apply_edit Snapshot_Ok (replacement plan added) (engine_manifest e) fs1 = (Inr man, fs)"
    then obtain s where s: "run_compaction ops crc Snapshot_Ok e = Some (Inr (), s)"
      "engine_files s = fs" "engine_wal s = engine_wal e" "db_path s = db_path e" "active_memtable s = active_memtable e"
      using all [of Snapshot_Ok] by auto
    from run_compaction_ok [OF heap crc inv trigger small i s(1)] show ?thesis
      using s(2-5) by (intro durable_asI [of _ _ s]) (simp_all add: e')
  qed
qed

section \<open>A crash and a restart\<close>

lemma restart_durable:
  assumes "durable_as crc None e e'" and "db_path e' \<noteq> []" and "memtable_bytes_from_config mb = Inr target"
    and "trigger \<noteq> 0"
  shows "\<exists>e2. engine_new crc mb trigger (db_path e') (Some (wal_file (engine_wal e'))) (engine_files e') = Inr e2
    \<and> engine_inv crc None e2 \<and> logical_map crc e2 = logical_map crc e"
proof -
  obtain s where s: "engine_inv crc None s" "engine_files s = engine_files e'" "engine_wal s = engine_wal e'"
    "db_path s = db_path e'" "logical_map crc s = logical_map crc e" using assms(1) by (auto simp: durable_as_def)
  obtain e2 where e2: "engine_new crc mb trigger (db_path s) (Some (wal_file (engine_wal s) @ [])) (engine_files s) = Inr e2"
    "engine_inv crc None e2" "engine_view crc e2 = with_pending None (engine_view crc s)"
    using engine_restart_ok [OF s(1) _ assms(3,4), of "[]"] assms(2) s(4) by auto
  then have "logical_map crc e2 = logical_map crc s" by (intro logical_map_view) (simp add: with_pending_def)
  then show ?thesis using e2 s by auto
qed

end
