(* ===== verification/Engine_Calls.thy ===== *)
theory Engine_Calls
  imports Engine_Crash
begin

text \<open>
  Whole calls of the engine composed from their critical sections: a fresh database, an
  uninterrupted write, and one task of the worker, which always returns.
\<close>

section \<open>A path is always found\<close>

lemma sstable_path_inject: "sstable_path e level i = sstable_path e level j \<longleftrightarrow> i = j"
proof
  assume "sstable_path e level i = sstable_path e level j"
  then have "decimal (unat i) = decimal (unat j)" by (simp add: sstable_path_def)
  then have "digits_value (decimal (unat i)) = digits_value (decimal (unat j))" by simp
  then show "i = j" by (simp add: word_unat_eq_iff)
qed simp

lemma allocate_unfold:
  "allocate_sstable_path level e =
     (if engine_files e (sstable_path e level (next_sstable_id e)) = None
      then Some (sstable_path e level (next_sstable_id e), e\<lparr>next_sstable_id := next_sstable_id e + 1\<rparr>)
      else allocate_sstable_path level (e\<lparr>next_sstable_id := next_sstable_id e + 1\<rparr>))"
  by (subst allocate_sstable_path.simps) (simp add: Let_def)

lemma sstable_path_next [simp]: "sstable_path (e\<lparr>next_sstable_id := n\<rparr>) level i = sstable_path e level i"
  by (simp add: sstable_path_def)

lemma allocate_finds:
  "engine_files e (sstable_path e level (next_sstable_id e + of_nat k)) = None \<Longrightarrow> allocate_sstable_path level e \<noteq> None"
proof (induction k arbitrary: e)
  case 0
  then show ?case by (subst allocate_unfold) simp
next
  case (Suc k)
  have "allocate_sstable_path level (e\<lparr>next_sstable_id := next_sstable_id e + 1\<rparr>) \<noteq> None"
    using Suc.prems by (intro Suc.IH) (simp add: add.assoc)
  then show ?case by (subst allocate_unfold) simp
qed

text \<open>A directory with fewer than $2^{64}$ files has a free name.\<close>

lemma allocate_total:
  assumes "room 0 e"
  shows "allocate_sstable_path level e \<noteq> None"
proof -
  have "\<exists>i. engine_files e (sstable_path e level i) = None"
  proof (rule ccontr)
    assume "\<not> ?thesis"
    then have sub: "range (sstable_path e level) \<subseteq> dom (engine_files e)" by auto
    have "card (range (sstable_path e level)) = CARD(64 word)"
      by (intro card_image) (simp add: inj_on_def sstable_path_inject)
    also have "\<dots> = 2 ^ 64" by (simp add: card_word)
    finally show False using card_mono [OF _ sub] assms by (simp add: room_def)
  qed
  then obtain i where "engine_files e (sstable_path e level i) = None" by blast
  then show ?thesis
    using allocate_finds [of e level "unat (i - next_sstable_id e)"] by simp
qed

section \<open>An uninterrupted write\<close>

lemma prepare_active:
  assumes "memory_ok e" and "prepare_for_write key cand e = Some (Inr u, e1)"
  shows "\<not> shutting_down e \<and> background_error e = None \<and> (\<exists>m. active_memtable e1 = Some m) \<and> engine_wal e1 = engine_wal e
    \<and> shutting_down e1 = shutting_down e \<and> background_error e1 = background_error e"
proof -
  have s: "\<not> shutting_down e" "background_error e = None" using assms(2)
    by (auto simp: prepare_for_write_def split: if_splits option.splits)
  then obtain m where m: "active_memtable e = Some m" using assms(1) by (auto simp: memory_ok_def)
  show ?thesis
  proof (cases "rotation_required e key cand")
    case True
    then have "immutable_memtable e = None" "0 < entry_count m" "rotate_active e = (Inr u, e1)"
      using assms(2) s m by (auto simp: prepare_for_write_def rotation_required_def split: if_splits)
    then have "e1 = snd (rotate_active e)" "snd (rotate_active e) = e\<lparr>immutable_memtable := Some (frozen m),
      active_memtable := Some (memtable_new (memtable_target_bytes e)),
      flush_queue := snd (tq_push (frozen m) (flush_queue e))\<rparr>"
      using rotate_cases(1) [OF assms(1) m] by simp_all
    then show ?thesis using s by simp
  next
    case False
    then show ?thesis using assms(2) s m by (auto simp: prepare_for_write_def)
  qed
qed

lemma engine_write_ok:
  assumes inv: "engine_inv crc None e" and run: "engine_write crc Io_Complete op key val e = Some (res, e')"
  shows "engine_inv crc None e' \<and>
    engine_view crc e' = (case res of Inl err \<Rightarrow> engine_view crc e
      | Inr u \<Rightarrow> (engine_view crc e)(key \<mapsto> written_entry op val (next_sequence (engine_wal e))))"
proof -
  obtain r1 e1 where p: "prepare_for_write key (write_candidate op val) e = Some (r1, e1)"
    using run by (auto simp: engine_write_def split: option.splits)
  note pi = prepare_inv [OF inv p]
  show ?thesis
  proof (cases r1)
    case (Inl err)
    then show ?thesis using run p pi by (auto simp: engine_write_def)
  next
    case (Inr u)
    note pa = prepare_active [OF engine_invD(1) [OF inv] p [unfolded Inr]]
    obtain m where m: "active_memtable e1 = Some m" using pa by blast
    have inv1: "engine_inv crc None e1" using pi by simp
    obtain r2 e2 where app: "append_wal crc Io_Complete op key val e1 = (r2, e2)" by fastforce
    note ai = append_wal_inv [OF inv1 app]
    show ?thesis
    proof (cases r2)
      case (Inl err)
      then show ?thesis using run p Inr app ai pi by (auto simp: engine_write_def)
    next
      case (Inr sequence)
      have seq: "sequence = next_sequence (engine_wal e)" and view2: "engine_view crc e2 = engine_view crc e"
        and inv2: "engine_inv crc (Some (new_record op key (stored_value op val) sequence)) e2"
        and m2: "active_memtable e2 = Some m"
        using ai Inr pa pi m by auto
      obtain e3 where e3: "insert_active op key val sequence e2 = (Inr (), e3)" "engine_inv crc None e3"
        "engine_view crc e3 = (engine_view crc e2)(key \<mapsto> written_entry op val sequence)"
        using insert_active_inv [OF inv2 m2] by blast
      have "res = Inr ()" "e' = e3"
        using run p \<open>r1 = Inr u\<close> app Inr e3(1) by (simp_all add: engine_write_def)
      then show ?thesis using e3(2,3) view2 seq by simp
    qed
  qed
qed

lemma append_wal_accepts:
  assumes inv: "engine_inv crc None e" and "next_sequence (engine_wal e) \<noteq> max_u64" and "fits_record key (stored_value op val)"
  shows "\<exists>e'. append_wal crc Io_Complete op key val e = (Inr (next_sequence (engine_wal e)), e')"
proof -
  obtain rs where "wal_ok crc (engine_wal e) rs" using engine_invD(5) [OF inv] by (auto simp: log_ok_def)
  from wlog.append_accepts [OF this assms(2,3), of op] show ?thesis
    unfolding append_wal_write
    by (cases "write_record crc Io_Complete op key (stored_value op val) (engine_wal e)") simp
qed

lemma prepare_accepts:
  assumes "memory_ok e" and "\<not> shutting_down e" and "background_error e = None" and "\<not> tq_shutting_down (flush_queue e)"
    and "\<not> (rotation_required e key cand \<and> immutable_memtable e \<noteq> None)"
  shows "\<exists>e1. prepare_for_write key cand e = Some (Inr (), e1)"
proof (cases "rotation_required e key cand")
  case True
  then obtain m where m: "active_memtable e = Some m" "0 < entry_count m"
    by (auto simp: rotation_required_def split: option.splits)
  have i: "immutable_memtable e = None" using assms(5) True by simp
  have "rotate_active e = (Inr (), snd (rotate_active e))"
    using rotate_cases(2) [OF assms(1) m(1) i m(2)] tq.push_open [OF assms(4)] by (metis fst_conv prod.collapse)
  then show ?thesis using assms(2,3) True i by (auto simp: prepare_for_write_def intro: exI [of _ "snd (rotate_active e)"])
qed (use assms in \<open>simp add: prepare_for_write_def\<close>)

lemma engine_write_accepts:
  assumes inv: "engine_inv crc None e" and open_for: "\<not> shutting_down e" "background_error e = None" "\<not> tq_shutting_down (flush_queue e)"
    and "\<not> (rotation_required e key (write_candidate op val) \<and> immutable_memtable e \<noteq> None)"
    and "next_sequence (engine_wal e) \<noteq> max_u64" and "fits_record key (stored_value op val)"
  shows "\<exists>e'. engine_write crc Io_Complete op key val e = Some (Inr (), e')"
proof -
  note mem = engine_invD(1) [OF inv]
  obtain e1 where p: "prepare_for_write key (write_candidate op val) e = Some (Inr (), e1)"
    using prepare_accepts [OF mem open_for assms(5)] by blast
  have inv1: "engine_inv crc None e1" using prepare_inv [OF inv p] by simp
  obtain m where m: "active_memtable e1 = Some m" "engine_wal e1 = engine_wal e" using prepare_active [OF mem p] by blast
  obtain e2 where a: "append_wal crc Io_Complete op key val e1 = (Inr (next_sequence (engine_wal e1)), e2)"
    using append_wal_accepts [OF inv1, of key op val] assms(6,7) m(2) by auto
  have "engine_inv crc (Some (new_record op key (stored_value op val) (next_sequence (engine_wal e1)))) e2" "active_memtable e2 = Some m"
    using append_wal_inv [OF inv1 a] m(1) by auto
  from insert_active_inv [OF this] show ?thesis using p a by (auto simp: engine_write_def)
qed

text \<open>A write waits exactly when it needs a rotation and the immutable slot is taken.\<close>

lemma prepare_waits_iff:
  "prepare_for_write key cand e = None \<longleftrightarrow>
     \<not> shutting_down e \<and> background_error e = None \<and> rotation_required e key cand \<and> immutable_memtable e \<noteq> None"
  by (auto simp: prepare_for_write_def split: option.splits)

section \<open>One task of the worker\<close>

lemma flush_build_total:
  assumes "room 0 e"
  shows "flush_build crc io m e \<noteq> None"
proof -
  obtain p e1 where "allocate_sstable_path 0 e = Some (p, e1)" using allocate_total [OF assms, of 0] by auto
  then show ?thesis by (auto simp: flush_build_def Let_def split: sum.split prod.split)
qed

lemma run_compaction_total:
  assumes "min_heap ops invar items" and "room 0 e"
  shows "run_compaction ops crc io e \<noteq> None"
proof -
  consider err where "pick_compaction (l0_trigger e) (live e) = Inl err"
    | "pick_compaction (l0_trigger e) (live e) = Inr None"
    | plan where "pick_compaction (l0_trigger e) (live e) = Inr (Some plan)"
    by (metis obj_sumE option.exhaust)
  then show ?thesis
  proof cases
    case 3
    obtain p e1 where a: "allocate_sstable_path (output_level plan) e = Some (p, e1)"
      using allocate_total [OF assms(2), of "output_level plan"] by auto
    obtain res where c: "compact ops crc (engine_files e1) (map md_path (input_files plan)) p
        sstable_block_size bloom_bits_per_key (can_drop_tombstones plan) = Some res"
      using min_heap.compact_total [OF assms(1)] by fastforce
    show ?thesis by (simp add: run_compaction_def 3 a c Let_def split: sum.split prod.split)
  qed (simp_all add: run_compaction_def)
qed

lemma worker_task_ok:
  assumes heap: "min_heap ops invar items" and crc: "running_crc crc" and inv: "engine_inv crc None e"
    and i: "immutable_memtable e = Some m" and pending: "all_from (memtable_lookup m) (covered e)"
    and trigger: "l0_trigger e \<noteq> 0" and rm: "room 3 e" and fits: "list_all entry_fits (mtable m)"
    and small: "table_volume crc e + length (mtable m) < 2 ^ 28"
  shows "\<exists>e'. worker_task ops crc m e = Some (True, e') \<and> engine_inv crc None e' \<and> logical_map crc e' = logical_map crc e
    \<and> immutable_memtable e' = None \<and> active_memtable e' = active_memtable e \<and> background_error e' = background_error e
    \<and> (\<forall>k x. memtable_lookup m k = Some x \<longrightarrow> unat (entry_sequence x) < covered e')"
proof -
  have ft: "fits_table (mtable m)" using fits small by (simp add: fits_table_def)
  have "room 0 e" using rm by (simp add: room_def)
  then obtain r e1 where b: "flush_build crc Snapshot_Ok m e = Some (r, e1)" using flush_build_total [of e crc Snapshot_Ok m] by auto
  obtain through where f: "r = Inr through" "Suc (unat through) = covered e1" "engine_inv crc None e1"
    "engine_view crc e1 = engine_view crc e" "immutable_committed crc e1"
    "table_volume crc e1 = table_volume crc e + length (mtable m)" "room 0 e1"
    "only_tables e e1"
    using flush_build_ok [OF crc inv i pending ft b] rm by auto
  note same = only_tables_simps [OF f(8)]
  have i1: "immutable_memtable e1 = Some m" using same i by simp
  let ?e2 = "e1\<lparr>immutable_memtable := None\<rparr>"
  note cl = flush_clear_ok [OF f(3) i1 f(5)]
  have c2: "covered ?e2 = covered e1" by (simp add: covered_def)
  obtain w where w: "flush_reclaim crc through ?e2 = (Inr (), ?e2\<lparr>engine_wal := w\<rparr>)"
    "engine_inv crc None (?e2\<lparr>engine_wal := w\<rparr>)" "engine_view crc (?e2\<lparr>engine_wal := w\<rparr>) = engine_view crc ?e2"
    using flush_reclaim_ok [OF cl(2), of through] f(2) c2 by auto
  let ?e3 = "?e2\<lparr>engine_wal := w\<rparr>"
  have e3: "l0_trigger ?e3 \<noteq> 0" "table_volume crc ?e3 < 2 ^ 28" "room 0 ?e3"
    using f(6,7) same trigger small by (simp_all add: table_volume_def room_def)
  obtain r4 e4 where c: "maybe_compact ops crc Snapshot_Ok ?e3 = Some (r4, e4)"
    using run_compaction_total [OF heap e3(3), of crc Snapshot_Ok] by (auto simp: maybe_compact_def)
  note ok = maybe_compact_ok [OF heap crc w(2) e3(1,2) c]
  have run: "worker_task ops crc m e = Some (True, e4)" using b f(1) cl(1) w(1) c ok by (simp add: worker_task_def)
  have "logical_map crc e4 = logical_map crc e"
    using ok logical_map_view [of crc ?e3 e] w(3) cl(3) f(4) by simp
  moreover have "unat (entry_sequence x) < covered e4" if "memtable_lookup m k = Some x" for k x
  proof -
    have "unat (entry_sequence x) < covered e1"
      using f(5) i1 that by (simp add: immutable_committed_def)
    then show ?thesis using ok by (simp add: covered_def)
  qed
  moreover have "immutable_memtable e4 = None" "active_memtable e4 = active_memtable e" "background_error e4 = background_error e"
    using only_tables_simps [of ?e3 e4] ok same by simp_all
  ultimately show ?thesis using run ok by blast
qed

section \<open>A fresh database\<close>

lemma engine_fresh:
  assumes "p \<noteq> []" and "memtable_bytes_from_config mb = Inr target" and "trigger \<noteq> 0"
    and "fs (manifest_file p) = None"
  shows "\<exists>e. engine_new crc mb trigger p None fs = Inr e \<and> engine_inv crc None e \<and> engine_view crc e = Map.empty
    \<and> e = \<lparr>db_path = p, memtable_target_bytes = target, next_sstable_id = 1,
        engine_wal = \<lparr>wal_file = wal_header, wal_pos = length wal_header, next_sequence = 0\<rparr>, l0_trigger = trigger,
        active_memtable = Some (memtable_new target), immutable_memtable = None,
        engine_manifest = \<lparr>manifest_path = manifest_file p, live_files = [], persisted_through = None\<rparr>,
        flush_queue = tq_new, background_error = None, shutting_down = False, sstable_readers = (\<lambda>_. None),
        flush_count = 0, compaction_count = 0, engine_files = fs(temporary_path (manifest_file p) := None)\<rparr>"
proof -
  define fs' where "fs' = fs(temporary_path (manifest_file p) := None)"
  define man where "man = \<lparr>manifest_path = manifest_file p, live_files = [], persisted_through = None\<rparr>"
  define w where "w = \<lparr>wal_file = wal_header, wal_pos = length wal_header, next_sequence = (0 :: u64)\<rparr>"
  let ?e = "\<lparr>db_path = p, memtable_target_bytes = target, next_sstable_id = 1, engine_wal = w, l0_trigger = trigger,
        active_memtable = Some (memtable_new target), immutable_memtable = None, engine_manifest = man,
        flush_queue = tq_new, background_error = None, shutting_down = False, sstable_readers = (\<lambda>_. None),
        flush_count = 0, compaction_count = 0, engine_files = fs'\<rparr>"
  have load: "manifest_load fs' man = Inr man" using assms(4) by (simp add: manifest_load_def man_def fs'_def)
  have wal: "wal_ok crc w []" by (simp add: wal_ok_def w_def)
  have rec: "wal_recover crc w = (Inr [], w)"
    using wal_ok_recover [OF wal] by (simp add: w_def next_after_def)
  have opened: "wal_open None = Inr w" by (simp add: wal_open_def w_def)
  have new: "manifest_new fs (manifest_file p) = (Inr man, fs')"
    using load unfolding manifest_new_def fs'_def man_def by (simp add: Let_def)
  have run: "engine_new crc mb trigger p None fs = Inr ?e"
    using assms(1-3) new rec opened
    by (simp add: engine_new_def policy_new_def engine_recover_def man_def del: list.map)
  have tab: "tables_ok crc ?e"
    using load by (simp add: tables_ok_def man_def manifest_ok_def files_ok_def levels_ok_def disk_versions_def versions_distinct_def)
  have ord: "order_ok crc (fresh_sequence None ?e) ?e"
    by (auto simp: order_ok_def covered_def man_def)
  have "memory_ok ?e" by (simp add: memory_ok_def) (simp add: memtable_new_def)
  moreover have "log_ok crc None ?e"
    unfolding log_ok_def using wal by (intro exI [of _ "[]"]) (simp add: replay_map_def with_pending_def)
  ultimately have "engine_inv crc None ?e" using tab ord by (simp add: engine_inv_def cache_ok_def)
  moreover have "engine_view crc ?e = Map.empty"
    by (simp add: engine_view_def disk_view_def disk_versions_def man_def fun_eq_iff)
  ultimately show ?thesis using run unfolding w_def man_def fs'_def by blast
qed

end
