(* ===== verification/Engine_Threads.thy ===== *)
theory Engine_Threads
  imports Engine_Calls
begin

text \<open>
  The threads of the engine: writers serialised by \<open>write_mutex_\<close>, the background worker, one
  effective call of \<open>shutdown\<close> and any number of readers, interleaved at their critical sections.
  Each thread has a program counter; a step of a thread is a function that is \<open>None\<close> where the
  thread blocks. Whoever has a program counter other than \<open>No_Writer\<close> holds \<open>write_mutex_\<close>.

  The record keeps, for stating properties, the abstract map after every step so far.
\<close>

section \<open>Program counters\<close>

datatype writer =
    No_Writer
  | Preparing operation_type bytes bytes
  | Appending operation_type bytes bytes
  | Inserting operation_type bytes bytes u64

datatype worker =
    Popping
  | Flushing memtable
  | Clearing memtable u64
  | Reclaiming u64
  | Checking
  | Compacting
  | Stopped

datatype stopper =
    Running
  | At_Barrier
  | Scheduling
  | Closing "kerror + unit"
  | Joining "kerror + unit"
  | Finished "kerror + unit"

datatype reader =
    Idle
  | Snapshotting bytes nat
  | Searching bytes nat "sstable_metadata list" "internal_entry option"
  | Answered bytes nat get_result
  | Failed kerror

record threads =
  shared :: engine
  writer_at :: writer
  worker_at :: worker
  stopper_at :: stopper
  reader_at :: "nat \<Rightarrow> reader"
  past :: "(bytes \<Rightarrow> bytes option) list"

section \<open>The steps of each thread\<close>

definition writer_step :: "crc_fn \<Rightarrow> threads \<Rightarrow> threads option" where
  "writer_step crc s =
     (case writer_at s of
        No_Writer \<Rightarrow> None
      | Preparing op key val \<Rightarrow>
          (case prepare_for_write key (write_candidate op val) (shared s) of
             None \<Rightarrow> None
           | Some (Inl err, e) \<Rightarrow> Some (s\<lparr>shared := e, writer_at := No_Writer\<rparr>)
           | Some (Inr _, e) \<Rightarrow> Some (s\<lparr>shared := e, writer_at := Appending op key val\<rparr>))
      | Appending op key val \<Rightarrow>
          (case append_wal crc Io_Complete op key val (shared s) of
             (Inl err, e) \<Rightarrow> Some (s\<lparr>shared := e, writer_at := No_Writer\<rparr>)
           | (Inr sequence, e) \<Rightarrow> Some (s\<lparr>shared := e, writer_at := Inserting op key val sequence\<rparr>))
      | Inserting op key val sequence \<Rightarrow>
          (case insert_active op key val sequence (shared s) of
             (_, e) \<Rightarrow> Some (s\<lparr>shared := e, writer_at := No_Writer\<rparr>)))"

text \<open>How the worker's writes of the manifest end is an input of its steps. An exception of a task records the error, closes the queue and ends the loop.\<close>

definition worker_fails :: "kerror \<Rightarrow> engine \<Rightarrow> threads \<Rightarrow> threads" where
  "worker_fails err e s = s\<lparr>shared := worker_failed err e, worker_at := Stopped\<rparr>"

definition worker_step_io :: "'h heap_ops \<Rightarrow> crc_fn \<Rightarrow> snapshot_io \<Rightarrow> threads \<Rightarrow> threads option" where
  "worker_step_io ops crc io s =
     (case worker_at s of
        Popping \<Rightarrow>
          (case tq_wait_and_pop (flush_queue (shared s)) of
             None \<Rightarrow> None
           | Some (None, q) \<Rightarrow> Some (s\<lparr>shared := (shared s)\<lparr>flush_queue := q\<rparr>, worker_at := Stopped\<rparr>)
           | Some (Some m, q) \<Rightarrow> Some (s\<lparr>shared := (shared s)\<lparr>flush_queue := q\<rparr>, worker_at := Flushing m\<rparr>))
      | Flushing m \<Rightarrow>
          (case flush_build crc io m (shared s) of
             None \<Rightarrow> None
           | Some (Inl err, e) \<Rightarrow> Some (worker_fails err e s)
           | Some (Inr through, e) \<Rightarrow> Some (s\<lparr>shared := e, worker_at := Clearing m through\<rparr>))
      | Clearing m through \<Rightarrow>
          (case flush_clear m (shared s) of
             (Inl err, e) \<Rightarrow> Some (worker_fails err e s)
           | (Inr _, e) \<Rightarrow> Some (s\<lparr>shared := e, worker_at := Reclaiming through\<rparr>))
      | Reclaiming through \<Rightarrow>
          if writer_at s \<noteq> No_Writer then None
          else (case flush_reclaim crc through (shared s) of
                  (Inl err, e) \<Rightarrow> Some (worker_fails err e s)
                | (Inr _, e) \<Rightarrow> Some (s\<lparr>shared := e, worker_at := Checking\<rparr>))
      | Checking \<Rightarrow>
          Some (s\<lparr>worker_at := (if immutable_memtable (shared s) \<noteq> None then Popping else Compacting)\<rparr>)
      | Compacting \<Rightarrow>
          (case run_compaction ops crc io (shared s) of
             None \<Rightarrow> None
           | Some (Inl err, e) \<Rightarrow> Some (worker_fails err e s)
           | Some (Inr _, e) \<Rightarrow> Some (s\<lparr>shared := e, worker_at := Popping\<rparr>))
      | Stopped \<Rightarrow> None)"

text \<open>The worker when every system call succeeds.\<close>

abbreviation worker_step :: "'h heap_ops \<Rightarrow> crc_fn \<Rightarrow> threads \<Rightarrow> threads option" where
  "worker_step ops crc \<equiv> worker_step_io ops crc Snapshot_Ok"

definition stopper_step :: "threads \<Rightarrow> threads option" where
  "stopper_step s =
     (case stopper_at s of
        Running \<Rightarrow>
          (case shutdown_begin (shared s) of
             (False, _) \<Rightarrow> None
           | (True, e) \<Rightarrow> Some (s\<lparr>shared := e, stopper_at := At_Barrier\<rparr>))
      | At_Barrier \<Rightarrow> if writer_at s \<noteq> No_Writer then None else Some (s\<lparr>stopper_at := Scheduling\<rparr>)
      | Scheduling \<Rightarrow>
          (case shutdown_schedule (shared s) of
             None \<Rightarrow> None
           | Some (r, e) \<Rightarrow> Some (s\<lparr>shared := e, stopper_at := Closing r\<rparr>))
      | Closing r \<Rightarrow> Some (s\<lparr>shared := shutdown_close (shared s), stopper_at := Joining r\<rparr>)
      | Joining r \<Rightarrow>
          if worker_at s = Stopped then Some (s\<lparr>stopper_at := Finished (shutdown_report r (shared s))\<rparr>) else None
      | Finished r \<Rightarrow> None)"

text \<open>A call of \<open>get\<close> starts with the memtables; the live files are copied in a second section and
  searched one by one, each through the reader cache.\<close>

definition reader_call :: "nat \<Rightarrow> bytes \<Rightarrow> threads \<Rightarrow> threads" where
  "reader_call i key s =
     s\<lparr>reader_at := (reader_at s)(i :=
         (case get_memory key (shared s) of
            Some r \<Rightarrow> Answered key (length (past s)) r
          | None \<Rightarrow> Snapshotting key (length (past s))))\<rparr>"

definition reader_step :: "crc_fn \<Rightarrow> nat \<Rightarrow> threads \<Rightarrow> threads option" where
  "reader_step crc i s =
     (case reader_at s i of
        Snapshotting key start \<Rightarrow>
          Some (s\<lparr>reader_at := (reader_at s)(i := Searching key start (live_files (engine_manifest (shared s))) None)\<rparr>)
      | Searching key start [] winner \<Rightarrow>
          Some (s\<lparr>reader_at := (reader_at s)(i := Answered key start (result_of_entry winner))\<rparr>)
      | Searching key start (m # ms) winner \<Rightarrow>
          (case search_tables crc key [m] winner (shared s) of
             (Inl err, e) \<Rightarrow> Some (s\<lparr>shared := e, reader_at := (reader_at s)(i := Failed err)\<rparr>)
           | (Inr winner', e) \<Rightarrow>
               Some (s\<lparr>shared := e, reader_at := (reader_at s)(i := Searching key start ms winner')\<rparr>))
      | Answered key start r \<Rightarrow> Some (s\<lparr>reader_at := (reader_at s)(i := Idle)\<rparr>)
      | _ \<Rightarrow> None)"

section \<open>Interleaving\<close>

definition observed :: "crc_fn \<Rightarrow> threads \<Rightarrow> threads" where
  "observed crc s = s\<lparr>past := past s @ [logical_map crc (shared s)]\<rparr>"

inductive thread_step :: "'h heap_ops \<Rightarrow> crc_fn \<Rightarrow> threads \<Rightarrow> threads \<Rightarrow> bool"
  for ops :: "'h heap_ops" and crc :: crc_fn where
  writer_enters: "writer_at s = No_Writer \<Longrightarrow> thread_step ops crc s (observed crc (s\<lparr>writer_at := Preparing op key val\<rparr>))"
| writer_moves: "writer_step crc s = Some t \<Longrightarrow> thread_step ops crc s (observed crc t)"
| worker_moves: "worker_step ops crc s = Some t \<Longrightarrow> thread_step ops crc s (observed crc t)"
| stopper_moves: "stopper_step s = Some t \<Longrightarrow> thread_step ops crc s (observed crc t)"
| reader_starts: "reader_at s i = Idle \<Longrightarrow> thread_step ops crc s (observed crc (reader_call i key s))"
| reader_moves: "reader_step crc i s = Some t \<Longrightarrow> thread_step ops crc s (observed crc t)"

inductive_cases thread_stepE: "thread_step ops crc s t"

text \<open>The state after construction, and what keeps the table writer within its limits: fewer than
  $2^{28}$ entries on disk and in a frozen memtable, entries that fit a block, and free names.\<close>

definition started :: "crc_fn \<Rightarrow> engine \<Rightarrow> bool" where
  "started crc e \<longleftrightarrow>
     engine_inv crc None e \<and> immutable_memtable e = None \<and> flush_queue e = tq_new \<and> background_error e = None
     \<and> \<not> shutting_down e \<and> l0_trigger e \<noteq> 0"

definition threads_new :: "crc_fn \<Rightarrow> engine \<Rightarrow> threads" where
  "threads_new crc e =
     \<lparr>shared = e, writer_at = No_Writer, worker_at = Popping, stopper_at = Running, reader_at = (\<lambda>_. Idle),
      past = [logical_map crc e]\<rparr>"

definition within_limits :: "crc_fn \<Rightarrow> engine \<Rightarrow> bool" where
  "within_limits crc e \<longleftrightarrow>
     room 0 e \<and> table_volume crc e < 2 ^ 28 \<and> (\<forall>m. immutable_memtable e = Some m \<longrightarrow> fits_table (mtable m))"

inductive reachable :: "'h heap_ops \<Rightarrow> crc_fn \<Rightarrow> engine \<Rightarrow> threads \<Rightarrow> bool"
  for ops :: "'h heap_ops" and crc :: crc_fn and e :: engine where
  reachable_start: "started crc e \<Longrightarrow> reachable ops crc e (threads_new crc e)"
| reachable_step: "reachable ops crc e s \<Longrightarrow> within_limits crc (shared s) \<Longrightarrow> thread_step ops crc s t \<Longrightarrow> reachable ops crc e t"

section \<open>The invariant\<close>

definition pending_write :: "writer \<Rightarrow> recovered_record option" where
  "pending_write w =
     (case w of Inserting op key val sequence \<Rightarrow> Some (new_record op key (stored_value op val) sequence) | _ \<Rightarrow> None)"

abbreviation slot_list :: "engine \<Rightarrow> memtable list" where
  "slot_list e \<equiv> (case immutable_memtable e of None \<Rightarrow> [] | Some m \<Rightarrow> [m])"

definition uncommitted :: "engine \<Rightarrow> bool" where
  "uncommitted e \<longleftrightarrow> all_from (mem_of (immutable_memtable e)) (covered e)"

text \<open>Slot, queue and worker: a frozen memtable is queued until the worker takes it, and stays in
  the slot until its table is committed.\<close>

fun slot_ok :: "crc_fn \<Rightarrow> worker \<Rightarrow> engine \<Rightarrow> bool" where
  "slot_ok crc (Flushing m) e \<longleftrightarrow>
     immutable_memtable e = Some m \<and> tq_queue (flush_queue e) = [] \<and> uncommitted e"
| "slot_ok crc (Clearing m through) e \<longleftrightarrow>
     immutable_memtable e = Some m \<and> tq_queue (flush_queue e) = [] \<and> immutable_committed crc e
     \<and> Suc (unat through) = covered e"
| "slot_ok crc (Reclaiming through) e \<longleftrightarrow>
     tq_queue (flush_queue e) = slot_list e \<and> uncommitted e \<and> unat through < covered e"
| "slot_ok crc Stopped e \<longleftrightarrow>
     immutable_memtable e = None \<and> tq_queue (flush_queue e) = [] \<and> tq_shutting_down (flush_queue e)"
| "slot_ok crc _ e \<longleftrightarrow> tq_queue (flush_queue e) = slot_list e \<and> uncommitted e"

definition memory_drained :: "engine \<Rightarrow> bool" where
  "memory_drained e \<longleftrightarrow> (\<forall>m. active_memtable e = Some m \<longrightarrow> mtable m = [])"

fun stopper_ok :: "stopper \<Rightarrow> worker \<Rightarrow> engine \<Rightarrow> bool" where
  "stopper_ok Running w e \<longleftrightarrow> \<not> shutting_down e \<and> \<not> tq_shutting_down (flush_queue e)"
| "stopper_ok (Closing r) w e \<longleftrightarrow>
     shutting_down e \<and> \<not> tq_shutting_down (flush_queue e) \<and> r = Inr () \<and> memory_drained e"
| "stopper_ok (Joining r) w e \<longleftrightarrow>
     shutting_down e \<and> tq_shutting_down (flush_queue e) \<and> r = Inr () \<and> memory_drained e"
| "stopper_ok (Finished r) w e \<longleftrightarrow>
     shutting_down e \<and> tq_shutting_down (flush_queue e) \<and> r = Inr () \<and> memory_drained e \<and> w = Stopped"
| "stopper_ok _ w e \<longleftrightarrow> shutting_down e \<and> \<not> tq_shutting_down (flush_queue e)"

fun writer_ok :: "writer \<Rightarrow> stopper \<Rightarrow> engine \<Rightarrow> bool" where
  "writer_ok (Appending op key val) p e \<longleftrightarrow> active_memtable e \<noteq> None \<and> (p = Running \<or> p = At_Barrier)"
| "writer_ok (Inserting op key val sequence) p e \<longleftrightarrow> active_memtable e \<noteq> None \<and> (p = Running \<or> p = At_Barrier)"
| "writer_ok _ p e \<longleftrightarrow> True"

definition control_inv :: "crc_fn \<Rightarrow> threads \<Rightarrow> bool" where
  "control_inv crc s \<longleftrightarrow>
     engine_inv crc (pending_write (writer_at s)) (shared s) \<and> background_error (shared s) = None
     \<and> l0_trigger (shared s) \<noteq> 0 \<and> slot_ok crc (worker_at s) (shared s)
     \<and> stopper_ok (stopper_at s) (worker_at s) (shared s) \<and> writer_ok (writer_at s) (stopper_at s) (shared s)"

end
