(* ===== verification/Engine_Interleaving.thy ===== *)
theory Engine_Interleaving
  imports Engine_Threads
begin

text \<open>
  Every step of every thread keeps the invariant of the interleaved engine. The second half is
  about readers: what a reader may still find is a value its key had since the call started.
\<close>

section \<open>Frames\<close>

lemma engine_inv_control:
  assumes inv: "engine_inv crc pend e"
    and e': "db_path e' = db_path e" "engine_wal e' = engine_wal e" "active_memtable e' = active_memtable e"
      "immutable_memtable e' = immutable_memtable e" "engine_manifest e' = engine_manifest e"
      "sstable_readers e' = sstable_readers e" "engine_files e' = engine_files e" "shutting_down e \<Longrightarrow> shutting_down e'"
  shows "engine_inv crc pend e'" and "engine_view crc e' = engine_view crc e" and "disk_view crc e' = disk_view crc e"
    and "covered e' = covered e"
proof -
  note d = engine_invD [OF inv]
  show dv: "disk_view crc e' = disk_view crc e" by (rule disk_view_same) (simp_all add: e')
  show c: "covered e' = covered e" by (simp add: covered_def e')
  have fr: "fresh_sequence pend e' = fresh_sequence pend e" by (rule fresh_sequence_same) (rule e')
  show "engine_view crc e' = engine_view crc e" using dv by (simp add: engine_view_def fun_eq_iff e')
  have "order_ok crc (fresh_sequence pend e') e'"
    using d(4) dv unfolding order_ok_def immutable_committed_def c fr by (simp add: e')
  moreover have "log_ok crc pend e'" using d(5) unfolding log_ok_def c by (simp add: e')
  ultimately show "engine_inv crc pend e'"
    using inv d(1) tables_ok_same [OF d(2)] cache_ok_same [OF d(3)] e'(8)
    by (auto simp: engine_inv_def memory_ok_def e'(1-7))
qed

text \<open>The values of a key in the layers, and a move that brings in none but the current value.\<close>

definition layer_values :: "crc_fn \<Rightarrow> engine \<Rightarrow> bytes \<Rightarrow> bytes option set" where
  "layer_values crc e key =
     insert (value_of (disk_view crc e key))
       (value_of ` Some ` (set_option (mem_of (immutable_memtable e) key) \<union> set_option (mem_of (active_memtable e) key)))"

definition moves_to :: "crc_fn \<Rightarrow> engine \<Rightarrow> engine \<Rightarrow> bool" where
  "moves_to crc e e' \<longleftrightarrow>
     db_path e' = db_path e \<and> tables_kept e (engine_files e')
     \<and> (\<forall>key. layer_values crc e' key \<subseteq> insert (logical_map crc e' key) (layer_values crc e key))"

lemma moves_to_same:
  assumes "db_path e' = db_path e" "active_memtable e' = active_memtable e" "immutable_memtable e' = immutable_memtable e"
    "engine_manifest e' = engine_manifest e" "engine_files e' = engine_files e"
  shows "moves_to crc e e'"
  using assms disk_view_same [of e' e crc] by (auto simp: moves_to_def layer_values_def)

lemma moves_to_refl [simp]: "moves_to crc e e"
  by (rule moves_to_same) simp_all

lemma moves_to_freeze:
  assumes "e' = e\<lparr>immutable_memtable := Some (frozen m), active_memtable := a, flush_queue := q\<rparr>"
    and "active_memtable e = Some m" and "mem_of a = Map.empty"
  shows "moves_to crc e e'"
proof -
  have "memtable_lookup (frozen m) = memtable_lookup m" by (simp add: memtable_lookup_def fun_eq_iff)
  moreover have "disk_view crc e' = disk_view crc e" by (rule disk_view_same) (simp_all add: assms(1))
  ultimately show ?thesis using assms by (auto simp: moves_to_def layer_values_def)
qed

section \<open>The writer\<close>

lemma prepare_cases:
  assumes "prepare_for_write key cand e = Some (r, e')"
  obtains (rejected) err where "r = Inl err" "e' = e"
    | (kept) "r = Inr ()" "e' = e" "\<not> shutting_down e" "background_error e = None"
    | (rotated) m where "\<not> shutting_down e" "immutable_memtable e = None" "active_memtable e = Some m" "0 < entry_count m"
        "rotate_active e = (r, e')"
proof (cases "shutting_down e \<or> background_error e \<noteq> None \<or> \<not> rotation_required e key cand")
  case True
  then show ?thesis using assms rejected kept by (auto simp: prepare_for_write_def split: if_splits option.splits)
next
  case False
  then show ?thesis
    using assms rotated by (auto simp: prepare_for_write_def rotation_required_def split: if_splits option.splits)
qed

lemma slot_ok_put:
  assumes "slot_ok crc w e" and "immutable_memtable e = None" and "\<not> tq_shutting_down (flush_queue e)"
    and "e' = e\<lparr>immutable_memtable := Some m, active_memtable := a, flush_queue := snd (tq_push m (flush_queue e))\<rparr>"
    and "uncommitted e'"
  shows "slot_ok crc w e'"
proof -
  obtain q where "tq_push m (flush_queue e) = (True, q)" "tq_queue q = tq_queue (flush_queue e) @ [m]" "\<not> tq_shutting_down q"
    using tq.push_open [OF assms(3)] by blast
  moreover have "covered e' = covered e" by (simp add: covered_def assms(4))
  ultimately show ?thesis using assms by (cases w) auto
qed

lemma push_stays_open: "\<not> tq_shutting_down q \<Longrightarrow> \<not> tq_shutting_down (snd (tq_push m q))"
  using tq.push_open [of q m] by auto

text \<open>A section that only changes the parts the other threads' conditions do not read.\<close>

lemma slot_ok_same:
  assumes "slot_ok crc w e" "immutable_memtable e' = immutable_memtable e" "flush_queue e' = flush_queue e"
    "covered e' = covered e" "disk_view crc e' = disk_view crc e"
  shows "slot_ok crc w e'"
  using assms by (cases w) (auto simp: uncommitted_def immutable_committed_def)

lemma stopper_ok_same:
  assumes "stopper_ok p w e" "shutting_down e' = shutting_down e" "flush_queue e' = flush_queue e"
    "active_memtable e' = active_memtable e"
  shows "stopper_ok p w e'"
  using assms by (cases p) (auto simp: memory_drained_def)

lemma pending_simps [simp]:
  "pending_write No_Writer = None" "pending_write (Preparing op key val) = None" "pending_write (Appending op key val) = None"
  "pending_write (Inserting op key val sequence) = Some (new_record op key (stored_value op val) sequence)"
  by (simp_all add: pending_write_def)

definition step_ok :: "crc_fn \<Rightarrow> threads \<Rightarrow> threads \<Rightarrow> bool" where
  "step_ok crc s t \<longleftrightarrow>
     control_inv crc t \<and> moves_to crc (shared s) (shared t) \<and> past t = past s
     \<and> logical_map crc (shared t) = (case writer_at s of
          Inserting op key val sequence \<Rightarrow> (if writer_at t = No_Writer
            then (logical_map crc (shared s))(key := (if op = PUT then Some val else None))
            else logical_map crc (shared s))
        | _ \<Rightarrow> logical_map crc (shared s))"

lemma prepare_step_ok:
  assumes s: "control_inv crc s" and w: "writer_at s = Preparing op key val" and t: "writer_step crc s = Some t"
  shows "step_ok crc s t \<and> reader_at t = reader_at s"
proof -
  let ?e = "shared s"
  have inv: "engine_inv crc None ?e" using s w by (simp add: control_inv_def)
  obtain r e' where p: "prepare_for_write key (write_candidate op val) ?e = Some (r, e')"
    using t w by (auto simp: writer_step_def split: option.splits)
  note pi = prepare_inv [OF inv p]
  from p show ?thesis
  proof (cases rule: prepare_cases)
    case (rejected err)
    then have "t = s\<lparr>writer_at := No_Writer\<rparr>" using t w p by (simp add: writer_step_def)
    then show ?thesis using s w by (simp add: step_ok_def control_inv_def)
  next
    case kept
    then have t': "t = s\<lparr>writer_at := Appending op key val\<rparr>" using t w p by (simp add: writer_step_def)
    have "active_memtable ?e \<noteq> None" using engine_invD(1) [OF inv] kept by (auto simp: memory_ok_def)
    moreover have "stopper_at s = Running" using s kept by (cases "stopper_at s") (auto simp: control_inv_def)
    ultimately show ?thesis using s w t' by (simp add: step_ok_def control_inv_def)
  next
    case (rotated m)
    have run: "stopper_at s = Running" using s rotated by (cases "stopper_at s") (auto simp: control_inv_def)
    then have op: "\<not> tq_shutting_down (flush_queue ?e)" using s by (simp add: control_inv_def)
    note mem = engine_invD(1) [OF inv]
    note rc = rotate_cases [OF mem rotated(3,2,4), unfolded rotated(5) fst_conv snd_conv]
    have r: "r = Inr ()" using rc(2) tq.push_open [OF op, of "frozen m"] by auto
    have t': "t = s\<lparr>shared := e', writer_at := Appending op key val\<rparr>" using t w p r by (simp add: writer_step_def)
    have unc: "uncommitted e'" using rotate_inv(3) [OF inv rotated(3,2,4)] by (simp add: rotated(5) uncommitted_def)
    have "slot_ok crc (worker_at s) e'" using s slot_ok_put [OF _ rotated(2) op rc(1) unc] by (simp add: control_inv_def)
    moreover have "moves_to crc ?e e'" by (rule moves_to_freeze [OF rc(1) rotated(3)]) simp
    moreover have "logical_map crc e' = logical_map crc ?e" using pi by (intro logical_map_view) simp
    moreover have "\<not> tq_shutting_down (flush_queue e')" "background_error e' = background_error ?e" "l0_trigger e' = l0_trigger ?e"
      "shutting_down e' = shutting_down ?e" "active_memtable e' \<noteq> None"
      using push_stays_open [OF op] by (simp_all add: rc(1))
    ultimately show ?thesis using s w t' run pi by (simp add: step_ok_def control_inv_def)
  qed
qed

lemma append_step_ok:
  assumes s: "control_inv crc s" and w: "writer_at s = Appending op key val" and t: "writer_step crc s = Some t"
  shows "step_ok crc s t \<and> reader_at t = reader_at s"
proof -
  let ?e = "shared s"
  have inv: "engine_inv crc None ?e" using s w by (simp add: control_inv_def)
  obtain r e' where p: "append_wal crc Io_Complete op key val ?e = (r, e')" by fastforce
  note ai = append_wal_inv [OF inv p]
  show ?thesis
  proof (cases r)
    case (Inl err)
    then have "t = s\<lparr>writer_at := No_Writer\<rparr>" using t w p ai by (simp add: writer_step_def)
    then show ?thesis using s w by (simp add: step_ok_def control_inv_def)
  next
    case (Inr sequence)
    then obtain wal where e': "e' = ?e\<lparr>engine_wal := wal\<rparr>"
      and inv': "engine_inv crc (Some (new_record op key (stored_value op val) sequence)) e'"
      and view: "engine_view crc e' = engine_view crc ?e" using ai by auto
    have t': "t = s\<lparr>shared := e', writer_at := Inserting op key val sequence\<rparr>" using t w p Inr by (simp add: writer_step_def)
    have c: "covered e' = covered ?e" "disk_view crc e' = disk_view crc ?e"
      by (simp add: covered_def e') (rule disk_view_same; simp add: e')
    have "slot_ok crc (worker_at s) e'" "stopper_ok (stopper_at s) (worker_at s) e'" "moves_to crc ?e e'"
      using s slot_ok_same [of crc "worker_at s" ?e e'] stopper_ok_same [of "stopper_at s" "worker_at s" ?e e']
        moves_to_same [of e' ?e crc] c
      by (simp_all add: control_inv_def e')
    moreover have "background_error e' = background_error ?e" "l0_trigger e' = l0_trigger ?e" "active_memtable e' = active_memtable ?e"
      by (simp_all add: e')
    ultimately show ?thesis using s w t' inv' logical_map_view [OF view] by (simp add: step_ok_def control_inv_def)
  qed
qed

lemma value_written [simp]:
  "entry_value (written_entry op val sequence) = (if op = PUT then val else [])"
  "entry_operation (written_entry op val sequence) = op"
  by (simp_all add: written_entry_def)

lemma insert_active_moves:
  assumes m: "active_memtable e = Some m" and e': "e' = e\<lparr>active_memtable := Some m'\<rparr>"
    and look: "memtable_lookup m' = (memtable_lookup m)(key \<mapsto> x)"
    and view: "engine_view crc e' = (engine_view crc e)(key \<mapsto> x)"
  shows "moves_to crc e e'"
proof -
  have dv: "disk_view crc e' = disk_view crc e" by (rule disk_view_same) (simp_all add: e')
  have "mem_of (immutable_memtable e') = mem_of (immutable_memtable e)"
    "mem_of (active_memtable e') = (mem_of (active_memtable e))(key \<mapsto> x)" by (simp_all add: e' m look)
  then have "layer_values crc e' k \<subseteq> insert (logical_map crc e' k) (layer_values crc e k)" for k
    by (auto simp: layer_values_def dv logical_map_def view)
  then show ?thesis by (simp add: moves_to_def e')
qed

lemma insert_step_ok:
  assumes s: "control_inv crc s" and w: "writer_at s = Inserting op key val sequence" and t: "writer_step crc s = Some t"
  shows "step_ok crc s t \<and> reader_at t = reader_at s"
proof -
  let ?e = "shared s" and ?x = "written_entry op val sequence"
  have inv: "engine_inv crc (Some (new_record op key (stored_value op val) sequence)) ?e" using s w by (simp add: control_inv_def)
  obtain m where m: "active_memtable ?e = Some m" using s w by (auto simp: control_inv_def)
  obtain e' m' where p: "insert_active op key val sequence ?e = (Inr (), e')" and inv': "engine_inv crc None e'"
    and e': "e' = ?e\<lparr>active_memtable := Some m'\<rparr>" and look: "memtable_lookup m' = (memtable_lookup m)(key \<mapsto> ?x)"
    and view: "engine_view crc e' = (engine_view crc ?e)(key \<mapsto> ?x)" using insert_active_inv [OF inv m] by blast
  have t': "t = s\<lparr>shared := e', writer_at := No_Writer\<rparr>" using t w p by (simp add: writer_step_def)
  have map: "logical_map crc e' = (logical_map crc ?e)(key := (if op = PUT then Some val else None))"
    by (intro ext) (simp add: logical_map_def view)
  have c: "covered e' = covered ?e" and dv: "disk_view crc e' = disk_view crc ?e"
    by (simp add: covered_def e') (rule disk_view_same; simp add: e')
  have slot: "slot_ok crc (worker_at s) e'"
    using s slot_ok_same [of crc "worker_at s" ?e e'] c dv by (simp add: control_inv_def e')
  have stop: "stopper_ok (stopper_at s) (worker_at s) e'" using s w by (auto simp: control_inv_def e')
  have "moves_to crc ?e e'" by (rule insert_active_moves [OF m e' look view])
  moreover have "background_error e' = background_error ?e" "l0_trigger e' = l0_trigger ?e" by (simp_all add: e')
  ultimately show ?thesis using s w t' inv' slot stop map by (simp add: step_ok_def control_inv_def)
qed

section \<open>The worker\<close>

lemma worker_task_slot: "slot_ok crc w e \<Longrightarrow> w = Flushing m \<or> w = Clearing m through \<Longrightarrow> immutable_memtable e = Some m"
  by auto

lemma stopper_ok_worker: "stopper_ok p w e \<Longrightarrow> w \<noteq> Stopped \<Longrightarrow> stopper_ok p w' e"
  by (cases p) auto

text \<open>A worker step that changes what concerns tables, log, slot or queue; the control conditions of
  the other threads follow.\<close>

lemma worker_changes:
  assumes s: "control_inv crc s" and w: "worker_at s \<noteq> Stopped"
    and inv: "engine_inv crc (pending_write (writer_at s)) e'" and slot: "slot_ok crc w' e'"
    and e': "active_memtable e' = active_memtable (shared s)" "background_error e' = background_error (shared s)"
      "l0_trigger e' = l0_trigger (shared s)" "shutting_down e' = shutting_down (shared s)"
      "tq_shutting_down (flush_queue e') = tq_shutting_down (flush_queue (shared s))"
    and mv: "moves_to crc (shared s) e'" and map: "logical_map crc e' = logical_map crc (shared s)"
    and t: "t = s\<lparr>shared := e', worker_at := w'\<rparr>"
  shows "step_ok crc s t \<and> reader_at t = reader_at s"
proof -
  have "stopper_ok (stopper_at s) w' (shared s)"
    using s w stopper_ok_worker by (auto simp: control_inv_def)
  then have "stopper_ok (stopper_at s) w' e'" using e' by (cases "stopper_at s") (auto simp: memory_drained_def)
  moreover have "writer_ok (writer_at s) (stopper_at s) e'" using s e' by (cases "writer_at s") (auto simp: control_inv_def)
  ultimately show ?thesis using s inv slot e' mv map t
    by (cases "writer_at s") (auto simp: step_ok_def control_inv_def)
qed

lemma popping_step_ok:
  assumes s: "control_inv crc s" and w: "worker_at s = Popping" and t: "worker_step ops crc s = Some t"
  shows "step_ok crc s t \<and> reader_at t = reader_at s"
proof -
  let ?e = "shared s"
  obtain r q where p: "tq_wait_and_pop (flush_queue ?e) = Some (r, q)"
    using t w by (auto simp: worker_step_io_def split: option.splits)
  define e' where "e' = ?e\<lparr>flush_queue := q\<rparr>"
  have inv: "engine_inv crc (pending_write (writer_at s)) ?e" and slot: "tq_queue (flush_queue ?e) = slot_list ?e" "uncommitted ?e"
    using s w by (simp_all add: control_inv_def)
  have same: "engine_inv crc (pending_write (writer_at s)) e'" "engine_view crc e' = engine_view crc ?e" "covered e' = covered ?e"
    using engine_inv_control [OF inv, of e'] by (simp_all add: e'_def)
  have unc: "uncommitted e'" using slot(2) same(3) by (simp add: uncommitted_def e'_def)
  have mv: "moves_to crc ?e e'" by (rule moves_to_same) (simp_all add: e'_def)
  note map = logical_map_view [OF same(2)]
  from tq.pop_cases [OF p] show ?thesis
  proof
    assume r: "r = None \<and> q = flush_queue ?e \<and> tq_queue (flush_queue ?e) = [] \<and> tq_shutting_down (flush_queue ?e)"
    then have slot_ok_next: "slot_ok crc Stopped e'" using slot(1) by (auto simp: e'_def split: option.splits)
    show ?thesis
      by (rule worker_changes [OF s _ same(1) slot_ok_next _ _ _ _ _ mv map]) (use t w p r in \<open>simp_all add: worker_step_io_def e'_def\<close>)
  next
    assume "\<exists>x. r = Some x \<and> tq_queue (flush_queue ?e) = x # tq_queue q \<and> tq_shutting_down q = tq_shutting_down (flush_queue ?e)"
    then obtain m where m: "r = Some m" "tq_queue (flush_queue ?e) = m # tq_queue q" "tq_shutting_down q = tq_shutting_down (flush_queue ?e)"
      by blast
    then have slot_ok_next: "slot_ok crc (Flushing m) e'" using slot(1) unc by (auto simp: e'_def split: option.splits)
    show ?thesis
      by (rule worker_changes [OF s _ same(1) slot_ok_next _ _ _ _ _ mv map]) (use t w p m in \<open>simp_all add: worker_step_io_def e'_def\<close>)
  qed
qed

lemma flushing_step_ok:
  assumes crc: "running_crc crc" and s: "control_inv crc s" and lim: "within_limits crc (shared s)"
    and w: "worker_at s = Flushing m" and t: "worker_step ops crc s = Some t"
  shows "step_ok crc s t \<and> reader_at t = reader_at s"
proof -
  let ?e = "shared s"
  have inv: "engine_inv crc (pending_write (writer_at s)) ?e" and i: "immutable_memtable ?e = Some m"
    and q: "tq_queue (flush_queue ?e) = []" and unc: "all_from (memtable_lookup m) (covered ?e)"
    using s w by (auto simp: control_inv_def uncommitted_def)
  obtain r e' where p: "flush_build crc Snapshot_Ok m ?e = Some (r, e')"
    using t w by (auto simp: worker_step_io_def split: option.splits)
  have "fits_table (mtable m)" using lim i by (simp add: within_limits_def)
  from flush_build_ok [OF crc inv i unc this p] obtain through where f: "r = Inr through" "Suc (unat through) = covered e'"
    "engine_inv crc (pending_write (writer_at s)) e'" "engine_view crc e' = engine_view crc ?e" "immutable_committed crc e'"
    "tables_kept ?e (engine_files e')" "disk_view crc e' = disk_view crc ?e ++ memtable_lookup m" "only_tables ?e e'" by blast
  note same = only_tables_simps [OF f(8)]
  have "layer_values crc e' k \<subseteq> layer_values crc ?e k" for k
    using i by (auto simp: layer_values_def same f(7) map_add_def split: option.splits)
  then have mv: "moves_to crc ?e e'" using f(6) by (auto simp: moves_to_def same)
  have slot_ok_next: "slot_ok crc (Clearing m through) e'" using q i f(2,5) by (simp add: same)
  show ?thesis
      by (rule worker_changes [OF s _ f(3) slot_ok_next _ _ _ _ _ mv logical_map_view [OF f(4)]]) (use t w p f(1) in \<open>simp_all add: worker_step_io_def same\<close>)
qed

lemma clearing_step_ok:
  assumes s: "control_inv crc s" and w: "worker_at s = Clearing m through" and t: "worker_step ops crc s = Some t"
  shows "step_ok crc s t \<and> reader_at t = reader_at s"
proof -
  let ?e = "shared s" and ?e' = "shared s\<lparr>immutable_memtable := None\<rparr>"
  have inv: "engine_inv crc (pending_write (writer_at s)) ?e" and i: "immutable_memtable ?e = Some m"
    and q: "tq_queue (flush_queue ?e) = []" and com: "immutable_committed crc ?e" and th: "Suc (unat through) = covered ?e"
    using s w by (auto simp: control_inv_def)
  note cl = flush_clear_ok [OF inv i com]
  have c: "covered ?e' = covered ?e" by (simp add: covered_def)
  have dv: "disk_view crc ?e' = disk_view crc ?e" by (rule disk_view_same) simp_all
  have mv: "moves_to crc ?e ?e'" by (auto simp: moves_to_def layer_values_def dv)
  have slot_ok_next: "slot_ok crc (Reclaiming through) ?e'" using q th by (simp add: uncommitted_def c)
  show ?thesis
      by (rule worker_changes [OF s _ cl(2) slot_ok_next _ _ _ _ _ mv logical_map_view [OF cl(3)]]) (use t w cl(1) in \<open>simp_all add: worker_step_io_def\<close>)
qed

lemma reclaiming_step_ok:
  assumes s: "control_inv crc s" and w: "worker_at s = Reclaiming through" and t: "worker_step ops crc s = Some t"
  shows "step_ok crc s t \<and> reader_at t = reader_at s"
proof -
  let ?e = "shared s"
  have wr: "writer_at s = No_Writer" using t w by (simp add: worker_step_io_def split: if_splits)
  have inv: "engine_inv crc None ?e" and slot: "tq_queue (flush_queue ?e) = slot_list ?e" "uncommitted ?e" "unat through < covered ?e"
    using s w wr by (auto simp: control_inv_def)
  obtain wal where r: "flush_reclaim crc through ?e = (Inr (), ?e\<lparr>engine_wal := wal\<rparr>)"
    "engine_inv crc None (?e\<lparr>engine_wal := wal\<rparr>)" "engine_view crc (?e\<lparr>engine_wal := wal\<rparr>) = engine_view crc ?e"
    using flush_reclaim_ok [OF inv slot(3)] by blast
  have mv: "moves_to crc ?e (?e\<lparr>engine_wal := wal\<rparr>)" by (rule moves_to_same) simp_all
  have slot_ok_next: "slot_ok crc Checking (?e\<lparr>engine_wal := wal\<rparr>)" using slot by (simp add: uncommitted_def covered_def)
  show ?thesis
      by (rule worker_changes [OF s _ _ slot_ok_next _ _ _ _ _ mv logical_map_view [OF r(3)]]) (use t w wr r(1,2) in \<open>simp_all add: worker_step_io_def\<close>)
qed

lemma compacting_step_ok:
  assumes heap: "min_heap ops invar items" and crc: "running_crc crc" and s: "control_inv crc s"
    and lim: "within_limits crc (shared s)" and w: "worker_at s = Compacting" and t: "worker_step ops crc s = Some t"
  shows "step_ok crc s t \<and> reader_at t = reader_at s"
proof -
  let ?e = "shared s"
  have inv: "engine_inv crc (pending_write (writer_at s)) ?e" and slot: "tq_queue (flush_queue ?e) = slot_list ?e" "uncommitted ?e"
    and trig: "l0_trigger ?e \<noteq> 0" using s w by (auto simp: control_inv_def)
  obtain r e' where p: "run_compaction ops crc Snapshot_Ok ?e = Some (r, e')"
    using t w by (auto simp: worker_step_io_def split: option.splits)
  have small: "table_volume crc ?e < 2 ^ 28" using lim by (simp add: within_limits_def)
  note c = run_compaction_ok [OF heap crc inv trig small slot(2) [unfolded uncommitted_def] p]
  have same: "db_path e' = db_path ?e" "active_memtable e' = active_memtable ?e" "immutable_memtable e' = immutable_memtable ?e"
    "flush_queue e' = flush_queue ?e" "background_error e' = background_error ?e" "shutting_down e' = shutting_down ?e"
    "l0_trigger e' = l0_trigger ?e" using only_tables_simps c by blast+
  have mv: "moves_to crc ?e e'" using c by (auto simp: moves_to_def layer_values_def same)
  have slot_ok_next: "slot_ok crc Popping e'" using slot c by (simp add: uncommitted_def same)
  show ?thesis
      by (rule worker_changes [OF s _ _ slot_ok_next _ _ _ _ _ mv]) (use t w p c in \<open>simp_all add: worker_step_io_def same\<close>)
qed

lemma worker_step_ok:
  assumes heap: "min_heap ops invar items" and crc: "running_crc crc" and s: "control_inv crc s"
    and lim: "within_limits crc (shared s)" and t: "worker_step ops crc s = Some t"
  shows "step_ok crc s t \<and> reader_at t = reader_at s"
proof (cases "worker_at s")
  case Checking
  have "shared t = shared s" "past t = past s" "writer_at t = writer_at s" "reader_at t = reader_at s" "stopper_at t = stopper_at s"
    "worker_at t = (if immutable_memtable (shared s) \<noteq> None then Popping else Compacting)"
    using t Checking by (auto simp: worker_step_io_def)
  then show ?thesis
    using s Checking stopper_ok_worker [of "stopper_at s" Checking "shared s"]
    by (auto simp: step_ok_def control_inv_def split: writer.splits)
next
  case Stopped
  then show ?thesis using t by (simp add: worker_step_io_def)
qed (use popping_step_ok [OF s _ t] flushing_step_ok [OF crc s lim _ t] clearing_step_ok [OF s _ t] reclaiming_step_ok [OF s _ t]
    compacting_step_ok [OF heap crc s lim _ t] in blast)+

section \<open>Shutdown\<close>

lemma control_changes:
  assumes "control_inv crc s" and "engine_inv crc (pending_write (writer_at s)) e'" and "background_error e' = None"
    and "l0_trigger e' \<noteq> 0" and "slot_ok crc (worker_at s) e'" and "stopper_ok p (worker_at s) e'" and "writer_ok (writer_at s) p e'"
    and "moves_to crc (shared s) e'" and "logical_map crc e' = logical_map crc (shared s)"
    and "t = s\<lparr>shared := e', stopper_at := p\<rparr>"
  shows "step_ok crc s t \<and> reader_at t = reader_at s"
  using assms by (cases "writer_at s") (auto simp: step_ok_def control_inv_def)

lemma schedule_step_ok:
  assumes s: "control_inv crc s" and w: "stopper_at s = Scheduling" and t: "stopper_step s = Some t"
  shows "step_ok crc s t \<and> reader_at t = reader_at s"
proof -
  let ?e = "shared s"
  have sd: "shutting_down ?e" and op: "\<not> tq_shutting_down (flush_queue ?e)" and bg: "background_error ?e = None"
    and trig: "l0_trigger ?e \<noteq> 0" and slot: "slot_ok crc (worker_at s) ?e" using s w by (auto simp: control_inv_def)
  have wr: "writer_ok (writer_at s) Scheduling ?e" using s w by (simp add: control_inv_def)
  then have nw: "pending_write (writer_at s) = None" "\<And>p e. writer_ok (writer_at s) p e" by (cases "writer_at s"; simp)+
  have inv: "engine_inv crc None ?e" using s nw(1) by (simp add: control_inv_def)
  obtain r e' where p: "shutdown_schedule ?e = Some (r, e')" using t w by (auto simp: stopper_step_def split: option.splits)
  then have i: "immutable_memtable ?e = None" using bg by (auto simp: shutdown_schedule_def split: if_splits)
  have t': "t = s\<lparr>shared := e', stopper_at := Closing r\<rparr>" using t w p by (simp add: stopper_step_def)
  show ?thesis
  proof (cases "\<exists>m. active_memtable ?e = Some m \<and> 0 < entry_count m")
    case False
    then have "r = Inr () \<and> e' = ?e" using p i bg by (auto simp: shutdown_schedule_def split: option.splits if_splits)
    moreover have "memory_drained ?e" using False by (auto simp: memory_drained_def entry_count_def)
    ultimately show ?thesis
      using s sd op bg trig slot nw t' inv by (intro control_changes [of crc s ?e "Closing (Inr ())"]) simp_all
  next
    case True
    then obtain m where m: "active_memtable ?e = Some m" "0 < entry_count m" by blast
    have fz: "memtable_freeze m = (True, frozen m)"
      using engine_invD(1) [OF inv] m(1) by (auto simp: memory_ok_def memtable_freeze_def)
    have push: "fst (tq_push (frozen m) (flush_queue ?e))" using tq.push_open [OF op, of "frozen m"] by auto
    have e': "e' = ?e\<lparr>immutable_memtable := Some (frozen m), active_memtable := None,
        flush_queue := snd (tq_push (frozen m) (flush_queue ?e))\<rparr>" and r: "r = Inr ()"
      using p i bg m fz push by (auto simp: shutdown_schedule_def Let_def split: prod.splits)
    note fi = freeze_inv [OF inv m(1) i m(2) _ e']
    have inv': "engine_inv crc None e'" and view: "engine_view crc e' = engine_view crc ?e" and unc: "uncommitted e'"
      using fi sd by (auto simp: uncommitted_def)
    have mv: "moves_to crc ?e e'" by (rule moves_to_freeze [OF e' m(1)]) simp
    have "slot_ok crc (worker_at s) e'" by (rule slot_ok_put [OF slot i op e' unc])
    then show ?thesis
      using s inv' sd bg trig nw t' r mv logical_map_view [OF view] push_stays_open [OF op]
      by (intro control_changes [of crc s e']) (auto simp: e' memory_drained_def)
  qed
qed

lemma stopper_step_ok:
  assumes s: "control_inv crc s" and t: "stopper_step s = Some t"
  shows "step_ok crc s t \<and> reader_at t = reader_at s"
proof -
  let ?e = "shared s"
  have inv: "engine_inv crc (pending_write (writer_at s)) ?e" and bg: "background_error ?e = None"
    and trig: "l0_trigger ?e \<noteq> 0" and slot: "slot_ok crc (worker_at s) ?e"
    and st: "stopper_ok (stopper_at s) (worker_at s) ?e" and wr: "writer_ok (writer_at s) (stopper_at s) ?e"
    using s by (simp_all add: control_inv_def)
  show ?thesis
  proof (cases "stopper_at s")
    case Running
    let ?e' = "?e\<lparr>shutting_down := True\<rparr>"
    note c = engine_inv_control [OF inv, of ?e']
    have t': "t = s\<lparr>shared := ?e', stopper_at := At_Barrier\<rparr>"
      using t Running st by (simp add: stopper_step_def shutdown_begin_def)
    have "slot_ok crc (worker_at s) ?e'" by (rule slot_ok_same [OF slot]) (use c in simp_all)
    moreover have "moves_to crc ?e ?e'" by (rule moves_to_same) simp_all
    moreover have "writer_ok (writer_at s) At_Barrier ?e'" using wr Running by (cases "writer_at s") auto
    ultimately show ?thesis
      using s t' st Running bg trig c logical_map_view [of crc ?e' ?e] by (intro control_changes [of crc s ?e']) auto
  next
    case At_Barrier
    then have "t = s\<lparr>stopper_at := Scheduling\<rparr>" "writer_at s = No_Writer" using t by (auto simp: stopper_step_def split: if_splits)
    then show ?thesis using s st At_Barrier by (auto simp: step_ok_def control_inv_def)
  next
    case Scheduling
    then show ?thesis using schedule_step_ok [OF s _ t] by simp
  next
    case (Closing r)
    let ?e' = "shutdown_close ?e"
    have t': "t = s\<lparr>shared := ?e', stopper_at := Joining r\<rparr>" using t Closing by (simp add: stopper_step_def)
    have e': "?e' = ?e\<lparr>flush_queue := tq_shutdown (flush_queue ?e)\<rparr>" by (simp add: shutdown_close_def)
    note c = engine_inv_control [OF inv, of ?e']
    have "slot_ok crc (worker_at s) ?e'"
      using slot tq.shut [of "flush_queue ?e"] c st Closing
      by (cases "worker_at s") (auto simp: e' uncommitted_def covered_def immutable_committed_def)
    moreover have "moves_to crc ?e ?e'" by (rule moves_to_same) (simp_all add: e')
    moreover have "writer_ok (writer_at s) (Joining r) ?e'" using wr Closing by (cases "writer_at s") auto
    moreover have "stopper_ok (Joining r) (worker_at s) ?e'" using st Closing tq.shut(2) by (simp add: e' memory_drained_def)
    ultimately show ?thesis
      using s t' bg trig c logical_map_view [of crc ?e' ?e] by (intro control_changes [of crc s ?e']) (simp_all add: e')
  next
    case (Joining r)
    then have "t = s\<lparr>stopper_at := Finished (Inr ())\<rparr>" "worker_at s = Stopped"
      using t st bg by (auto simp: stopper_step_def shutdown_report_def split: if_splits)
    moreover from this have "writer_ok (writer_at s) (Finished (Inr ())) ?e" using wr Joining by (cases "writer_at s") auto
    ultimately show ?thesis using s st Joining by (auto simp: step_ok_def control_inv_def split: writer.splits)
  next
    case (Finished r)
    then show ?thesis using t by (simp add: stopper_step_def)
  qed
qed

section \<open>Readers\<close>

text \<open>The values a key has had since a call started.\<close>

definition seen :: "bytes \<Rightarrow> nat \<Rightarrow> (bytes \<Rightarrow> bytes option) list \<Rightarrow> bytes option set" where
  "seen key start maps = (\<lambda>f. f key) ` set (drop start maps)"

fun reader_ok :: "crc_fn \<Rightarrow> (bytes \<Rightarrow> bytes option) list \<Rightarrow> engine \<Rightarrow> reader \<Rightarrow> bool" where
  "reader_ok crc maps e Idle \<longleftrightarrow> True"
| "reader_ok crc maps e (Snapshotting key start) \<longleftrightarrow> start \<le> length maps \<and> layer_values crc e key \<subseteq> seen key start maps"
| "reader_ok crc maps e (Searching key start ms winner) \<longleftrightarrow>
     (\<forall>m\<in>set ms. file_ok crc (db_path e) (engine_files e) m)
     \<and> value_of (consider_newer winner (newest (disk_versions crc (engine_files e) ms key))) \<in> seen key start maps"
| "reader_ok crc maps e (Answered key start r) \<longleftrightarrow> answer_value r \<in> seen key start maps"
| "reader_ok crc maps e (Failed err) \<longleftrightarrow> False"

text \<open>What readers need of a state, and what holds in every reachable one.\<close>

definition readers_inv :: "crc_fn \<Rightarrow> threads \<Rightarrow> bool" where
  "readers_inv crc s \<longleftrightarrow>
     (\<exists>pend. engine_inv crc pend (shared s)) \<and> past s \<noteq> [] \<and> last (past s) = logical_map crc (shared s)
     \<and> (\<forall>i. reader_ok crc (past s) (shared s) (reader_at s i))"

definition threads_inv :: "crc_fn \<Rightarrow> threads \<Rightarrow> bool" where
  "threads_inv crc s \<longleftrightarrow> control_inv crc s \<and> readers_inv crc s"

lemma seen_snoc: "seen key start (maps @ [f]) = (if start \<le> length maps then insert (f key) (seen key start maps) else {})"
  by (auto simp: seen_def)

lemma seen_mono: "x \<in> seen key start maps \<Longrightarrow> x \<in> seen key start (maps @ [f])"
  by (auto simp: seen_def)

lemma tables_kept_live:
  "tables_kept e fs \<Longrightarrow> file_ok crc (db_path e) (engine_files e) m \<Longrightarrow> fs (md_path m) = engine_files e (md_path m)"
  by (auto simp: tables_kept_def file_ok_def input_holds_def)

lemma reader_ok_keep:
  assumes "reader_ok crc maps e rd" and mv: "moves_to crc e e'"
  shows "reader_ok crc (maps @ [logical_map crc e']) e' rd"
proof (cases rd)
  case (Snapshotting key start)
  then show ?thesis
    using assms by (fastforce simp: moves_to_def seen_snoc)
next
  case (Searching key start ms winner)
  have kept: "tables_kept e (engine_files e')" and db: "db_path e' = db_path e" using mv by (simp_all add: moves_to_def)
  have ok: "\<forall>m\<in>set ms. file_ok crc (db_path e) (engine_files e) m" using assms(1) Searching by simp
  have same: "engine_files e' (md_path m) = engine_files e (md_path m)" if "m \<in> set ms" for m
    using tables_kept_live [OF kept] ok that by blast
  have "disk_versions crc (engine_files e') ms key = disk_versions crc (engine_files e) ms key"
    by (rule disk_versions_cong) (rule same)
  moreover have "\<forall>m\<in>set ms. file_ok crc (db_path e') (engine_files e') m"
    using ok same file_ok_cong [of "engine_files e'" _ "engine_files e"] db by metis
  ultimately show ?thesis using assms(1) Searching seen_mono by simp
next
  case (Answered key start r)
  then show ?thesis using assms(1) seen_mono by simp
qed (use assms in auto)

lemma readers_inv_other:
  assumes s: "readers_inv crc s" and inv: "engine_inv crc pend (shared t)" and mv: "moves_to crc (shared s) (shared t)"
    and same: "past t = past s" "reader_at t = reader_at s"
  shows "readers_inv crc (observed crc t)"
proof -
  have "reader_ok crc (past s @ [logical_map crc (shared t)]) (shared t) (reader_at s i)" for i
    using s reader_ok_keep [OF _ mv] by (simp add: readers_inv_def)
  then show ?thesis using inv same by (auto simp: readers_inv_def observed_def)
qed

lemma control_inv_observed [simp]: "control_inv crc (observed crc t) \<longleftrightarrow> control_inv crc t"
  by (simp add: control_inv_def observed_def)

lemma threads_inv_other:
  assumes s: "threads_inv crc s" and t: "step_ok crc s t" "reader_at t = reader_at s"
  shows "threads_inv crc (observed crc t)"
proof -
  have "engine_inv crc (pending_write (writer_at t)) (shared t)" using t(1) by (simp add: step_ok_def control_inv_def)
  then have "readers_inv crc (observed crc t)"
    using s t by (intro readers_inv_other [of crc s]) (simp_all add: threads_inv_def step_ok_def)
  then show ?thesis using t(1) by (simp add: threads_inv_def step_ok_def)
qed

text \<open>A reader's own step: it may fill the reader cache and sets its program counter.\<close>

definition reader_moved :: "crc_fn \<Rightarrow> threads \<Rightarrow> threads \<Rightarrow> bool" where
  "reader_moved crc s t \<longleftrightarrow>
     (\<exists>c i rd. t = s\<lparr>shared := shared s\<lparr>sstable_readers := c\<rparr>, reader_at := (reader_at s)(i := rd)\<rparr>
        \<and> cache_ok crc (shared s\<lparr>sstable_readers := c\<rparr>)
        \<and> reader_ok crc (past s @ [logical_map crc (shared s)]) (shared s) rd)"

lemma readers_inv_moved:
  assumes s: "readers_inv crc s" and "reader_moved crc s t"
  shows "readers_inv crc (observed crc t)"
proof -
  obtain c i rd where t: "t = s\<lparr>shared := shared s\<lparr>sstable_readers := c\<rparr>, reader_at := (reader_at s)(i := rd)\<rparr>"
    and c: "cache_ok crc (shared s\<lparr>sstable_readers := c\<rparr>)"
    and rd: "reader_ok crc (past s @ [logical_map crc (shared s)]) (shared s) rd"
    using assms(2) by (auto simp: reader_moved_def)
  let ?e = "shared s" and ?e' = "shared s\<lparr>sstable_readers := c\<rparr>"
  obtain pend where inv: "engine_inv crc pend ?e" using s by (auto simp: readers_inv_def)
  note ic = engine_inv_cache [OF inv c]
  have map: "logical_map crc ?e' = logical_map crc ?e" by (rule logical_map_view [OF ic(2)])
  have dv: "disk_view crc ?e' = disk_view crc ?e" by (rule disk_view_same) simp_all
  have "moves_to crc ?e ?e'" by (rule moves_to_same) simp_all
  then have keep: "reader_ok crc (past s @ [logical_map crc ?e]) ?e' r" if "reader_ok crc (past s) ?e r" for r
    using reader_ok_keep [OF that, of ?e'] map by simp
  moreover have "reader_ok crc (past s @ [logical_map crc ?e]) ?e' rd"
    using rd by (cases rd) (simp_all add: layer_values_def dv)
  ultimately show ?thesis using s ic(1) by (auto simp: readers_inv_def observed_def t map)
qed

lemma control_inv_moved:
  assumes s: "control_inv crc s" and "reader_moved crc s t"
  shows "control_inv crc t"
proof -
  obtain c i rd where t: "t = s\<lparr>shared := shared s\<lparr>sstable_readers := c\<rparr>, reader_at := (reader_at s)(i := rd)\<rparr>"
    and c: "cache_ok crc (shared s\<lparr>sstable_readers := c\<rparr>)"
    using assms(2) by (auto simp: reader_moved_def)
  let ?e = "shared s" and ?e' = "shared s\<lparr>sstable_readers := c\<rparr>"
  have inv: "engine_inv crc (pending_write (writer_at s)) ?e" using s by (simp add: control_inv_def)
  have cd: "covered ?e' = covered ?e" by (simp add: covered_def)
  have dv: "disk_view crc ?e' = disk_view crc ?e" by (rule disk_view_same) simp_all
  have "slot_ok crc (worker_at s) ?e'" "stopper_ok (stopper_at s) (worker_at s) ?e'"
    using s slot_ok_same [of crc "worker_at s" ?e ?e'] stopper_ok_same [of "stopper_at s" "worker_at s" ?e ?e'] cd dv
    by (simp_all add: control_inv_def)
  moreover have "writer_ok (writer_at s) (stopper_at s) ?e'" using s by (cases "writer_at s") (auto simp: control_inv_def)
  ultimately show ?thesis using s engine_inv_cache(1) [OF inv c] by (simp add: control_inv_def t)
qed

lemma reader_call_ok:
  assumes s: "readers_inv crc s"
  shows "reader_moved crc s (reader_call i key s)"
proof -
  let ?e = "shared s" and ?maps = "past s @ [logical_map crc (shared s)]"
  obtain pend where inv: "engine_inv crc pend ?e" using s by (auto simp: readers_inv_def)
  have now: "seen key (length (past s)) ?maps = {logical_map crc ?e key}" by (simp add: seen_def)
  note gm = get_memory_view [OF inv, of key]
  define rd where "rd = (case get_memory key ?e of Some r \<Rightarrow> Answered key (length (past s)) r | None \<Rightarrow> Snapshotting key (length (past s)))"
  have rdok: "reader_ok crc ?maps ?e rd"
  proof (cases "(mem_of (immutable_memtable ?e) ++ mem_of (active_memtable ?e)) key")
    case (Some x)
    then have "get_memory key ?e = Some (result_of_entry (engine_view crc ?e key))" using gm by simp
    then show ?thesis unfolding rd_def by (simp add: now logical_map_def)
  next
    case None
    have "get_memory key ?e = None" using gm None by simp
    moreover have "mem_of (immutable_memtable ?e) key = None \<and> mem_of (active_memtable ?e) key = None"
      using None by (simp add: map_add_None)
    moreover from this have "engine_view crc ?e key = disk_view crc ?e key"
      unfolding engine_inv_layers [OF inv] by (simp add: map_add_def)
    ultimately show ?thesis unfolding rd_def by (simp add: now layer_values_def logical_map_def)
  qed
  have "cache_ok crc (?e\<lparr>sstable_readers := sstable_readers ?e\<rparr>)" using engine_invD(3) [OF inv] by simp
  then show ?thesis
    unfolding reader_moved_def using rdok
    by (intro exI [of _ "sstable_readers ?e"] exI [of _ i] exI [of _ rd]) (simp add: reader_call_def rd_def)
qed

lemma reader_step_ok:
  assumes s: "readers_inv crc s" and t: "reader_step crc i s = Some t"
  shows "reader_moved crc s t"
proof -
  let ?e = "shared s" and ?maps = "past s @ [logical_map crc (shared s)]"
  obtain pend where inv: "engine_inv crc pend ?e" using s by (auto simp: readers_inv_def)
  have old: "reader_ok crc (past s) ?e (reader_at s i)" using s by (simp add: readers_inv_def)
  have moved: ?thesis
    if "t = s\<lparr>shared := ?e\<lparr>sstable_readers := c\<rparr>, reader_at := (reader_at s)(i := rd)\<rparr>"
      "cache_ok crc (?e\<lparr>sstable_readers := c\<rparr>)" "reader_ok crc ?maps ?e rd" for c rd
    unfolding reader_moved_def using that by blast
  have same: "cache_ok crc (?e\<lparr>sstable_readers := sstable_readers ?e\<rparr>)" using engine_invD(3) [OF inv] by simp
  show ?thesis
  proof (cases "reader_at s i")
    case (Snapshotting key start)
    have "\<forall>m\<in>set (live ?e). file_ok crc (db_path ?e) (engine_files ?e) m"
      using engine_invD(2) [OF inv] by (simp add: tables_ok_def)
    moreover have "value_of (disk_view crc ?e key) \<in> seen key start ?maps"
      using old Snapshotting seen_mono by (auto simp: layer_values_def)
    ultimately have "reader_ok crc ?maps ?e (Searching key start (live ?e) None)" by (simp add: disk_view_def)
    from moved [OF _ same this] show ?thesis using t Snapshotting by (simp add: reader_step_def)
  next
    case (Searching key start ms winner)
    show ?thesis
    proof (cases ms)
      case Nil
      then have "reader_ok crc ?maps ?e (Answered key start (result_of_entry winner))"
        using old Searching seen_mono by (simp add: disk_versions_def)
      from moved [OF _ same this] show ?thesis using t Searching Nil by (simp add: reader_step_def)
    next
      case (Cons m ms')
      have "\<forall>m\<in>set [m]. file_ok crc (db_path ?e) (engine_files ?e) m" using old Searching Cons by simp
      from search_tables_ok [OF engine_invD(3) [OF inv] this, of key winner] obtain c where
        c: "search_tables crc key [m] winner ?e =
          (Inr (consider_newer winner (newest (disk_versions crc (engine_files ?e) [m] key))), ?e\<lparr>sstable_readers := c\<rparr>)"
        "cache_ok crc (?e\<lparr>sstable_readers := c\<rparr>)" by blast
      define winner' where "winner' = consider_newer winner (newest (disk_versions crc (engine_files ?e) [m] key))"
      have "reader_ok crc ?maps ?e (Searching key start ms' winner')"
        using old Searching Cons seen_mono by (simp add: disk_versions_def winner'_def consider_newer_assoc)
      from moved [OF _ c(2) this] show ?thesis
        using t Searching Cons c(1) by (simp add: reader_step_def winner'_def)
    qed
  next
    case (Answered key start r)
    from moved [OF _ same, of Idle] show ?thesis using t Answered by (simp add: reader_step_def)
  qed (use t old in \<open>simp_all add: reader_step_def\<close>)
qed

section \<open>Every reachable state\<close>

lemma threads_inv_moved: "threads_inv crc s \<Longrightarrow> reader_moved crc s t \<Longrightarrow> threads_inv crc (observed crc t)"
  using readers_inv_moved [of crc s t] control_inv_moved [of crc s t] by (simp add: threads_inv_def)

lemma writer_enter_ok:
  assumes "control_inv crc s" and "writer_at s = No_Writer"
  shows "step_ok crc s (s\<lparr>writer_at := Preparing op key val\<rparr>)"
  using assms by (simp add: step_ok_def control_inv_def)

lemma thread_step_inv:
  assumes heap: "min_heap ops invar items" and crc: "running_crc crc" and s: "threads_inv crc s"
    and lim: "within_limits crc (shared s)" and st: "thread_step ops crc s t"
  shows "threads_inv crc t"
  using st
proof cases
  case (writer_moves t')
  have ctl: "control_inv crc s" using s by (simp add: threads_inv_def)
  have "step_ok crc s t' \<and> reader_at t' = reader_at s"
    using prepare_step_ok [OF ctl _ writer_moves(2)] append_step_ok [OF ctl _ writer_moves(2)]
      insert_step_ok [OF ctl _ writer_moves(2)] writer_moves(2)
    by (cases "writer_at s") (auto simp: writer_step_def)
  then show ?thesis using threads_inv_other [OF s] writer_moves(1) by blast
next
  case (writer_enters op key val)
  have "control_inv crc s" using s by (simp add: threads_inv_def)
  from threads_inv_other [OF s writer_enter_ok [OF this writer_enters(2)]] show ?thesis using writer_enters(1) by simp
next
  case (worker_moves t')
  have "control_inv crc s" using s by (simp add: threads_inv_def)
  from worker_step_ok [OF heap crc this lim worker_moves(2)] show ?thesis using threads_inv_other [OF s] worker_moves(1) by blast
next
  case (stopper_moves t')
  have "control_inv crc s" using s by (simp add: threads_inv_def)
  from stopper_step_ok [OF this stopper_moves(2)] show ?thesis using threads_inv_other [OF s] stopper_moves(1) by blast
next
  case (reader_starts i key)
  then show ?thesis using threads_inv_moved [OF s reader_call_ok] s by (simp add: threads_inv_def)
next
  case (reader_moves i t')
  then show ?thesis using threads_inv_moved [OF s reader_step_ok] s by (simp add: threads_inv_def)
qed

lemma threads_new_inv:
  assumes "started crc e"
  shows "threads_inv crc (threads_new crc e)"
  using assms
  by (auto simp: threads_inv_def readers_inv_def control_inv_def threads_new_def started_def uncommitted_def tq.new)

lemma reachable_inv:
  assumes "min_heap ops invar items" and "running_crc crc" and "reachable ops crc e s"
  shows "threads_inv crc s"
  using assms(3)
proof induction
  case reachable_start
  then show ?case by (rule threads_new_inv)
next
  case (reachable_step s t)
  then show ?case using thread_step_inv [OF assms(1,2)] by blast
qed

end
