(* ===== verification/Engine_Scenario.thy ===== *)
theory Engine_Scenario
  imports Engine_Interleaving
begin

text \<open>
  Concrete runs: a fresh database with the smallest memtable target, writes whose values fill a
  memtable each, and the interleaving in which the worker and a writer wait for each other.
\<close>

section \<open>A fresh database\<close>

definition example_path :: path where "example_path = [100]"

definition example_engine :: engine where
  "example_engine =
     \<lparr>db_path = example_path, memtable_target_bytes = 1048576, next_sstable_id = 1,
      engine_wal = \<lparr>wal_file = wal_header, wal_pos = length wal_header, next_sequence = 0\<rparr>, l0_trigger = 4,
      active_memtable = Some (memtable_new 1048576), immutable_memtable = None,
      engine_manifest = \<lparr>manifest_path = manifest_file example_path, live_files = [], persisted_through = None\<rparr>,
      flush_queue = tq_new, background_error = None, shutting_down = False, sstable_readers = (\<lambda>_. None),
      flush_count = 0, compaction_count = 0, engine_files = Map.empty\<rparr>"

lemma example_new:
  "engine_new crc 1 4 example_path None Map.empty = Inr example_engine"
  "engine_inv crc None example_engine" "engine_view crc example_engine = Map.empty"
proof -
  have "memtable_bytes_from_config 1 = Inr 1048576" by (simp add: memtable_bytes_from_config_def)
  from engine_fresh [OF _ this, of example_path 4 Map.empty crc]
  show "engine_new crc 1 4 example_path None Map.empty = Inr example_engine"
    "engine_inv crc None example_engine" "engine_view crc example_engine = Map.empty"
    by (auto simp: example_engine_def example_path_def simp del: list.map)
qed

lemma example_started: "started crc example_engine"
  using example_new(2) by (simp add: started_def) (simp add: example_engine_def)

lemma example_room: "n < 2 ^ 64 \<Longrightarrow> room n example_engine"
  by (simp add: room_def example_engine_def)

lemma example_volume: "table_volume crc example_engine = 0"
  by (simp add: table_volume_def example_engine_def)

section \<open>A write that fills a memtable\<close>

definition big :: bytes where "big = replicate 1048576 0"

lemma length_big [simp]: "length big = 1048576"
  by (simp add: big_def)

text \<open>A memtable that holds one big value and nothing else.\<close>

definition heavy :: "byte \<Rightarrow> memtable \<Rightarrow> bool" where
  "heavy k m \<longleftrightarrow> (\<exists>sequence. m = snd (memtable_write PUT [k] big sequence (memtable_new 1048576)))"

lemma heavy_table:
  "heavy k m \<Longrightarrow> \<exists>sequence. mtable m = [([k], \<lparr>entry_value = big, entry_sequence = sequence, entry_operation = PUT\<rparr>)]"
  by (auto simp: heavy_def memtable_write_def memtable_put_def memtable_new_def Let_def)

lemma heavy_exceeds:
  "heavy k m \<Longrightarrow> k' \<noteq> k \<Longrightarrow> would_exceed_target m [k'] (write_candidate PUT big)"
  by (auto simp: heavy_def memtable_write_def memtable_put_def memtable_new_def Let_def
      would_exceed_target_def write_candidate_def estimate_entry_size_def sizeof_string_def sizeof_entry_def sizeof_pointer_def)

lemma heavy_fits: "heavy k m \<Longrightarrow> fits_table (mtable (frozen m))"
  using heavy_table [of k m] by (auto simp: fits_table_def entry_fits_def)

lemma heavy_count: "heavy k m \<Longrightarrow> entry_count m = 1"
  using heavy_table [of k m] by (auto simp: entry_count_def)

lemma heavy_not_new: "heavy k m \<Longrightarrow> m \<noteq> memtable_new 1048576"
  using heavy_count [of k m] by (auto simp: entry_count_def memtable_new_def)

text \<open>A state between two calls in which nothing but memory and log may have changed since \<open>e\<close>.\<close>

definition calm :: "'h heap_ops \<Rightarrow> crc_fn \<Rightarrow> engine \<Rightarrow> threads \<Rightarrow> bool" where
  "calm ops crc e s \<longleftrightarrow>
     reachable ops crc e s \<and> writer_at s = No_Writer \<and> stopper_at s = Running
     \<and> memtable_target_bytes (shared s) = 1048576 \<and> within_limits crc (shared s)
     \<and> unat (next_sequence (engine_wal (shared s))) < 100"

lemma limits_same:
  assumes "within_limits crc e" and "engine_files e' = engine_files e" and "engine_manifest e' = engine_manifest e"
    and "immutable_memtable e' = immutable_memtable e \<or> (\<exists>m. immutable_memtable e' = Some m \<and> fits_table (mtable m))"
  shows "within_limits crc e'"
  using assms by (auto simp: within_limits_def room_def table_volume_def)

lemma observed_simps [simp]:
  "shared (observed crc s) = shared s" "writer_at (observed crc s) = writer_at s" "worker_at (observed crc s) = worker_at s"
  "stopper_at (observed crc s) = stopper_at s" "reader_at (observed crc s) = reader_at s"
  by (simp_all add: observed_def)

text \<open>The first section: with a new memtable nothing happens, a heavy one is frozen.\<close>

lemma heavy_prepare:
  assumes ctl: "control_inv crc s" and run: "stopper_at s = Running" and m0: "active_memtable (shared s) = Some m0"
    and c: "m0 = memtable_new 1048576 \<or> heavy k0 m0 \<and> k0 \<noteq> k \<and> immutable_memtable (shared s) = None"
    and tgt: "memtable_target_bytes (shared s) = 1048576" and nw: "pending_write (writer_at s) = None"
  shows "\<exists>e1. prepare_for_write [k] (write_candidate PUT big) (shared s) = Some (Inr (), e1)
    \<and> active_memtable e1 = Some (memtable_new 1048576) \<and> engine_wal e1 = engine_wal (shared s)
    \<and> engine_files e1 = engine_files (shared s) \<and> engine_manifest e1 = engine_manifest (shared s)
    \<and> memtable_target_bytes e1 = 1048576
    \<and> immutable_memtable e1 = (if m0 = memtable_new 1048576 then immutable_memtable (shared s) else Some (frozen m0))"
proof -
  let ?e = "shared s"
  have go: "\<not> shutting_down ?e" "background_error ?e = None" "\<not> tq_shutting_down (flush_queue ?e)"
    using ctl run by (simp_all add: control_inv_def)
  show ?thesis
  proof (cases "m0 = memtable_new 1048576")
    case True
    then have "\<not> rotation_required ?e [k] (write_candidate PUT big)"
      using m0 by (simp add: rotation_required_def entry_count_def memtable_new_def)
    then show ?thesis using go m0 tgt True by (simp add: prepare_for_write_def)
  next
    case False
    then have h: "heavy k0 m0" "k \<noteq> k0" and i: "immutable_memtable ?e = None" using c by auto
    have mem: "memory_ok ?e" using ctl nw engine_invD(1) by (auto simp: control_inv_def)
    have n: "0 < entry_count m0" using heavy_count [OF h(1)] by simp
    have rot: "rotation_required ?e [k] (write_candidate PUT big)"
      using m0 n heavy_exceeds [OF h] by (simp add: rotation_required_def)
    note rc = rotate_cases [OF mem m0 i n]
    have "fst (rotate_active ?e) = Inr ()" using rc(2) tq.push_open [OF go(3), of "frozen m0"] by auto
    then have "prepare_for_write [k] (write_candidate PUT big) ?e = Some (Inr (), snd (rotate_active ?e))"
      using go rot i by (cases "rotate_active ?e") (simp add: prepare_for_write_def)
    then show ?thesis using rc(1) False tgt by simp
  qed
qed

lemma heavy_put:
  assumes heap: "min_heap ops invar items" and crc: "running_crc crc" and s: "calm ops crc e0 s"
    and m0: "active_memtable (shared s) = Some m0"
    and c: "m0 = memtable_new 1048576 \<or> heavy k0 m0 \<and> k0 \<noteq> k \<and> immutable_memtable (shared s) = None"
    and seq: "unat (next_sequence (engine_wal (shared s))) < 99"
  shows "\<exists>t m. calm ops crc e0 t \<and> worker_at t = worker_at s \<and> active_memtable (shared t) = Some m \<and> heavy k m
    \<and> engine_files (shared t) = engine_files (shared s) \<and> engine_manifest (shared t) = engine_manifest (shared s)
    \<and> unat (next_sequence (engine_wal (shared t))) = Suc (unat (next_sequence (engine_wal (shared s))))
    \<and> immutable_memtable (shared t) = (if m0 = memtable_new 1048576 then immutable_memtable (shared s) else Some (frozen m0))"
proof -
  let ?n = "next_sequence (engine_wal (shared s))"
  have r0: "reachable ops crc e0 s" and w0: "writer_at s = No_Writer" and run: "stopper_at s = Running"
    and lim: "within_limits crc (shared s)" and tgt: "memtable_target_bytes (shared s) = 1048576"
    using s by (simp_all add: calm_def)
  note inv = reachable_inv [OF heap crc]
  define s1 where "s1 = observed crc (s\<lparr>writer_at := Preparing PUT [k] big\<rparr>)"
  have r1: "reachable ops crc e0 s1"
    unfolding s1_def by (rule reachable_step [OF r0 lim writer_enters [OF w0]])
  have c1: "control_inv crc s1" using inv [OF r1] by (simp add: threads_inv_def)
  obtain e1 where e1: "prepare_for_write [k] (write_candidate PUT big) (shared s1) = Some (Inr (), e1)"
    "active_memtable e1 = Some (memtable_new 1048576)" "engine_wal e1 = engine_wal (shared s)"
    "engine_files e1 = engine_files (shared s)" "engine_manifest e1 = engine_manifest (shared s)"
    "memtable_target_bytes e1 = 1048576"
    "immutable_memtable e1 = (if m0 = memtable_new 1048576 then immutable_memtable (shared s) else Some (frozen m0))"
    using heavy_prepare [OF c1, of m0 k0 k] run m0 c tgt by (auto simp: s1_def)
  define s2 where "s2 = observed crc (s1\<lparr>shared := e1, writer_at := Appending PUT [k] big\<rparr>)"
  have "writer_step crc s1 = Some (s1\<lparr>shared := e1, writer_at := Appending PUT [k] big\<rparr>)"
    using e1(1) by (simp add: writer_step_def s1_def)
  then have r2: "reachable ops crc e0 s2"
    unfolding s2_def using reachable_step [OF r1 _ writer_moves] lim by (simp add: s1_def)
  have lim2: "within_limits crc (shared s2)"
    using limits_same [OF lim e1(4,5)] e1(7) c heavy_fits by (auto simp: s2_def)
  have inv2: "engine_inv crc None e1" using inv [OF r2] by (simp add: threads_inv_def control_inv_def s2_def)
  have n: "?n \<noteq> max_u64" using seq by (auto simp: max_u64_def)
  obtain e2 where app: "append_wal crc Io_Complete PUT [k] big e1 = (Inr ?n, e2)"
    using append_wal_accepts [OF inv2, of "[k]" PUT big] n e1(3) by (auto simp: fits_record_def)
  have a2: "\<exists>w. e2 = e1\<lparr>engine_wal := w\<rparr>" "engine_inv crc (Some (new_record PUT [k] big ?n)) e2"
    using append_wal_inv [OF inv2 app] by auto
  define s3 where "s3 = observed crc (s2\<lparr>shared := e2, writer_at := Inserting PUT [k] big ?n\<rparr>)"
  have "writer_step crc s2 = Some (s2\<lparr>shared := e2, writer_at := Inserting PUT [k] big ?n\<rparr>)"
    using app by (simp add: writer_step_def s2_def)
  then have r3: "reachable ops crc e0 s3" unfolding s3_def by (rule reachable_step [OF r2 lim2 writer_moves])
  have act: "active_memtable e2 = Some (memtable_new 1048576)" using a2(1) e1(2) by auto
  define m where "m = snd (memtable_write PUT [k] big ?n (memtable_new 1048576))"
  have ins: "insert_active PUT [k] big ?n e2 = (Inr (), e2\<lparr>active_memtable := Some m\<rparr>)"
    using insert_active_inv [of crc PUT "[k]" big ?n e2, OF _ act] a2(2) by (auto simp: m_def)
  define s4 where "s4 = observed crc (s3\<lparr>shared := e2\<lparr>active_memtable := Some m\<rparr>, writer_at := No_Writer\<rparr>)"
  have lim3: "within_limits crc (shared s3)"
    using limits_same [OF lim2, of "shared s3"] a2(1) by (auto simp: s2_def s3_def)
  have "writer_step crc s3 = Some (s3\<lparr>shared := e2\<lparr>active_memtable := Some m\<rparr>, writer_at := No_Writer\<rparr>)"
    using ins by (simp add: writer_step_def s3_def)
  then have r4: "reachable ops crc e0 s4" unfolding s4_def by (rule reachable_step [OF r3 lim3 writer_moves])
  have lim4: "within_limits crc (shared s4)"
    using limits_same [OF lim3, of "shared s4"] by (auto simp: s3_def s4_def)
  have nx: "unat (next_sequence (engine_wal e2)) = Suc (unat ?n)" using a2(2) by (simp add: engine_inv_def)
  have "calm ops crc e0 s4"
    using r4 lim4 run nx seq a2(1) e1(6) by (auto simp: calm_def s1_def s2_def s3_def s4_def)
  moreover have "heavy k m" by (auto simp: heavy_def m_def)
  ultimately show ?thesis
    using a2(1) e1(4,5,7) nx by (intro exI [of _ s4] exI [of _ m]) (auto simp: s1_def s2_def s3_def s4_def)
qed

section \<open>The worker flushes and meets a writer\<close>

lemma calm_flush:
  assumes heap: "min_heap ops invar items" and crc: "running_crc crc" and s: "calm ops crc e0 s"
    and w: "worker_at s = Popping" and i: "immutable_memtable (shared s) = Some m"
    and small: "table_volume crc (shared s) + length (mtable m) < 2 ^ 28" and rm: "room 3 (shared s)"
  shows "\<exists>t through. calm ops crc e0 t \<and> worker_at t = Reclaiming through \<and> immutable_memtable (shared t) = None
    \<and> active_memtable (shared t) = active_memtable (shared s) \<and> engine_wal (shared t) = engine_wal (shared s)"
proof -
  let ?e = "shared s"
  have r0: "reachable ops crc e0 s" and lim: "within_limits crc ?e" and run: "stopper_at s = Running"
    and nw: "writer_at s = No_Writer" using s by (simp_all add: calm_def)
  note inv = reachable_inv [OF heap crc]
  have slot: "tq_queue (flush_queue ?e) = [m]" using inv [OF r0] w i by (simp add: threads_inv_def control_inv_def)
  obtain q where q: "tq_wait_and_pop (flush_queue ?e) = Some (Some m, q)" using tq.pop_item [OF slot] by blast
  define s1 where "s1 = observed crc (s\<lparr>shared := ?e\<lparr>flush_queue := q\<rparr>, worker_at := Flushing m\<rparr>)"
  have "worker_step ops crc s = Some (s\<lparr>shared := ?e\<lparr>flush_queue := q\<rparr>, worker_at := Flushing m\<rparr>)"
    using w q by (simp add: worker_step_io_def)
  then have r1: "reachable ops crc e0 s1" unfolding s1_def by (rule reachable_step [OF r0 lim worker_moves])
  have lim1: "within_limits crc (shared s1)" by (rule limits_same [OF lim]) (simp_all add: s1_def)
  have inv1: "engine_inv crc None (shared s1)" and unc: "all_from (memtable_lookup m) (covered (shared s1))"
    using inv [OF r1] nw by (auto simp: threads_inv_def control_inv_def s1_def uncommitted_def)
  have i1: "immutable_memtable (shared s1) = Some m" using i by (simp add: s1_def)
  have ft: "fits_table (mtable m)" using lim i by (simp add: within_limits_def)
  have "room 0 (shared s1)" using lim1 by (simp add: within_limits_def)
  then obtain r e2 where b: "flush_build crc Snapshot_Ok m (shared s1) = Some (r, e2)"
    using flush_build_total [of "shared s1" crc Snapshot_Ok m] by auto
  have same1: "table_volume crc (shared s1) = table_volume crc ?e" "room 3 (shared s1)"
    using rm by (simp_all add: s1_def table_volume_def room_def)
  obtain through where f: "r = Inr through" "immutable_committed crc e2" "engine_inv crc None e2"
    "table_volume crc e2 = table_volume crc ?e + length (mtable m)" "room 0 e2" "only_tables (shared s1) e2"
    using flush_build_ok [OF crc inv1 i1 unc ft b] same1 by auto
  note same = only_tables_simps [OF f(6)]
  define s2 where "s2 = observed crc (s1\<lparr>shared := e2, worker_at := Clearing m through\<rparr>)"
  have "worker_step ops crc s1 = Some (s1\<lparr>shared := e2, worker_at := Clearing m through\<rparr>)"
    using b f(1) by (simp add: worker_step_io_def s1_def)
  then have r2: "reachable ops crc e0 s2" unfolding s2_def by (rule reachable_step [OF r1 lim1 worker_moves])
  have lim2: "within_limits crc (shared s2)"
    using f(4,5) small ft i1 same(4) by (simp add: within_limits_def s2_def)
  define s3 where "s3 = observed crc (s2\<lparr>shared := e2\<lparr>immutable_memtable := None\<rparr>, worker_at := Reclaiming through\<rparr>)"
  have "worker_step ops crc s2 = Some (s2\<lparr>shared := e2\<lparr>immutable_memtable := None\<rparr>, worker_at := Reclaiming through\<rparr>)"
    using i1 same(4) by (simp add: worker_step_io_def s2_def flush_clear_def)
  then have r3: "reachable ops crc e0 s3" unfolding s3_def by (rule reachable_step [OF r2 lim2 worker_moves])
  have "within_limits crc (shared s3)"
    using lim2 by (simp add: within_limits_def room_def table_volume_def s2_def s3_def)
  then have "calm ops crc e0 s3"
    using r3 s same run nw by (simp add: calm_def s1_def s2_def s3_def)
  then show ?thesis
    using same by (intro exI [of _ s3] exI [of _ through]) (simp add: s1_def s2_def s3_def)
qed

text \<open>The worker needs \<open>write_mutex_\<close> to reclaim the log; the writer holds it and waits for the slot.\<close>

definition mutual_wait :: "threads \<Rightarrow> bool" where
  "mutual_wait s \<longleftrightarrow>
     (\<exists>op key val through. writer_at s = Preparing op key val \<and> worker_at s = Reclaiming through
        \<and> prepare_for_write key (write_candidate op val) (shared s) = None)"

text \<open>Two writes in a row leave one memtable frozen in the queue and one full.\<close>

lemma full_reached:
  assumes heap: "min_heap ops invar items" and crc: "running_crc crc"
  shows "\<exists>s m1 m2. calm ops crc example_engine s \<and> worker_at s = Popping \<and> active_memtable (shared s) = Some m2 \<and> heavy 2 m2
    \<and> heavy 1 m1 \<and> immutable_memtable (shared s) = Some (frozen m1) \<and> table_volume crc (shared s) = 0 \<and> room 3 (shared s)
    \<and> unat (next_sequence (engine_wal (shared s))) = 2"
proof -
  let ?e = example_engine
  have lim0: "within_limits crc ?e"
    using example_room [of 0] example_volume by (simp add: within_limits_def) (simp add: example_engine_def)
  have s0: "calm ops crc ?e (threads_new crc ?e)"
    using reachable_start [OF example_started] lim0
    by (simp add: calm_def threads_new_def) (simp add: example_engine_def)
  obtain s1 m1 where s1: "calm ops crc ?e s1" "worker_at s1 = Popping" "active_memtable (shared s1) = Some m1" "heavy 1 m1"
    "engine_files (shared s1) = engine_files ?e" "engine_manifest (shared s1) = engine_manifest ?e"
    "unat (next_sequence (engine_wal (shared s1))) = 1" "immutable_memtable (shared s1) = None"
    using heavy_put [OF heap crc s0, of "memtable_new 1048576" 0 1]
    by (auto simp: threads_new_def) (auto simp: example_engine_def)
  obtain s2 m2 where s2: "calm ops crc ?e s2" "worker_at s2 = Popping" "active_memtable (shared s2) = Some m2" "heavy 2 m2"
    "engine_files (shared s2) = engine_files ?e" "engine_manifest (shared s2) = engine_manifest ?e"
    "unat (next_sequence (engine_wal (shared s2))) = 2" "immutable_memtable (shared s2) = Some (frozen m1)"
    using heavy_put [OF heap crc s1(1,3), of 1 2] s1 heavy_not_new [OF s1(4)] by auto
  have "table_volume crc (shared s2) = 0" "room 3 (shared s2)"
    using s2(5,6) example_volume [of crc] example_room [of 3] by (simp_all add: table_volume_def room_def)
  then show ?thesis using s1(4) s2 by blast
qed

lemma mutual_wait_reached:
  assumes heap: "min_heap ops invar items" and crc: "running_crc crc"
  shows "\<exists>s. reachable ops crc example_engine s \<and> mutual_wait s \<and> stopper_at s = Running \<and> within_limits crc (shared s)"
proof -
  let ?e = example_engine
  obtain s2 m1 m2 where s2: "calm ops crc ?e s2" "worker_at s2 = Popping" "active_memtable (shared s2) = Some m2" "heavy 2 m2"
    "heavy 1 m1" "immutable_memtable (shared s2) = Some (frozen m1)" "table_volume crc (shared s2) = 0" "room 3 (shared s2)"
    "unat (next_sequence (engine_wal (shared s2))) = 2"
    using full_reached [OF heap crc] by blast
  have len: "length (mtable (frozen m1)) = 1" using heavy_count [OF s2(5)] by (simp add: entry_count_def)
  obtain s3 through where s3: "calm ops crc ?e s3" "worker_at s3 = Reclaiming through" "immutable_memtable (shared s3) = None"
    "active_memtable (shared s3) = Some m2" "engine_wal (shared s3) = engine_wal (shared s2)"
    using calm_flush [OF heap crc s2(1,2,6)] s2(3,7,8) len by auto
  obtain s4 m3 where s4: "calm ops crc ?e s4" "worker_at s4 = Reclaiming through" "active_memtable (shared s4) = Some m3" "heavy 3 m3"
    "immutable_memtable (shared s4) = Some (frozen m2)"
    using heavy_put [OF heap crc s3(1,4), of 2 3] s3 s2(4,9) heavy_not_new [OF s2(4)] by auto
  define s5 where "s5 = observed crc (s4\<lparr>writer_at := Preparing PUT [4] big\<rparr>)"
  have r4: "reachable ops crc ?e s4" and l4: "within_limits crc (shared s4)" and w4: "writer_at s4 = No_Writer"
    and run4: "stopper_at s4 = Running" using s4(1) by (simp_all add: calm_def)
  have "reachable ops crc ?e s5" unfolding s5_def by (rule reachable_step [OF r4 l4 writer_enters [OF w4]])
  moreover have "prepare_for_write [4] (write_candidate PUT big) (shared s4) = None"
  proof -
    have "\<not> shutting_down (shared s4)" "background_error (shared s4) = None"
      using reachable_inv [OF heap crc r4] run4 by (simp_all add: threads_inv_def control_inv_def)
    moreover have "rotation_required (shared s4) [4] (write_candidate PUT big)"
      using s4(3) heavy_exceeds [OF s4(4), of 4] heavy_count [OF s4(4)] by (simp add: rotation_required_def)
    ultimately show ?thesis using s4(5) by (simp add: prepare_waits_iff)
  qed
  ultimately show ?thesis using s4(2) run4 l4 by (intro exI [of _ s5]) (simp add: mutual_wait_def s5_def)
qed

end
