(* ===== verification/Store_Interface.thy ===== *)
theory Store_Interface
  imports Main
begin

text \<open>
  What a client of the engine relies on: a map that writes change at one key and reads leave alone,
  and a durable one that can be opened again from what is on disk.
\<close>

locale map_store =
  fixes ok :: "'s \<Rightarrow> bool"
    and content :: "'s \<Rightarrow> 'k \<Rightarrow> 'v option"
    and update :: "'k \<Rightarrow> 'v option \<Rightarrow> 's \<Rightarrow> (('e + unit) \<times> 's) option"
    and lookup :: "'k \<Rightarrow> 's \<Rightarrow> ('e + 'v option) \<times> 's"
  assumes update_ok: "ok s \<Longrightarrow> update k v s = Some (r, s') \<Longrightarrow>
      ok s' \<and> content s' = (case r of Inl err \<Rightarrow> content s | Inr u \<Rightarrow> (content s)(k := v))"
    and lookup_ok: "ok s \<Longrightarrow> \<exists>s'. lookup k s = (Inr (content s k), s') \<and> ok s' \<and> content s' = content s"
begin

lemma read_after_update:
  assumes "ok s" and "update k v s = Some (Inr u, s')"
  shows "\<exists>s2. lookup k' s' = (Inr (if k' = k then v else content s k'), s2) \<and> ok s2"
  using update_ok [OF assms] lookup_ok [of s' k'] by auto

lemma read_after_failure:
  assumes "ok s" and "update k v s = Some (Inl err, s')"
  shows "\<exists>s2. lookup k' s' = (Inr (content s k'), s2) \<and> ok s2"
  using update_ok [OF assms] lookup_ok [of s' k'] by auto

end

locale durable_map_store = map_store ok content update lookup
  for ok :: "'s \<Rightarrow> bool" and content :: "'s \<Rightarrow> 'k \<Rightarrow> 'v option"
    and update :: "'k \<Rightarrow> 'v option \<Rightarrow> 's \<Rightarrow> (('e + unit) \<times> 's) option"
    and lookup :: "'k \<Rightarrow> 's \<Rightarrow> ('e + 'v option) \<times> 's" +
  fixes valid :: "'c \<Rightarrow> bool"
    and reopen :: "'c \<Rightarrow> 's \<Rightarrow> 'e + 's"
  assumes reopen_ok: "ok s \<Longrightarrow> valid c \<Longrightarrow> \<exists>s'. reopen c s = Inr s' \<and> ok s' \<and> content s' = content s"
begin

lemma update_survives:
  assumes "ok s" and "update k v s = Some (Inr u, s')" and "valid c"
  shows "\<exists>s1 s2. reopen c s' = Inr s1 \<and> ok s1 \<and> lookup k' s1 = (Inr (if k' = k then v else content s k'), s2)"
proof -
  have "ok s'" "content s' = (content s)(k := v)" using update_ok [OF assms(1,2)] by simp_all
  moreover obtain s1 where "reopen c s' = Inr s1" "ok s1" "content s1 = content s'"
    using reopen_ok [OF \<open>ok s'\<close> assms(3)] by blast
  ultimately show ?thesis using lookup_ok [of s1 k'] by auto
qed

text \<open>Updates, each followed by a crash and a reopening.\<close>

lemma updates_survive:
  assumes "ok s" and "update k v s = Some (Inr u, s1)" and "valid c" and "reopen c s1 = Inr s2"
    and "update k' v' s2 = Some (Inr u', s3)" and "valid c'"
  shows "\<exists>s4. reopen c' s3 = Inr s4 \<and> content s4 = (content s)(k := v, k' := v')"
proof -
  have 1: "ok s1" "content s1 = (content s)(k := v)" using update_ok [OF assms(1,2)] by simp_all
  then have 2: "ok s2" "content s2 = content s1" using reopen_ok [OF 1(1) assms(3)] assms(4) by auto
  have 3: "ok s3" "content s3 = (content s2)(k' := v')" using update_ok [OF 2(1) assms(5)] by simp_all
  show ?thesis using reopen_ok [OF 3(1) assms(6)] 1 2 3 by auto
qed

end

end
