(* ===== verification/Engine_Properties.thy ===== *)
theory Engine_Properties
  imports Engine_Scenario Store_Interface
begin

text \<open>
  The operations of the engine as functions of its state: what a write, a read, a task of the
  worker and a compaction do to the abstract map, what a failing write of the log or of the
  manifest leaves, what opening a directory has checked, and that a table name is always found.
\<close>

section \<open>Writes\<close>

lemma view_update: "engine_view crc e' = (engine_view crc e)(key \<mapsto> written_entry op val sequence) \<Longrightarrow>
  logical_map crc e' = (logical_map crc e)(key := (if op = PUT then Some val else None))"
  by (auto simp: logical_map_def fun_eq_iff)

text \<open>C14: A \<open>put\<close> or \<open>remove\<close> that succeeds keeps the invariant and changes the map at its key
  only, to the value written or to no value; one that is rejected changes nothing of the map.
  This includes the rotation that the write may cause.\<close>

theorem engine_write_correct:
  assumes "engine_inv crc None e" and "engine_write crc Io_Complete op key val e = Some (res, e')"
  shows "engine_inv crc None e'
    \<and> logical_map crc e' = (case res of
         Inl err \<Rightarrow> logical_map crc e
       | Inr _ \<Rightarrow> (logical_map crc e)(key := (if op = PUT then Some val else None)))"
proof (cases res)
  case (Inl err)
  then show ?thesis using engine_write_ok [OF assms] logical_map_view [of crc e' e] by simp
next
  case (Inr u)
  then show ?thesis using engine_write_ok [OF assms] view_update [of crc e' e key op val] by simp
qed

lemma example_open:
  "\<not> shutting_down example_engine" "background_error example_engine = None" "flush_queue example_engine = tq_new"
  "immutable_memtable example_engine = None" "active_memtable example_engine = Some (memtable_new 1048576)"
  "next_sequence (engine_wal example_engine) = 0" "live example_engine = []" "db_path example_engine = [100]"
  by (simp_all add: example_engine_def example_path_def)

lemma example_put: "\<exists>e'. engine_write sum_crc Io_Complete PUT [1] [2] example_engine = Some (Inr (), e')"
  by (rule engine_write_accepts [OF example_new(2)])
    (simp_all add: example_open tq.new rotation_required_def entry_count_def memtable_new_def fits_record_def max_u64_def)

theorem engine_write_correct_witness:
  "\<exists>e'. engine_write sum_crc Io_Complete PUT [1] [2] example_engine = Some (Inr (), e')
     \<and> logical_map sum_crc e' [1] = Some [2]"
  using example_put engine_write_correct [OF example_new(2)] by fastforce

text \<open>When a write fails, for whatever failure of the log's system calls, the map is
  unchanged.\<close>

theorem engine_write_failure_atomic:
  assumes inv: "engine_inv crc None e" and run: "engine_write crc io op key val e = Some (Inl err, e')"
  shows "logical_map crc e' = logical_map crc e"
proof (cases "io = Io_Complete")
  case True
  then show ?thesis using engine_write_ok [OF inv] run by (auto intro: logical_map_view)
next
  case False
  obtain r1 e1 where p: "prepare_for_write key (write_candidate op val) e = Some (r1, e1)"
    using run by (auto simp: engine_write_def split: option.splits)
  have view1: "engine_view crc e1 = engine_view crc e" using prepare_inv [OF inv p] by simp
  obtain r2 e2 where app: "append_wal crc io op key val e1 = (r2, e2)" by fastforce
  then have e2: "e2 = e1\<lparr>engine_wal := engine_wal e2\<rparr>" by (auto simp: append_wal_write split: prod.splits)
  obtain err2 where w: "r2 = Inl err2"
    using False app by (auto simp: append_wal_write write_record_def Let_def split: prod.splits if_splits append_io.splits)
  have "e' = e1 \<or> e' = e2" using run p app w by (cases r1) (auto simp: engine_write_def)
  moreover have "engine_view crc e2 = engine_view crc e1" by (subst e2) (simp add: engine_view_def disk_view_def fun_eq_iff)
  ultimately show ?thesis using view1 by (auto intro: logical_map_view)
qed

lemma example_failed_put:
  "\<exists>e'. engine_write sum_crc Io_Fsync_Fails PUT [1] [2] example_engine = Some (Inl Wal_Fsync_Failed, e')"
proof -
  have "prepare_for_write [1] (write_candidate PUT [2]) example_engine = Some (Inr (), example_engine)"
    by (simp add: prepare_for_write_def example_open rotation_required_def entry_count_def memtable_new_def)
  moreover have "\<exists>e'. append_wal sum_crc Io_Fsync_Fails PUT [1] [2] example_engine = (Inl Wal_Fsync_Failed, e')"
    by (simp add: append_wal_def wal_put_def write_record_def example_open Let_def max_u64_def)
  ultimately show ?thesis by (auto simp: engine_write_def)
qed

theorem engine_write_failure_atomic_witness:
  "\<exists>e'. engine_write sum_crc Io_Fsync_Fails PUT [1] [2] example_engine = Some (Inl Wal_Fsync_Failed, e')
     \<and> logical_map sum_crc e' = logical_map sum_crc example_engine"
  using example_failed_put engine_write_failure_atomic [OF example_new(2)] by blast

text \<open>When a write is refused, waits or is accepted: a closed engine refuses it, an engine whose
  worker failed refuses it with the worker's error, both without any change; otherwise it waits
  exactly while the new entry needs a rotation and a frozen memtable occupies the slot; and on an
  open engine it is accepted when the log has a sequence number left and the record fits.\<close>

theorem engine_write_outcome:
  assumes inv: "engine_inv crc None e"
  shows "(shutting_down e \<longrightarrow> engine_write crc io op key val e = Some (Inl Engine_Shutting_Down, e))
    \<and> (\<forall>err. \<not> shutting_down e \<and> background_error e = Some err \<longrightarrow> engine_write crc io op key val e = Some (Inl err, e))
    \<and> (engine_write crc io op key val e = None \<longleftrightarrow>
         \<not> shutting_down e \<and> background_error e = None \<and> rotation_required e key (write_candidate op val)
         \<and> immutable_memtable e \<noteq> None)
    \<and> (\<not> shutting_down e \<and> background_error e = None \<and> \<not> tq_shutting_down (flush_queue e)
         \<and> \<not> (rotation_required e key (write_candidate op val) \<and> immutable_memtable e \<noteq> None)
         \<and> next_sequence (engine_wal e) \<noteq> max_u64 \<and> fits_record key (if op = PUT then val else [])
       \<longrightarrow> (\<exists>e'. engine_write crc Io_Complete op key val e = Some (Inr (), e')))"
proof -
  have "engine_write crc io op key val e = None \<longleftrightarrow> prepare_for_write key (write_candidate op val) e = None"
    by (auto simp: engine_write_def split: option.splits sum.splits prod.splits)
  then show ?thesis
    using engine_write_accepts [OF inv, of key op val]
    by (simp add: prepare_waits_iff) (simp add: engine_write_def prepare_for_write_def)
qed

theorem engine_write_outcome_witness:
  "(\<exists>e'. engine_write sum_crc Io_Complete DELETE [1] [] example_engine = Some (Inr (), e'))
    \<and> engine_write sum_crc Io_Complete DELETE [1] [] example_engine \<noteq> None"
  using engine_write_outcome [OF example_new(2) [of sum_crc], where io = Io_Complete and op = DELETE and key = "[1]" and val = "[]"]
  by (simp add: example_open tq.new fits_record_def max_u64_def)

section \<open>Reads\<close>

text \<open>C15: A \<open>get\<close> never fails, answers with the newest version over both memtables and all live
  tables, a tombstone being the answer \<open>DELETED\<close>, so with the value of the map; it leaves
  everything but the reader cache as it was.\<close>

theorem engine_get_correct:
  assumes "engine_inv crc pend e"
  shows "\<exists>c. engine_get crc key e = (Inr (result_of_entry (engine_view crc e key)), e\<lparr>sstable_readers := c\<rparr>)
    \<and> answer_value (result_of_entry (engine_view crc e key)) = logical_map crc e key
    \<and> engine_inv crc pend (e\<lparr>sstable_readers := c\<rparr>)"
  using engine_get_ok [OF assms, of key] engine_inv_cache(1) [OF assms] by (auto simp: logical_map_def)

theorem engine_get_correct_witness:
  "\<exists>e' c. engine_write sum_crc Io_Complete PUT [1] [2] example_engine = Some (Inr (), e')
     \<and> engine_get sum_crc [1] e' = (Inr (result_of_entry (engine_view sum_crc e' [1])), e'\<lparr>sstable_readers := c\<rparr>)
     \<and> answer_value (result_of_entry (engine_view sum_crc e' [1])) = Some [2]"
proof -
  obtain e' where e': "engine_write sum_crc Io_Complete PUT [1] [2] example_engine = Some (Inr (), e')"
    using example_put by blast
  from engine_write_ok [OF example_new(2) this] have "engine_inv sum_crc None e'" "logical_map sum_crc e' [1] = Some [2]"
    by (auto simp: logical_map_def)
  with engine_get_correct [OF this(1), of "[1]"] e' show ?thesis by auto
qed

section \<open>The engine as a durable map\<close>

text \<open>The interface of Store_Interface on the engine: \<open>None\<close> is written by \<open>remove\<close>.\<close>

definition update_engine :: "crc_fn \<Rightarrow> bytes \<Rightarrow> bytes option \<Rightarrow> engine \<Rightarrow> ((kerror + unit) \<times> engine) option" where
  "update_engine crc key v e =
     (case v of None \<Rightarrow> engine_remove crc Io_Complete key e | Some val \<Rightarrow> engine_put crc Io_Complete key val e)"

definition lookup_engine :: "crc_fn \<Rightarrow> bytes \<Rightarrow> engine \<Rightarrow> (kerror + bytes option) \<times> engine" where
  "lookup_engine crc key e =
     (case engine_get crc key e of (Inl err, e') \<Rightarrow> (Inl err, e') | (Inr r, e') \<Rightarrow> (Inr (answer_value r), e'))"

definition reopen_engine :: "crc_fn \<Rightarrow> int \<times> u64 \<Rightarrow> engine \<Rightarrow> kerror + engine" where
  "reopen_engine crc c e =
     engine_new crc (fst c) (snd c) (db_path e) (Some (wal_file (engine_wal e))) (engine_files e)"

definition valid_settings :: "int \<times> u64 \<Rightarrow> bool" where
  "valid_settings c \<longleftrightarrow> (\<exists>target. memtable_bytes_from_config (fst c) = Inr target) \<and> snd c \<noteq> 0"

definition store_ok :: "crc_fn \<Rightarrow> engine \<Rightarrow> bool" where
  "store_ok crc e \<longleftrightarrow> engine_inv crc None e \<and> db_path e \<noteq> []"

lemma prepare_path: "prepare_for_write key cand e = Some (r, e') \<Longrightarrow> db_path e' = db_path e"
  by (auto simp: prepare_for_write_def rotate_active_def Let_def split: if_splits option.splits prod.splits)

lemma append_wal_path: "append_wal crc io op key val e = (r, e') \<Longrightarrow> db_path e' = db_path e"
  by (auto simp: append_wal_def split: prod.splits)

lemma insert_active_path: "insert_active op key val sequence e = (r, e') \<Longrightarrow> db_path e' = db_path e"
  by (auto simp: insert_active_def Let_def split: option.splits prod.splits if_splits)

lemma engine_write_path: "engine_write crc io op key val e = Some (r, e') \<Longrightarrow> db_path e' = db_path e"
  by (auto simp: engine_write_def dest!: prepare_path append_wal_path insert_active_path split: option.splits sum.splits prod.splits)

lemma store_write:
  assumes "store_ok crc e" and "engine_write crc Io_Complete op key val e = Some (r, e')"
  shows "store_ok crc e' \<and> logical_map crc e' = (case r of
      Inl err \<Rightarrow> logical_map crc e | Inr u \<Rightarrow> (logical_map crc e)(key := (if op = PUT then Some val else None)))"
  using assms engine_write_ok [of crc e op key val r e'] engine_write_path [OF assms(2)]
    view_update [of crc e' e key op val] logical_map_view [of crc e' e]
  by (auto simp: store_ok_def split: sum.splits)

interpretation kv: durable_map_store "store_ok crc" "logical_map crc" "update_engine crc" "lookup_engine crc"
  valid_settings "reopen_engine crc"
proof unfold_locales
  fix e k v r e'
  assume e: "store_ok crc e" and run: "update_engine crc k v e = Some (r, e')"
  have "engine_write crc Io_Complete (if v = None then DELETE else PUT) k (case v of None \<Rightarrow> [] | Some x \<Rightarrow> x) e = Some (r, e')"
    using run by (auto simp: update_engine_def engine_put_def engine_remove_def split: option.splits)
  from store_write [OF e this] show "store_ok crc e' \<and>
      logical_map crc e' = (case r of Inl err \<Rightarrow> logical_map crc e | Inr u \<Rightarrow> (logical_map crc e)(k := v))"
    by (cases v) (auto split: sum.splits)
next
  fix e k
  assume "store_ok crc e"
  then have e: "engine_inv crc None e" "db_path e \<noteq> []" by (simp_all add: store_ok_def)
  obtain c where c: "engine_get crc k e = (Inr (result_of_entry (engine_view crc e k)), e\<lparr>sstable_readers := c\<rparr>)"
    "cache_ok crc (e\<lparr>sstable_readers := c\<rparr>)" using engine_get_ok [OF e(1)] by blast
  note ic = engine_inv_cache [OF e(1) c(2)]
  have "store_ok crc (e\<lparr>sstable_readers := c\<rparr>) \<and> logical_map crc (e\<lparr>sstable_readers := c\<rparr>) = logical_map crc e"
    using ic e(2) logical_map_view [OF ic(2)] by (simp add: store_ok_def)
  then show "\<exists>s'. lookup_engine crc k e = (Inr (logical_map crc e k), s') \<and> store_ok crc s' \<and> logical_map crc s' = logical_map crc e"
    using c(1) by (simp add: lookup_engine_def logical_map_def)
next
  fix e and c :: "int \<times> u64"
  assume "store_ok crc e" and v: "valid_settings c"
  then have e: "engine_inv crc None e" "db_path e \<noteq> []" by (simp_all add: store_ok_def)
  obtain target where t: "memtable_bytes_from_config (fst c) = Inr target" "snd c \<noteq> 0" using v by (auto simp: valid_settings_def)
  have "[] = [] \<or> parse_record crc [] = Parse_Torn" by simp
  from engine_restart_ok [OF e t this] obtain e' where
    e': "engine_new crc (fst c) (snd c) (db_path e) (Some (wal_file (engine_wal e) @ [])) (engine_files e) = Inr e'"
    "engine_inv crc None e'" "engine_view crc e' = with_pending None (engine_view crc e)" "db_path e' = db_path e"
    by blast
  have "logical_map crc e' = logical_map crc e" using e'(3) by (intro logical_map_view) (simp add: with_pending_def)
  moreover have "reopen_engine crc c e = Inr e'" using e'(1) by (simp add: reopen_engine_def)
  ultimately show "\<exists>s'. reopen_engine crc c e = Inr s' \<and> store_ok crc s' \<and> logical_map crc s' = logical_map crc e"
    using e'(2,4) e(2) by (simp add: store_ok_def)
qed

text \<open>C4: Durability as a client sees it: when \<open>put\<close> or \<open>remove\<close> has returned and the process dies,
  then with any valid settings the directory opens again, and \<open>get\<close> on the new engine answers the
  written value at its key and what was there before at every other key.\<close>

theorem acknowledged_write_survives:
  assumes "engine_inv crc None e" and "db_path e \<noteq> []"
    and "(case v of None \<Rightarrow> engine_remove crc Io_Complete key e | Some val \<Rightarrow> engine_put crc Io_Complete key val e) = Some (Inr (), e')"
    and "memtable_bytes_from_config mb = Inr target" and "trigger \<noteq> 0"
  shows "\<exists>e1 r e2. engine_new crc mb trigger (db_path e') (Some (wal_file (engine_wal e'))) (engine_files e') = Inr e1
    \<and> engine_get crc k e1 = (Inr r, e2) \<and> answer_value r = (if k = key then v else logical_map crc e k)"
proof -
  have "store_ok crc e" "update_engine crc key v e = Some (Inr (), e')" "valid_settings (mb, trigger)"
    using assms by (simp_all add: store_ok_def update_engine_def valid_settings_def)
  from kv.update_survives [OF this, of k] obtain e1 e2 where
    "reopen_engine crc (mb, trigger) e' = Inr e1" "lookup_engine crc k e1 = (Inr (if k = key then v else logical_map crc e k), e2)"
    by blast
  then show ?thesis by (auto simp: reopen_engine_def lookup_engine_def split: prod.splits sum.splits)
qed

theorem acknowledged_write_survives_witness:
  "\<exists>e' e1 r e2. engine_put sum_crc Io_Complete [1] [2] example_engine = Some (Inr (), e')
     \<and> engine_new sum_crc 64 4 (db_path e') (Some (wal_file (engine_wal e'))) (engine_files e') = Inr e1
     \<and> engine_get sum_crc [1] e1 = (Inr r, e2) \<and> answer_value r = Some [2]"
proof -
  obtain e' where e': "engine_put sum_crc Io_Complete [1] [2] example_engine = Some (Inr (), e')"
    using example_put by (auto simp: engine_put_def)
  have mb: "memtable_bytes_from_config 64 = Inr 67108864" by (simp add: memtable_bytes_from_config_def)
  have p: "db_path example_engine \<noteq> []" by (simp add: example_open)
  have "(case Some [2] of None \<Rightarrow> engine_remove sum_crc Io_Complete [1] example_engine
      | Some val \<Rightarrow> engine_put sum_crc Io_Complete [1] val example_engine) = Some (Inr (), e')" using e' by simp
  from acknowledged_write_survives [OF example_new(2) p this mb, of 4 "[1]"] e' show ?thesis by auto
qed

section \<open>The worker\<close>

text \<open>A memtable with one entry, frozen.\<close>

lemma example_put_form:
  assumes fits: "fits_record key val"
  defines "m \<equiv> snd (memtable_write PUT key val 0 (memtable_new 1048576))"
  shows "\<exists>w. engine_write sum_crc Io_Complete PUT key val example_engine
      = Some (Inr (), example_engine\<lparr>engine_wal := w, active_memtable := Some m\<rparr>)"
    and "mtable m = [(key, \<lparr>entry_value = val, entry_sequence = 0, entry_operation = PUT\<rparr>)]" and "entry_count m = 1"
proof -
  have prep: "prepare_for_write key (write_candidate PUT val) example_engine = Some (Inr (), example_engine)"
    by (simp add: prepare_for_write_def example_open rotation_required_def entry_count_def memtable_new_def)
  obtain e' where run: "engine_write sum_crc Io_Complete PUT key val example_engine = Some (Inr (), e')"
    using engine_write_accepts [OF example_new(2), where op = PUT and key = key and val = val and crc = sum_crc] fits
    by (auto simp: example_open tq.new rotation_required_def entry_count_def memtable_new_def max_u64_def)
  obtain r2 e2 where app: "append_wal sum_crc Io_Complete PUT key val example_engine = (r2, e2)" by fastforce
  obtain sequence w where w: "r2 = Inr sequence" "e2 = example_engine\<lparr>engine_wal := w\<rparr>" "sequence = 0"
    using run prep app fits
    by (auto simp: engine_write_def append_wal_write write_record_def example_open max_u64_def fits_record_def Let_def)
  have "active_memtable e2 = Some (memtable_new 1048576)" using w example_open by simp
  note ins = insert_active_write [OF this, of PUT key val 0]
  have "e' = example_engine\<lparr>engine_wal := w, active_memtable := Some m\<rparr>"
    using run prep app w ins by (auto simp: engine_write_def m_def split: if_splits)
  then show "\<exists>w. engine_write sum_crc Io_Complete PUT key val example_engine
      = Some (Inr (), example_engine\<lparr>engine_wal := w, active_memtable := Some m\<rparr>)"
    using run by blast
  show tab: "mtable m = [(key, \<lparr>entry_value = val, entry_sequence = 0, entry_operation = PUT\<rparr>)]"
    by (simp add: m_def memtable_write_def memtable_put_def memtable_new_def Let_def)
  then show "entry_count m = 1" by (simp add: entry_count_def)
qed

lemma example_frozen:
  "\<exists>e m. engine_inv sum_crc None e \<and> immutable_memtable e = Some m \<and> list_all entry_fits (mtable m) \<and> length (mtable m) = 1
    \<and> all_from (memtable_lookup m) (covered e) \<and> l0_trigger e = 4 \<and> room 3 e \<and> table_volume sum_crc e = 0
    \<and> db_path e = [100] \<and> logical_map sum_crc e [1] = Some [2]"
proof -
  define m where "m = snd (memtable_write PUT [1] [2] 0 (memtable_new 1048576))"
  have "fits_record [1] [2]" by (simp add: fits_record_def)
  note put = example_put_form [OF this, folded m_def]
  obtain w where run: "engine_write sum_crc Io_Complete PUT [1] [2] example_engine
      = Some (Inr (), example_engine\<lparr>engine_wal := w, active_memtable := Some m\<rparr>)" using put(1) by blast
  define e' where "e' = example_engine\<lparr>engine_wal := w, active_memtable := Some m\<rparr>"
  note e' = e'_def and run = run [folded e'_def] and tab = put(2)
  have n: "0 < entry_count m" using put(3) by simp
  have ok: "engine_inv sum_crc None e'" "logical_map sum_crc e' [1] = Some [2]"
    using engine_write_ok [OF example_new(2) run] by (auto simp: logical_map_def)
  have m: "active_memtable e' = Some m" "immutable_memtable e' = None" using e' example_open by simp_all
  let ?e = "snd (rotate_active e')"
  note form = rotate_cases(1) [OF engine_invD(1) [OF ok(1)] m n]
  note inv = rotate_inv [OF ok(1) m n]
  have "memtable_lookup (frozen m) = memtable_lookup m" by (simp add: memtable_lookup_def fun_eq_iff)
  moreover have "l0_trigger ?e = 4" "db_path ?e = [100]" "immutable_memtable ?e = Some (frozen m)"
    by (simp_all add: form) (simp_all add: e' example_engine_def example_path_def)
  moreover have same: "engine_files ?e = engine_files example_engine" "live ?e = live example_engine"
    by (simp_all add: form) (simp_all add: e')
  moreover have "room 3 ?e" "table_volume sum_crc ?e = 0"
    using example_room [of 3] example_volume [of sum_crc] by (simp_all add: same room_def table_volume_def)
  moreover have "list_all entry_fits (mtable (frozen m))" "length (mtable (frozen m)) = 1"
    by (simp_all add: tab entry_fits_def)
  ultimately show ?thesis
    using inv ok(2) by (intro exI [of _ ?e] exI [of _ "frozen m"]) (simp add: logical_map_def)
qed

text \<open>C16: A task of the worker on the frozen memtable succeeds and keeps the map and the active
  memtable: afterwards the slot is free, every entry of the memtable is covered by the manifest's
  checkpoint, and the log may have lost only what the tables hold. This is with fewer than
  $2^{28}$ entries in all tables and the memtable and entries that fit a block.\<close>

theorem worker_task_correct:
  assumes "min_heap ops invar items" and "running_crc crc" and "engine_inv crc None e"
    and "immutable_memtable e = Some m" and "all_from (memtable_lookup m) (covered e)"
    and "l0_trigger e \<noteq> 0" and "room 3 e" and "list_all entry_fits (mtable m)"
    and "table_volume crc e + length (mtable m) < 2 ^ 28"
  shows "\<exists>e'. worker_task ops crc m e = Some (True, e') \<and> engine_inv crc None e' \<and> logical_map crc e' = logical_map crc e
    \<and> immutable_memtable e' = None \<and> active_memtable e' = active_memtable e \<and> background_error e' = background_error e
    \<and> (\<forall>k x. memtable_lookup m k = Some x \<longrightarrow> unat (entry_sequence x) < covered e')"
  by (rule worker_task_ok [OF assms])

theorem worker_task_correct_witness:
  "\<exists>e m e'. immutable_memtable e = Some m \<and> worker_task list_heap sum_crc m e = Some (True, e')
     \<and> immutable_memtable e' = None \<and> logical_map sum_crc e' [1] = Some [2]"
proof -
  obtain e m where e: "engine_inv sum_crc None e" "immutable_memtable e = Some m" "list_all entry_fits (mtable m)"
    "length (mtable m) = 1" "all_from (memtable_lookup m) (covered e)" "l0_trigger e = 4" "room 3 e"
    "table_volume sum_crc e = 0" "logical_map sum_crc e [1] = Some [2]"
    using example_frozen by blast
  have "l0_trigger e \<noteq> 0" "table_volume sum_crc e + length (mtable m) < 2 ^ 28" using e by simp_all
  from worker_task_correct [OF lh.min_heap_axioms running_crc_sum_crc e(1,2,5) this(1) e(7,3) this(2)] show ?thesis
    using e(2,9) by metis
qed

text \<open>A compaction keeps the map, the checkpoint and every table that existed: whatever the
  policy picks, the tables that replace the inputs hold the same values, with tombstones dropped
  only where nothing older is left.\<close>

theorem maybe_compact_keeps_map:
  assumes "min_heap ops invar items" and "running_crc crc" and "engine_inv crc pend e"
    and "l0_trigger e \<noteq> 0" and "table_volume crc e < 2 ^ 28"
    and "maybe_compact ops crc Snapshot_Ok e = Some (res, e')"
  shows "res = Inr () \<and> engine_inv crc pend e' \<and> logical_map crc e' = logical_map crc e \<and> covered e' = covered e"
  using maybe_compact_ok [OF assms] by blast

theorem maybe_compact_keeps_map_witness:
  "\<exists>e'. maybe_compact list_heap sum_crc Snapshot_Ok example_engine = Some (Inr (), e') \<and> engine_inv sum_crc None e'"
proof -
  have e: "l0_trigger example_engine \<noteq> 0" "table_volume sum_crc example_engine < 2 ^ 28" "room 0 example_engine"
    using example_volume example_room [of 0] by (simp_all) (simp add: example_engine_def)
  obtain res e' where "maybe_compact list_heap sum_crc Snapshot_Ok example_engine = Some (res, e')"
    using run_compaction_total [OF lh.min_heap_axioms e(3), of sum_crc Snapshot_Ok] by (auto simp: maybe_compact_def example_open)
  with maybe_compact_keeps_map [OF lh.min_heap_axioms running_crc_sum_crc example_new(2) e(1,2) this] show ?thesis by blast
qed

text \<open>A task that fails stops the worker for good: the first error is recorded, the queue is
  closed, every later write is refused with that error until shutdown, and shutdown reports it.\<close>

theorem worker_failure_sticks:
  assumes "worker_task ops crc m e = Some (False, e')"
  shows "\<exists>err. background_error e' = Some err
    \<and> (\<forall>x. fst (tq_push x (flush_queue e')) = False)
    \<and> (\<forall>io op key val. \<not> shutting_down e' \<longrightarrow> engine_write crc io op key val e' = Some (Inl err, e'))
    \<and> (\<forall>e2. background_error e2 = background_error e' \<longrightarrow> shutdown_report (Inr ()) e2 = Inl err)
    \<and> (\<forall>err2. background_error (worker_failed err2 e') = Some err)"
proof -
  obtain err e1 where e': "e' = worker_failed err e1"
    using assms(1) by (auto simp: worker_task_def split: option.splits sum.splits prod.splits)
  obtain err' where bg: "background_error e' = Some err'" unfolding e' by (cases "background_error e1") (simp_all add: worker_failed_def)
  have "tq_shutting_down (flush_queue e')" by (simp add: e' worker_failed_def tq.shut)
  then have "fst (tq_push x (flush_queue e')) = False" for x by (simp add: tq.push_closed)
  then show ?thesis
    using bg by (intro exI [of _ err']) (simp add: engine_write_def prepare_for_write_def shutdown_report_def worker_failed_def)
qed

theorem worker_failure_sticks_witness:
  "\<exists>e'. worker_task list_heap sum_crc (memtable_new 1) example_engine = Some (False, e')
     \<and> (\<exists>err. engine_write sum_crc Io_Complete PUT [1] [2] e' = Some (Inl err, e'))"
proof -
  let ?e = "worker_failed Engine_Mutable_Flush example_engine"
  have t: "worker_task list_heap sum_crc (memtable_new 1) example_engine = Some (False, ?e)"
    by (simp add: worker_task_def flush_build_def memtable_new_def)
  moreover have "\<not> shutting_down ?e" by (simp add: worker_failed_def example_open)
  ultimately show ?thesis using worker_failure_sticks [OF t] by blast
qed

section \<open>Failing manifest writes\<close>

text \<open>However writing the manifest fails in the middle of a flush, and wherever the process dies in
  it, opening the directory again gives an engine that stands for the same map: the new table is
  in it with the checkpoint moved, or it is a leftover and the log still has its entries.\<close>

theorem flush_failure_durable:
  assumes "running_crc crc" and "engine_inv crc None e" and "immutable_memtable e = Some m"
    and "all_from (memtable_lookup m) (covered e)" and "fits_table (mtable m)"
    and "flush_build crc io m e = Some (res, e')"
    and "db_path e' \<noteq> []" and "memtable_bytes_from_config mb = Inr target" and "trigger \<noteq> 0"
  shows "\<exists>e2. engine_new crc mb trigger (db_path e') (Some (wal_file (engine_wal e'))) (engine_files e') = Inr e2
    \<and> engine_inv crc None e2 \<and> logical_map crc e2 = logical_map crc e"
  by (rule restart_durable [OF flush_crash [OF assms(1-6)] assms(7-9)])

lemma one_mb: "memtable_bytes_from_config 1 = Inr 1048576"
  by (simp add: memtable_bytes_from_config_def)

lemma flush_build_path: "flush_build crc io m e = Some (r, e') \<Longrightarrow> db_path e' = db_path e"
  by (auto simp: flush_build_def Let_def dest!: allocate_SomeD split: if_splits bind_splits sum.splits prod.splits)

theorem flush_failure_durable_witness:
  "\<exists>e m res e' e2. immutable_memtable e = Some m \<and> flush_build sum_crc Rename_Fails m e = Some (res, e')
     \<and> engine_new sum_crc 1 4 (db_path e') (Some (wal_file (engine_wal e'))) (engine_files e') = Inr e2
     \<and> logical_map sum_crc e2 [1] = Some [2]"
proof -
  obtain e m where e: "engine_inv sum_crc None e" "immutable_memtable e = Some m" "list_all entry_fits (mtable m)"
    "length (mtable m) = 1" "all_from (memtable_lookup m) (covered e)" "room 3 e" "db_path e = [100]"
    "logical_map sum_crc e [1] = Some [2]"
    using example_frozen by blast
  have ft: "fits_table (mtable m)" using e(3,4) by (simp add: fits_table_def)
  have "room 0 e" using e(6) by (simp add: room_def)
  then obtain res e' where b: "flush_build sum_crc Rename_Fails m e = Some (res, e')"
    using flush_build_total [of e sum_crc Rename_Fails m] by auto
  have "db_path e' \<noteq> []" using flush_build_path [OF b] e(7) by simp
  from flush_failure_durable [OF running_crc_sum_crc e(1,2,5) ft b this one_mb, of 4] obtain e2 where
    "engine_new sum_crc 1 4 (db_path e') (Some (wal_file (engine_wal e'))) (engine_files e') = Inr e2"
    "logical_map sum_crc e2 = logical_map sum_crc e" by auto
  then show ?thesis using e(2,8) b by (intro exI [of _ e] exI [of _ m] exI [of _ res] exI [of _ e'] exI [of _ e2]) simp
qed

text \<open>The same for a compaction: a failing manifest write never loses a value and never brings a
  deleted one back.\<close>

theorem compaction_failure_durable:
  assumes "min_heap ops invar items" and "running_crc crc" and "engine_inv crc None e"
    and "l0_trigger e \<noteq> 0" and "table_volume crc e < 2 ^ 28"
    and "all_from (mem_of (immutable_memtable e)) (covered e)"
    and "run_compaction ops crc io e = Some (res, e')"
    and "db_path e' \<noteq> []" and "memtable_bytes_from_config mb = Inr target" and "trigger \<noteq> 0"
  shows "\<exists>e2. engine_new crc mb trigger (db_path e') (Some (wal_file (engine_wal e'))) (engine_files e') = Inr e2
    \<and> engine_inv crc None e2 \<and> logical_map crc e2 = logical_map crc e"
  by (rule restart_durable [OF compaction_crash [OF assms(1-7)] assms(8-10)])

theorem compaction_failure_durable_witness:
  "\<exists>e res e' e2. run_compaction list_heap sum_crc Directory_Sync_Fails e = Some (res, e')
     \<and> engine_new sum_crc 1 4 (db_path e') (Some (wal_file (engine_wal e'))) (engine_files e') = Inr e2
     \<and> logical_map sum_crc e2 [1] = Some [2]"
proof -
  obtain e m where e: "engine_inv sum_crc None e" "immutable_memtable e = Some m"
    "all_from (memtable_lookup m) (covered e)" "room 3 e" "db_path e = [100]" "l0_trigger e = 4"
    "table_volume sum_crc e = 0" "logical_map sum_crc e [1] = Some [2]"
    using example_frozen by blast
  have "room 0 e" "l0_trigger e \<noteq> 0" "table_volume sum_crc e < 2 ^ 28" "all_from (mem_of (immutable_memtable e)) (covered e)"
    using e by (simp_all add: room_def)
  note h = this
  obtain res e' where b: "run_compaction list_heap sum_crc Directory_Sync_Fails e = Some (res, e')"
    using run_compaction_total [OF lh.min_heap_axioms h(1), of sum_crc Directory_Sync_Fails] by auto
  have "db_path e' \<noteq> []"
    using b e(5) by (auto simp: run_compaction_def Let_def dest!: allocate_SomeD split: bind_splits sum.splits prod.splits option.splits)
  from compaction_failure_durable [OF lh.min_heap_axioms running_crc_sum_crc e(1) h(2-4) b this one_mb, of 4] obtain e2 where
    "engine_new sum_crc 1 4 (db_path e') (Some (wal_file (engine_wal e'))) (engine_files e') = Inr e2"
    "logical_map sum_crc e2 = logical_map sum_crc e" by auto
  then show ?thesis using e(8) b by (intro exI [of _ e] exI [of _ res] exI [of _ e'] exI [of _ e2]) simp
qed

section \<open>Opening a directory\<close>

lemma validate_tables_InrD:
  "validate_tables crc fs ms = Inr u \<Longrightarrow> \<forall>m\<in>set ms. \<exists>f r. fs (md_path m) = Some f \<and> reader_open crc f = Inr r"
  by (induction crc fs ms rule: validate_tables.induct) (auto split: option.splits sum.splits)

lemma replay_records_above:
  "replay_records (Some c) previous rs m = Inr m' \<Longrightarrow>
   memtable_lookup m' k = Some x \<Longrightarrow> memtable_lookup m k = Some x \<or> c < entry_sequence x"
proof (induction rs arbitrary: previous m)
  case (Cons r rs)
  show ?case
  proof (cases "rec_sequence r \<le> c")
    case True
    then show ?thesis using Cons by (auto split: if_splits)
  next
    case False
    define w where "w = memtable_write (rec_operation r) (rec_key r) (rec_value r) (rec_sequence r) m"
    have "replay_records (Some c) (Some (rec_sequence r)) rs (snd w) = Inr m'" "fst w = WR_SUCCESS"
      using Cons.prems(1) False
      by (auto simp: w_def memtable_write_def split: if_splits prod.splits)
    then have "memtable_lookup (snd w) k = Some x \<or> c < entry_sequence x" using Cons.IH Cons.prems(2) by blast
    moreover have "memtable_lookup (snd w) k = Some x \<Longrightarrow> memtable_lookup m k = Some x \<or> entry_sequence x = rec_sequence r"
      using memtable_write_rejected [of m "rec_key r" "rec_sequence r" "rec_operation r" "rec_value r"]
        memtable_write_lookup [of m "rec_key r" "rec_sequence r" "rec_operation r" "rec_value r"]
      by (cases "accepts m (rec_key r) (rec_sequence r)") (auto simp: w_def split: if_splits)
    ultimately show ?thesis using False by auto
  qed
qed simp

text \<open>Opening a directory, in whatever state it is, succeeds only when every table of its
  manifest is there with a readable index, when the path is not empty, when the configured size
  is positive and as many bytes fit 64 bits, and when the compaction trigger is not zero. The
  sequence numbers given out later are above the manifest's checkpoint, and so are the entries
  replayed from the log.\<close>

theorem engine_open_validates:
  assumes "engine_new crc mb trigger p wal_content fs = Inr e"
  shows "(\<forall>m\<in>set (live e). \<exists>f r. engine_files e (md_path m) = Some f \<and> reader_open crc f = Inr r)
    \<and> p \<noteq> [] \<and> 0 < mb \<and> uint (memtable_target_bytes e) = mb * 1048576 \<and> trigger \<noteq> 0
    \<and> (\<forall>c. persisted_through (engine_manifest e) = Some c \<longrightarrow>
         c < next_sequence (engine_wal e)
         \<and> (\<forall>k x. mem_of (active_memtable e) k = Some x \<longrightarrow> c < entry_sequence x))"
proof -
  obtain target where t: "memtable_bytes_from_config mb = Inr target" and p: "p \<noteq> []"
    using assms by (auto simp: engine_new_def split: if_splits bind_splits)
  obtain res fs' where m: "manifest_new fs (manifest_file p) = (res, fs')" by fastforce
  obtain w man where new: "manifest_new fs (path_join p (map of_char ''MANIFEST'')) = (Inr man, fs')" "trigger \<noteq> 0"
    and run: "engine_recover crc \<lparr>db_path = p, memtable_target_bytes = target, next_sstable_id = 1, engine_wal = w,
         l0_trigger = trigger, active_memtable = Some (memtable_new target),
         immutable_memtable = None, engine_manifest = man, flush_queue = tq_new,
         background_error = None, shutting_down = False, sstable_readers = (\<lambda>_. None),
         flush_count = 0, compaction_count = 0, engine_files = fs'\<rparr> = Inr e"
    using assms t p m by (auto simp: engine_new_def policy_new_def simp del: list.map split: if_splits bind_splits sum.splits)
  obtain u records w1 m where rec: "validate_tables crc fs' (live_files man) = Inr u"
    "replay_records (persisted_through man) None records (memtable_new target) = Inr m"
    and e: "db_path e = p" "memtable_target_bytes e = target" "engine_manifest e = man" "engine_files e = fs'"
      "active_memtable e = Some m"
    and c: "\<And>c. persisted_through man = Some c \<Longrightarrow> c \<noteq> max_u64 \<and> engine_wal e = ensure_next_sequence_at_least (c + 1) w1"
    using run by (cases "persisted_through man") (auto simp: engine_recover_def Let_def split: bind_splits if_splits prod.splits)
  have "c < next_sequence (engine_wal e)" if "persisted_through man = Some c" for c
  proof -
    have "c < c + 1" using c [OF that] by (simp add: word_less_nat_alt unat_u64_inc)
    then show ?thesis using c [OF that] by (auto simp: ensure_next_sequence_at_least_def)
  qed
  moreover have "c < entry_sequence x" if "persisted_through man = Some c" "memtable_lookup m k = Some x" for c k x
    using replay_records_above [OF rec(2) [unfolded that(1)] that(2)] by simp
  moreover have mb: "0 < mb" "mb * 1048576 < 2 ^ 64" and target: "target = of_int (mb * 1048576)"
    using t by (auto simp: memtable_bytes_from_config_def split: if_splits)
  moreover have "uint target = mb * 1048576"
    unfolding target using mb by (simp add: unsigned_of_int take_bit_int_eq_self del: of_int_mult)
  ultimately show ?thesis using validate_tables_InrD [OF rec(1)] p new(2) by (simp add: e)
qed

theorem engine_open_validates_witness:
  "uint (memtable_target_bytes example_engine) = 1 * 1048576 \<and> (4 :: u64) \<noteq> 0"
  using engine_open_validates [OF example_new(1) [of sum_crc]] by simp

section \<open>Table names\<close>

text \<open>Looking for the name of a new table ends when the directory holds fewer than $2^{64}$ files,
  also where the identifier wraps around, with a name in the directory that no file has.\<close>

theorem allocate_sstable_path_returns:
  assumes "finite (dom (engine_files e))" and "card (dom (engine_files e)) < 2 ^ 64"
  shows "\<exists>p e'. allocate_sstable_path level e = Some (p, e') \<and> engine_files e p = None
    \<and> (\<exists>i. e' = e\<lparr>next_sstable_id := i\<rparr>) \<and> (\<exists>n. table_name n \<and> p = path_join (db_path e) n)"
proof -
  have "room 0 e" unfolding room_def using assms by (simp only: add_0_right simp_thms)
  from allocate_total [OF this, of level] obtain p e' where a: "allocate_sstable_path level e = Some (p, e')" by auto
  show ?thesis using allocate_SomeD [OF a] by (intro exI [of _ p] exI [of _ e']) (simp add: a)
qed

theorem allocate_sstable_path_returns_witness:
  "\<exists>p e'. allocate_sstable_path 0 (example_engine\<lparr>next_sstable_id := max_u64\<rparr>) = Some (p, e')"
proof -
  have "engine_files (example_engine\<lparr>next_sstable_id := max_u64\<rparr>) = Map.empty" by (simp add: example_engine_def)
  then have "finite (dom (engine_files (example_engine\<lparr>next_sstable_id := max_u64\<rparr>)))"
    "card (dom (engine_files (example_engine\<lparr>next_sstable_id := max_u64\<rparr>))) < 2 ^ 64"
    by simp_all
  from allocate_sstable_path_returns [OF this] show ?thesis by blast
qed

end
