(* ===== verification/Engine_Concurrency.thy ===== *)
theory Engine_Concurrency
  imports Engine_Scenario
begin

text \<open>
  The properties of the engine under every interleaving of its threads.
\<close>

section \<open>What a step cannot change\<close>

abbreviation only_cache :: "engine \<Rightarrow> engine \<Rightarrow> bool" where
  "only_cache e e' \<equiv> e' = e\<lparr>sstable_readers := sstable_readers e'\<rparr>"

lemma get_sstable_reader_frame: "get_sstable_reader crc p e = (r, e') \<Longrightarrow> only_cache e e'"
  by (auto simp: get_sstable_reader_def split: option.splits sum.splits)

lemma search_one_frame: "search_tables crc key [m] winner e = (r, e') \<Longrightarrow> only_cache e e'"
  using get_sstable_reader_frame [of crc "md_path m" e]
  by (cases "get_sstable_reader crc (md_path m) e") (auto split: sum.splits if_splits)

lemma reader_step_frame:
  assumes "reader_step crc i s = Some t"
  shows "\<exists>c rd. t = s\<lparr>shared := shared s\<lparr>sstable_readers := c\<rparr>, reader_at := rd\<rparr>"
proof -
  have "only_cache (shared s) (shared t) \<and> t = s\<lparr>shared := shared t, reader_at := reader_at t\<rparr>"
    using assms
    by (auto simp: reader_step_def simp del: search_tables.simps split: reader.splits list.splits sum.splits prod.splits
        dest: search_one_frame)
  then show ?thesis by metis
qed

lemma writer_step_stopper: "writer_step crc s = Some t \<Longrightarrow> stopper_at t = stopper_at s \<and> worker_at t = worker_at s"
  by (auto simp: writer_step_def split: writer.splits option.splits sum.splits prod.splits)

lemma worker_step_stopper: "worker_step ops crc s = Some t \<Longrightarrow> stopper_at t = stopper_at s \<and> writer_at t = writer_at s"
  by (auto simp: worker_step_io_def worker_fails_def split: worker.splits option.splits sum.splits prod.splits if_splits)

lemma stopper_step_runs: "stopper_step s = Some t \<Longrightarrow> stopper_at t \<noteq> Running"
  by (auto simp: stopper_step_def split: stopper.splits option.splits prod.splits if_splits bool.splits)

lemma still_running: "thread_step ops crc s t \<Longrightarrow> stopper_at t = Running \<Longrightarrow> stopper_at s = Running"
  by (erule thread_stepE)
    (auto simp: reader_call_def dest: writer_step_stopper worker_step_stopper stopper_step_runs reader_step_frame)

text \<open>Two threads that wait for each other wait until \<open>shutdown\<close> is called.\<close>

lemma mutual_wait_step:
  assumes wait: "mutual_wait s" and step: "thread_step ops crc s t" and run: "stopper_at t = Running"
  shows "mutual_wait t \<and> writer_at t = writer_at s \<and> worker_at t = worker_at s"
proof -
  obtain op key val through where w: "writer_at s = Preparing op key val" "worker_at s = Reclaiming through"
    "prepare_for_write key (write_candidate op val) (shared s) = None"
    using wait by (auto simp: mutual_wait_def)
  show ?thesis
    using step
  proof cases
    case (writer_moves t')
    then show ?thesis using w by (simp add: writer_step_def)
  next
    case (worker_moves t')
    then show ?thesis using w by (simp add: worker_step_io_def)
  next
    case (stopper_moves t')
    then show ?thesis using stopper_step_runs run by auto
  next
    case (reader_starts i key)
    then show ?thesis using wait by (simp add: mutual_wait_def reader_call_def)
  next
    case (reader_moves i t')
    then obtain c rd where "t' = s\<lparr>shared := shared s\<lparr>sstable_readers := c\<rparr>, reader_at := rd\<rparr>"
      using reader_step_frame by blast
    moreover have "prepare_for_write key (write_candidate op val) (shared s\<lparr>sstable_readers := c\<rparr>) = None" for c
      using w(3) by (simp add: prepare_waits_iff rotation_required_def)
    ultimately show ?thesis using w reader_moves(1) by (simp add: mutual_wait_def)
  qed (use w in simp)
qed

lemma mutual_wait_stays:
  assumes "(thread_step ops crc)\<^sup>*\<^sup>* s t" and "mutual_wait s" and "stopper_at t = Running"
  shows "mutual_wait t \<and> writer_at t = writer_at s \<and> worker_at t = worker_at s"
  using assms(1,3)
proof induction
  case (step t u)
  then show ?case using still_running [OF step(2,4)] mutual_wait_step [OF _ step(2,4)] by auto
qed (use assms(2) in simp)

section \<open>The effect of a step on the abstract map\<close>

text \<open>Only the last section of a write changes the map; no step changes the directory.\<close>

lemma logical_map_cache [simp]: "logical_map crc (e\<lparr>sstable_readers := c\<rparr>) = logical_map crc e"
  by (simp add: logical_map_def engine_view_def disk_view_def fun_eq_iff)

lemma step_ok_writer:
  assumes "control_inv crc s" and "writer_step crc s = Some t"
  shows "step_ok crc s t"
  using prepare_step_ok [OF assms(1) _ assms(2)] append_step_ok [OF assms(1) _ assms(2)] insert_step_ok [OF assms(1) _ assms(2)]
    assms(2)
  by (cases "writer_at s") (auto simp: writer_step_def)

definition written_map :: "operation_type \<Rightarrow> bytes \<Rightarrow> bytes \<Rightarrow> (bytes \<Rightarrow> bytes option) \<Rightarrow> bytes \<Rightarrow> bytes option" where
  "written_map op key val f = f(key := (if op = PUT then Some val else None))"

lemma thread_step_effect:
  assumes heap: "min_heap ops invar items" and crc: "running_crc crc" and s: "threads_inv crc s"
    and lim: "within_limits crc (shared s)" and st: "thread_step ops crc s t"
  shows "db_path (shared t) = db_path (shared s)
    \<and> logical_map crc (shared t) = (case writer_at s of
         Inserting op key val sequence \<Rightarrow>
           if writer_at t = No_Writer then written_map op key val (logical_map crc (shared s)) else logical_map crc (shared s)
       | _ \<Rightarrow> logical_map crc (shared s))"
proof -
  have ctl: "control_inv crc s" using s by (simp add: threads_inv_def)
  have other: ?thesis if "step_ok crc s u" "t = observed crc u" for u
    using that by (auto simp: step_ok_def moves_to_def written_map_def split: writer.split)
  have same: ?thesis if "writer_at t = writer_at s" "shared t = shared s\<lparr>sstable_readers := c\<rparr>" for c
    using that by (simp split: writer.split)
  show ?thesis
    using st
  proof cases
    case (writer_enters op key val)
    then show ?thesis using other [OF writer_enter_ok [OF ctl]] by blast
  next
    case (writer_moves u)
    then show ?thesis using other [OF step_ok_writer [OF ctl]] by blast
  next
    case (worker_moves u)
    then show ?thesis using other worker_step_ok [OF heap crc ctl lim] by blast
  next
    case (stopper_moves u)
    then show ?thesis using other stopper_step_ok [OF ctl] by blast
  next
    case (reader_starts i key)
    then show ?thesis using same [of "sstable_readers (shared s)"] by (simp add: reader_call_def)
  next
    case (reader_moves i u)
    then obtain c rd where "u = s\<lparr>shared := shared s\<lparr>sstable_readers := c\<rparr>, reader_at := rd\<rparr>"
      using reader_step_frame by blast
    then show ?thesis using same [of c] reader_moves(1) by simp
  qed
qed

lemma reachable_path:
  assumes "min_heap ops invar items" and "running_crc crc" and "reachable ops crc e s"
  shows "db_path (shared s) = db_path e"
  using assms(3)
proof induction
  case (reachable_step s t)
  then show ?case using thread_step_effect [OF assms(1,2) reachable_inv [OF assms(1,2)]] by metis
qed (simp add: threads_new_def)

section \<open>Progress of a shutdown\<close>

text \<open>The work left once \<open>shutdown\<close> was called: every section of writer, worker and shutdown lowers it.\<close>

fun writer_rank :: "writer \<Rightarrow> nat" where
  "writer_rank No_Writer = 0"
| "writer_rank (Preparing op key val) = 3"
| "writer_rank (Appending op key val) = 2"
| "writer_rank (Inserting op key val sequence) = 1"

fun worker_rank :: "worker \<Rightarrow> nat" where
  "worker_rank Popping = 1"
| "worker_rank (Flushing m) = 6"
| "worker_rank (Clearing m through) = 5"
| "worker_rank (Reclaiming through) = 4"
| "worker_rank Checking = 3"
| "worker_rank Compacting = 2"
| "worker_rank Stopped = 0"

fun stopper_rank :: "stopper \<Rightarrow> nat" where
  "stopper_rank Running = 11"
| "stopper_rank At_Barrier = 10"
| "stopper_rank Scheduling = 9"
| "stopper_rank (Closing r) = 2"
| "stopper_rank (Joining r) = 1"
| "stopper_rank (Finished r) = 0"

definition work_left :: "threads \<Rightarrow> nat" where
  "work_left s = writer_rank (writer_at s) + worker_rank (worker_at s) + stopper_rank (stopper_at s)
     + 6 * length (tq_queue (flush_queue (shared s)))"

definition move :: "'h heap_ops \<Rightarrow> crc_fn \<Rightarrow> threads \<Rightarrow> threads \<Rightarrow> bool" where
  "move ops crc s t \<longleftrightarrow> writer_step crc s = Some t \<or> worker_step ops crc s = Some t \<or> stopper_step s = Some t"

lemma append_wal_queue: "append_wal crc io op key val e = (r, e') \<Longrightarrow> flush_queue e' = flush_queue e"
  by (auto simp: append_wal_def split: prod.splits)

lemma insert_active_queue: "insert_active op key val sequence e = (r, e') \<Longrightarrow> flush_queue e' = flush_queue e"
  by (auto simp: insert_active_def Let_def split: option.splits prod.splits if_splits)

lemma allocate_queue: "allocate_sstable_path level e = Some (p, e') \<Longrightarrow> flush_queue e' = flush_queue e"
  using allocate_SomeD [of level e p e'] by auto

lemma flush_build_queue: "flush_build crc io m e = Some (r, e') \<Longrightarrow> flush_queue e' = flush_queue e"
  by (auto simp: flush_build_def Let_def dest!: allocate_queue split: if_splits bind_splits sum.splits prod.splits)

lemma run_compaction_queue: "run_compaction ops crc io e = Some (r, e') \<Longrightarrow> flush_queue e' = flush_queue e"
  by (auto simp: run_compaction_def Let_def dest!: allocate_queue
      split: if_splits bind_splits sum.splits prod.splits option.splits)

lemma worker_failed_queue: "tq_queue (flush_queue (worker_failed err e)) = tq_queue (flush_queue e)"
  by (simp add: worker_failed_def tq.shut)

lemma writer_work:
  assumes "shutting_down (shared s)" and t: "writer_step crc s = Some t"
  shows "work_left t < work_left s"
proof (cases "writer_at s")
  case (Preparing op key val)
  then have "t = s\<lparr>writer_at := No_Writer\<rparr>" using assms by (simp add: writer_step_def prepare_for_write_def)
  then show ?thesis using Preparing by (simp add: work_left_def)
next
  case (Appending op key val)
  obtain r e' where a: "append_wal crc Io_Complete op key val (shared s) = (r, e')" by fastforce
  show ?thesis
    using t Appending a append_wal_queue [OF a] by (auto simp: writer_step_def work_left_def split: sum.splits)
next
  case (Inserting op key val sequence)
  obtain r e' where a: "insert_active op key val sequence (shared s) = (r, e')" by fastforce
  show ?thesis using t Inserting a insert_active_queue [OF a] by (auto simp: writer_step_def work_left_def)
qed (use t in \<open>simp add: writer_step_def\<close>)

lemma worker_work:
  assumes t: "worker_step ops crc s = Some t"
  shows "work_left t < work_left s"
proof (cases "worker_at s")
  case Popping
  obtain r q where p: "tq_wait_and_pop (flush_queue (shared s)) = Some (r, q)"
    using t Popping by (auto simp: worker_step_io_def split: option.splits)
  show ?thesis using tq.pop_cases [OF p] t Popping p by (auto simp: worker_step_io_def work_left_def)
next
  case (Flushing m)
  obtain r e' where a: "flush_build crc Snapshot_Ok m (shared s) = Some (r, e')"
    using t Flushing by (auto simp: worker_step_io_def split: option.splits)
  show ?thesis using t Flushing a flush_build_queue [OF a]
    by (auto simp: worker_step_io_def worker_fails_def work_left_def worker_failed_queue split: sum.splits)
next
  case (Clearing m through)
  then show ?thesis using t
    by (auto simp: worker_step_io_def worker_fails_def work_left_def worker_failed_queue flush_clear_def split: if_splits)
next
  case (Reclaiming through)
  then show ?thesis using t
    by (auto simp: worker_step_io_def worker_fails_def work_left_def worker_failed_queue flush_reclaim_def split: if_splits prod.splits sum.splits)
next
  case Compacting
  obtain r e' where a: "run_compaction ops crc Snapshot_Ok (shared s) = Some (r, e')"
    using t Compacting by (auto simp: worker_step_io_def split: option.splits)
  show ?thesis using t Compacting a run_compaction_queue [OF a]
    by (auto simp: worker_step_io_def worker_fails_def work_left_def worker_failed_queue split: sum.splits)
qed (use t in \<open>auto simp: worker_step_io_def work_left_def\<close>)

lemma schedule_queue:
  "shutdown_schedule e = Some (r, e') \<Longrightarrow> length (tq_queue (flush_queue e')) \<le> Suc (length (tq_queue (flush_queue e)))"
  by (auto simp: shutdown_schedule_def tq_push_def Let_def split: if_splits option.splits prod.splits)

lemma stopper_work:
  assumes t: "stopper_step s = Some t"
  shows "work_left t < work_left s"
proof (cases "stopper_at s")
  case Scheduling
  obtain r e' where a: "shutdown_schedule (shared s) = Some (r, e')"
    using t Scheduling by (auto simp: stopper_step_def split: option.splits)
  then have "t = s\<lparr>shared := e', stopper_at := Closing r\<rparr>" using t Scheduling by (simp add: stopper_step_def)
  then show ?thesis using Scheduling schedule_queue [OF a] by (simp add: work_left_def)
qed (use t in \<open>auto simp: stopper_step_def work_left_def shutdown_begin_def shutdown_close_def tq.shut split: if_splits\<close>)

text \<open>A waiting section is only ever kept waiting by one that can move.\<close>

lemma worker_can_move:
  assumes heap: "min_heap ops invar items" and s: "control_inv crc s" and lim: "within_limits crc (shared s)"
    and "worker_at s \<noteq> Stopped" and "worker_at s = Popping \<Longrightarrow> immutable_memtable (shared s) \<noteq> None \<or> tq_shutting_down (flush_queue (shared s))"
    and "\<And>through. worker_at s = Reclaiming through \<Longrightarrow> writer_at s = No_Writer"
  shows "\<exists>t. worker_step ops crc s = Some t"
proof -
  have rm: "room 0 (shared s)" using lim by (simp add: within_limits_def)
  show ?thesis
  proof (cases "worker_at s")
    case Popping
    have "tq_queue (flush_queue (shared s)) = slot_list (shared s)" using s Popping by (simp add: control_inv_def)
    then have "tq_wait_and_pop (flush_queue (shared s)) \<noteq> None"
      using assms(5) [OF Popping] by (auto simp: tq.pop_blocks_iff split: option.splits)
    then show ?thesis using Popping by (auto simp: worker_step_io_def split: option.split)
  next
    case (Flushing m)
    then show ?thesis using flush_build_total [OF rm, of crc Snapshot_Ok m]
      by (auto simp: worker_step_io_def split: sum.split)
  next
    case (Clearing m through)
    then show ?thesis by (auto simp: worker_step_io_def split: sum.split prod.split)
  next
    case (Reclaiming through)
    then show ?thesis using assms(6) by (auto simp: worker_step_io_def split: sum.split prod.split)
  next
    case Compacting
    then show ?thesis using run_compaction_total [OF heap rm, of crc Snapshot_Ok]
      by (auto simp: worker_step_io_def split: sum.split)
  qed (use assms(4) in \<open>auto simp: worker_step_io_def\<close>)
qed

lemma writer_can_move:
  assumes "shutting_down (shared s)" and "writer_at s \<noteq> No_Writer"
  shows "\<exists>t. writer_step crc s = Some t"
  using assms by (cases "writer_at s") (auto simp: writer_step_def prepare_for_write_def split: sum.split prod.split)

lemma shutdown_moves:
  assumes heap: "min_heap ops invar items" and s: "control_inv crc s" and lim: "within_limits crc (shared s)"
    and p: "stopper_at s \<noteq> Running" "\<forall>r. stopper_at s \<noteq> Finished r"
  shows "\<exists>t. move ops crc s t"
proof (rule ccontr)
  assume none: "\<not> ?thesis"
  have sd: "shutting_down (shared s)" using s p by (cases "stopper_at s") (auto simp: control_inv_def)
  have w: "writer_at s = No_Writer" using none writer_can_move [OF sd] unfolding move_def by blast
  have bg: "background_error (shared s) = None" using s by (simp add: control_inv_def)
  have worker: "worker_at s = Stopped \<or> worker_at s = Popping \<and> immutable_memtable (shared s) = None
      \<and> \<not> tq_shutting_down (flush_queue (shared s))"
    using none worker_can_move [OF heap s lim] w unfolding move_def by blast
  have slot: "worker_at s = Stopped \<Longrightarrow> immutable_memtable (shared s) = None \<and> tq_shutting_down (flush_queue (shared s))"
    using s by (simp add: control_inv_def)
  have "\<exists>t. stopper_step s = Some t"
  proof (cases "stopper_at s")
    case Scheduling
    have i: "immutable_memtable (shared s) = None" using worker slot by blast
    obtain r e' where "shutdown_schedule (shared s) = Some (r, e')"
      using i bg by (fastforce simp: shutdown_schedule_def Let_def split: option.split prod.split)
    then show ?thesis using Scheduling by (simp add: stopper_step_def)
  next
    case (Joining r)
    have "tq_shutting_down (flush_queue (shared s))" using s Joining by (simp add: control_inv_def)
    then show ?thesis using worker Joining by (simp add: stopper_step_def)
  qed (use p w in \<open>auto simp: stopper_step_def\<close>)
  then show False using none unfolding move_def by blast
qed

text \<open>Runs of moves after \<open>shutdown\<close> was called.\<close>

lemma move_step: "move ops crc s t \<Longrightarrow> thread_step ops crc s (observed crc t)"
  by (auto simp: move_def intro: thread_step.intros)

lemma work_left_observed [simp]: "work_left (observed crc s) = work_left s"
  by (simp add: work_left_def)

lemma move_work:
  assumes "control_inv crc s" and "stopper_at s \<noteq> Running" and "move ops crc s t"
  shows "work_left t < work_left s"
proof -
  have "shutting_down (shared s)" using assms(1,2) by (cases "stopper_at s") (auto simp: control_inv_def)
  then show ?thesis using assms(3) writer_work worker_work stopper_work by (auto simp: move_def)
qed

definition move_run :: "'h heap_ops \<Rightarrow> crc_fn \<Rightarrow> nat \<Rightarrow> (nat \<Rightarrow> threads) \<Rightarrow> bool" where
  "move_run ops crc n run \<longleftrightarrow>
     (\<forall>i<n. \<exists>t. move ops crc (run i) t \<and> run (Suc i) = observed crc t) \<and> (\<forall>i\<le>n. within_limits crc (shared (run i)))"

lemma move_run_work:
  assumes heap: "min_heap ops invar items" and crc: "running_crc crc" and r: "reachable ops crc e (run 0)"
    and p: "stopper_at (run 0) \<noteq> Running" and run: "move_run ops crc n run"
  shows "reachable ops crc e (run n) \<and> stopper_at (run n) \<noteq> Running \<and> work_left (run n) + n \<le> work_left (run 0)"
  using run
proof (induction n)
  case (Suc n)
  have IH: "reachable ops crc e (run n)" "stopper_at (run n) \<noteq> Running" "work_left (run n) + n \<le> work_left (run 0)"
    using Suc by (auto simp: move_run_def)
  obtain t where t: "move ops crc (run n) t" "run (Suc n) = observed crc t" and lim: "within_limits crc (shared (run n))"
    using Suc.prems unfolding move_run_def by (metis Suc_n_not_le_n lessI nat_le_linear)
  have st: "thread_step ops crc (run n) (run (Suc n))" using move_step [OF t(1)] t(2) by simp
  have "control_inv crc (run n)" using reachable_inv [OF heap crc IH(1)] by (simp add: threads_inv_def)
  from move_work [OF this IH(2) t(1)] have "work_left (run (Suc n)) < work_left (run n)" using t(2) by simp
  moreover have "reachable ops crc e (run (Suc n))" by (rule reachable_step [OF IH(1) lim st])
  moreover have "stopper_at (run (Suc n)) \<noteq> Running" using still_running [OF st] IH(2) by blast
  ultimately show ?case using IH(3) by simp
qed (use r p in simp)

end
