(* ===== verification/Engine_System_Calls.thy ===== *)
theory Engine_System_Calls
  imports Engine_Crash Wal_Reclaim Sstable_Publish
begin

text \<open>
  The sections of the worker that write files, with their system calls: the reclamation of the log
  from Wal_Reclaim and the publication of a table from Sstable_Publish. What a failure in them
  leaves is within what a restart can cope with.
\<close>

section \<open>Reclaiming the log\<close>

definition engine_log :: "engine \<Rightarrow> log_store" where
  "engine_log e =
     \<lparr>log_path = path_join (db_path e) (map of_char ''WAL''), descriptor = engine_wal e, at_path = None, temp_log = None\<rparr>"

text \<open>Result, engine, and the bytes of the log that the path names afterwards.\<close>

definition flush_reclaim_calls ::
  "crc_fn \<Rightarrow> reclaim_calls \<Rightarrow> u64 \<Rightarrow> engine \<Rightarrow> ((kerror + unit) \<times> engine \<times> bytes) option" where
  "flush_reclaim_calls crc calls through e =
     map_option (\<lambda>(r, d). (r, e\<lparr>engine_wal := descriptor d\<rparr>, path_bytes d)) (log_reclaim crc calls through (engine_log e))"

lemma engine_log_simps [simp]:
  "descriptor (engine_log e) = engine_wal e" "at_path (engine_log e) = None" "temp_log (engine_log e) = None"
  by (simp_all add: engine_log_def)

text \<open>How the section ends: the engine keeps its log, or has the one that \<open>flush_reclaim\<close> gives it;
  the path names the log of the engine, or the rewritten one.\<close>

lemma flush_reclaim_calls_cases:
  assumes ok: "wal_ok crc (engine_wal e) rs" and run: "flush_reclaim_calls crc calls through e = Some (r, e', f)"
  obtains (kept) err where "r = Inl err" "before_replacing err" "e' = e" "f = wal_file (engine_wal e)"
    | (stale) "r = Inl (Wal_Call_Failed Reopen_Log) \<or> r = Inl (Wal_Call_Failed Seek_Log)" "e' = e"
        "f = wal_file (engine_wal (snd (flush_reclaim crc through e)))"
    | (installed) "r = Inr () \<or> r = Inl (Wal_Call_Failed Sync_Log_Directory)" "e' = snd (flush_reclaim crc through e)"
        "f = wal_file (engine_wal e')"
proof -
  obtain d where d: "log_reclaim crc calls through (engine_log e) = Some (r, d)" "e' = e\<lparr>engine_wal := descriptor d\<rparr>" "f = path_bytes d"
    using run by (auto simp: flush_reclaim_calls_def)
  have rec: "flush_reclaim crc through e = (Inr (), e\<lparr>engine_wal := (engine_wal e)\<lparr>
      wal_file := wal_header @ log_bytes crc (filter (\<lambda>x. through < rec_sequence x) rs),
      wal_pos := length (wal_header @ log_bytes crc (filter (\<lambda>x. through < rec_sequence x) rs))\<rparr>\<rparr>)"
    by (simp add: flush_reclaim_def reclaim_ok [OF ok])
  have "wal_ok crc (descriptor (engine_log e)) rs" using ok by simp
  from this d(1) show ?thesis
  proof (cases rule: log_reclaim_cases)
    case (kept err)
    then show ?thesis using d(2,3) that(1) by (auto simp: path_bytes_def)
  next
    case stale
    then show ?thesis using d(2,3) rec that(2) by (auto simp: path_bytes_def)
  next
    case installed
    then show ?thesis using d(2,3) rec that(3) by (auto simp: path_bytes_def)
  qed
qed

text \<open>When every call succeeds this is the section of Engine.\<close>

lemma flush_reclaim_calls_ok:
  assumes "wal_ok crc (engine_wal e) rs" and "flush_reclaim_calls crc calls through e = Some (Inr (), e', f)"
  shows "flush_reclaim crc through e = (Inr (), e') \<and> f = wal_file (engine_wal e')"
  using assms reclaim_ok [OF assms(1), of through]
  by (cases rule: flush_reclaim_calls_cases) (auto simp: flush_reclaim_def)

section \<open>Writing a table\<close>

text \<open>\<open>flushMemtable\<close> up to the published table.\<close>

definition flush_publish :: "crc_fn \<Rightarrow> table_calls \<Rightarrow> memtable \<Rightarrow> engine \<Rightarrow> ((kerror + unit) \<times> engine) option" where
  "flush_publish crc calls m e =
     (if mt_state m \<noteq> MT_IMMUTABLE then Some (Inl Engine_Mutable_Flush, e)
      else if entry_count m = 0 then Some (Inl Engine_Empty_Flush, e)
      else
        Option.bind (allocate_sstable_path 0 e) (\<lambda>(output_path, e1).
        case sstable_build crc sstable_block_size bloom_bits_per_key (memtable_iterate m) of
          Inl err \<Rightarrow> Some (Inl err, e1)
        | Inr f \<Rightarrow>
            map_option (\<lambda>(r, fs). (r, e1\<lparr>engine_files := fs\<rparr>)) (sstable_publish calls output_path f (engine_files e1))))"

text \<open>\<open>maybeCompact\<close> from the plan up to the published table, if the merge has an output.\<close>

definition compaction_publish ::
  "'h heap_ops \<Rightarrow> crc_fn \<Rightarrow> table_calls \<Rightarrow> engine \<Rightarrow> ((kerror + unit) \<times> engine) option" where
  "compaction_publish ops crc calls e =
     (case pick_compaction (l0_trigger e) (live_files (engine_manifest e)) of
        Inl err \<Rightarrow> Some (Inl err, e)
      | Inr None \<Rightarrow> Some (Inr (), e)
      | Inr (Some plan) \<Rightarrow>
          Option.bind (allocate_sstable_path (output_level plan) e) (\<lambda>(output_path, e1).
          Option.bind (compact ops crc (engine_files e1) (map md_path (input_files plan)) output_path
              sstable_block_size bloom_bits_per_key (can_drop_tombstones plan)) (\<lambda>res.
          case res of
            Inl err \<Rightarrow> Some (Inl err, e1)
          | Inr (result, fs) \<Rightarrow>
              if result_output_files result = [] then Some (Inr (), e1)
              else
                map_option (\<lambda>(r, fs'). (r, e1\<lparr>engine_files := fs'\<rparr>))
                  (sstable_publish calls output_path (the (fs output_path)) (engine_files e1)))))"

text \<open>The temporary file of a table is no table and not the manifest.\<close>

lemma path_join_prefix: "\<exists>directory. path_join p n = directory @ n \<and> (directory = [] \<or> last directory = slash) \<and> (\<forall>n'. path_join p n' = directory @ n')"
  by (cases "p = [] \<or> last p = slash") (auto simp: path_join_def intro: exI [of _ p] exI [of _ "p @ [slash]"])

lemma temp_table_name:
  assumes "table_name n"
  shows "\<exists>n'. temp_table_path (path_join p n) = path_join p n' \<and> \<not> table_name n' \<and> n' \<noteq> map of_char ''MANIFEST''"
proof -
  obtain directory where d: "path_join p n = directory @ n" "directory = [] \<or> last directory = slash" "\<forall>n'. path_join p n' = directory @ n'"
    using path_join_prefix by blast
  let ?n = "file_stem n @ map of_char ''.tmp''"
  have "temp_table_path (path_join p n) = path_join p ?n"
    using temp_table_path_name [OF _ d(2), of n] assms d(1,3) by (simp add: table_name_def)
  moreover have "last ?n = (0x70 :: byte)" by simp
  then have "\<not> table_name ?n" "?n \<noteq> map of_char ''MANIFEST''"
    by (auto simp: table_name_def simp del: append_assoc)
  ultimately show ?thesis by blast
qed

lemma publish_leftovers:
  assumes new: "engine_files e p = None" "p = path_join (db_path e) n" "table_name n"
    and run: "sstable_publish calls p f (engine_files e) = Some (r, fs)"
  shows "leftovers e fs"
proof -
  obtain n' where n': "temp_table_path p = path_join (db_path e) n'" "\<not> table_name n'" "n' \<noteq> map of_char ''MANIFEST''"
    using temp_table_name [OF new(3)] new(2) by blast
  have tmp: "temp_table_path p \<noteq> manifest_file (db_path e)" "table_name x \<Longrightarrow> path_join (db_path e) x \<noteq> temp_table_path p" for x
    using n' by auto
  have p: "p \<noteq> manifest_file (db_path e)" "engine_files e (path_join (db_path e) x) \<noteq> None \<Longrightarrow> path_join (db_path e) x \<noteq> p" for x
    using new table_name_not_manifest(1) [OF new(3)] by auto
  from run show ?thesis
    by (cases rule: sstable_publish_cases) (use tmp p in \<open>auto simp: leftovers_def tables_kept_def simp del: list.map\<close>)
qed

text \<open>A section that fails changes nothing but the next table number and such files.\<close>

lemma flush_publish_left:
  assumes "flush_publish crc calls m e = Some (r, e')"
  shows "\<exists>j fs. e' = e\<lparr>next_sstable_id := j, engine_files := fs\<rparr> \<and> leftovers e fs"
proof -
  have same: "\<exists>j' fs. e\<lparr>next_sstable_id := j\<rparr> = e\<lparr>next_sstable_id := j', engine_files := fs\<rparr> \<and> leftovers e fs" for j
    by (intro exI [of _ j] exI [of _ "engine_files e"]) (simp add: leftovers_def)
  have "e = e\<lparr>next_sstable_id := next_sstable_id e\<rparr>" by simp
  note same' = same [of "next_sstable_id e", folded this]
  show ?thesis
    using assms same same' publish_leftovers [of e]
    by (fastforce simp: flush_publish_def dest!: allocate_SomeD split: if_splits bind_splits sum.splits)
qed

lemma compaction_publish_left:
  assumes "compaction_publish ops crc calls e = Some (r, e')"
  shows "\<exists>j fs. e' = e\<lparr>next_sstable_id := j, engine_files := fs\<rparr> \<and> leftovers e fs"
proof -
  have same: "\<exists>j' fs. e\<lparr>next_sstable_id := j\<rparr> = e\<lparr>next_sstable_id := j', engine_files := fs\<rparr> \<and> leftovers e fs" for j
    by (intro exI [of _ j] exI [of _ "engine_files e"]) (simp add: leftovers_def)
  have "e = e\<lparr>next_sstable_id := next_sstable_id e\<rparr>" by simp
  note same' = same [of "next_sstable_id e", folded this]
  show ?thesis
    using assms same same' publish_leftovers [of e]
    by (fastforce simp: compaction_publish_def dest!: allocate_SomeD split: if_splits bind_splits sum.splits option.splits prod.splits)
qed

end
