(* ===== verification/Engine_Faults.thy ===== *)
theory Engine_Faults
  imports Engine_Concurrency Engine_System_Calls
begin

text \<open>
  The interleaved engine when a task of the worker fails: in a write of the manifest, in writing
  or publishing a table, or in reclaiming the log. The failing task ends the worker; writers,
  readers and the shutdown go on. Two engines that never failed accompany such a state: one that
  reads the files as they were before the failing write, which is what the readers see, and one
  whose manifest is what is on disk now, which is what a restart sees.
\<close>

section \<open>Runs with a fault\<close>

text \<open>Failures of the calls around a table file, and of the calls of a reclamation after which the
  path names the log of the engine.\<close>

definition table_fault_step :: "'h heap_ops \<Rightarrow> crc_fn \<Rightarrow> table_calls \<Rightarrow> threads \<Rightarrow> threads option" where
  "table_fault_step ops crc calls s =
     (case worker_at s of
        Flushing m \<Rightarrow>
          (case flush_publish crc calls m (shared s) of
             Some (Inl err, e) \<Rightarrow> Some (worker_fails err e s)
           | _ \<Rightarrow> None)
      | Compacting \<Rightarrow>
          (case compaction_publish ops crc calls (shared s) of
             Some (Inl err, e) \<Rightarrow> Some (worker_fails err e s)
           | _ \<Rightarrow> None)
      | _ \<Rightarrow> None)"

definition log_fault_step :: "crc_fn \<Rightarrow> reclaim_calls \<Rightarrow> threads \<Rightarrow> threads option" where
  "log_fault_step crc calls s =
     (case worker_at s of
        Reclaiming through \<Rightarrow>
          if writer_at s \<noteq> No_Writer then None
          else (case flush_reclaim_calls crc calls through (shared s) of
                  Some (Inl err, e, f) \<Rightarrow>
                    if f = wal_file (engine_wal e) then Some (worker_fails err e s) else None
                | _ \<Rightarrow> None)
      | _ \<Rightarrow> None)"

text \<open>A step of the worker in which a system call fails, and the runs that go on from it.\<close>

definition worker_fault :: "'h heap_ops \<Rightarrow> crc_fn \<Rightarrow> threads \<Rightarrow> threads \<Rightarrow> bool" where
  "worker_fault ops crc s t \<longleftrightarrow>
     (\<exists>io. within_limits crc (shared s) \<and> worker_step_io ops crc io s = Some t \<and> background_error (shared t) \<noteq> None)
     \<or> (\<exists>calls. table_fault_step ops crc calls s = Some t) \<or> (\<exists>calls. log_fault_step crc calls s = Some t)"

inductive faulty :: "'h heap_ops \<Rightarrow> crc_fn \<Rightarrow> engine \<Rightarrow> threads \<Rightarrow> bool"
  for ops :: "'h heap_ops" and crc :: crc_fn and e :: engine where
  fault: "reachable ops crc e s \<Longrightarrow> worker_fault ops crc s t \<Longrightarrow> faulty ops crc e (observed crc t)"
| after_fault: "faulty ops crc e s \<Longrightarrow> thread_step ops crc s t \<Longrightarrow> faulty ops crc e t"

section \<open>Other files under the same engine\<close>

text \<open>The same state over other files.\<close>

definition onto :: "file_system \<Rightarrow> threads \<Rightarrow> threads" where
  "onto fs s = s\<lparr>shared := (shared s)\<lparr>engine_files := fs\<rparr>\<rparr>"

lemma onto_simps [simp]:
  "shared (onto fs s) = (shared s)\<lparr>engine_files := fs\<rparr>" "writer_at (onto fs s) = writer_at s"
  "worker_at (onto fs s) = worker_at s" "stopper_at (onto fs s) = stopper_at s" "reader_at (onto fs s) = reader_at s"
  "past (onto fs s) = past s"
  by (simp_all add: onto_def)

lemma kept_versions:
  assumes "engine_inv crc pend e" and "tables_kept e fs"
  shows "disk_view crc (e\<lparr>engine_files := fs\<rparr>) = disk_view crc e"
proof -
  have "\<forall>m\<in>set (live e). file_ok crc (db_path e) (engine_files e) m"
    using engine_invD(2) [OF assms(1)] by (simp add: tables_ok_def)
  then have "fs (md_path m) = engine_files e (md_path m)" if "m \<in> set (live e)" for m
    using tables_kept_live [OF assms(2)] that by blast
  then have "disk_versions crc fs (live e) k = disk_versions crc (engine_files e) (live e) k" for k
    by (intro disk_versions_cong)
  then show ?thesis by (simp add: disk_view_def fun_eq_iff)
qed

lemma kept_map:
  assumes "engine_inv crc pend e" and "tables_kept e fs"
  shows "logical_map crc (e\<lparr>engine_files := fs\<rparr>) = logical_map crc e"
  using kept_versions [OF assms] by (intro logical_map_view) (simp add: engine_view_def fun_eq_iff)

lemma kept_back:
  assumes "engine_inv crc pend (e\<lparr>engine_files := fs\<rparr>)" and "tables_kept (e\<lparr>engine_files := fs\<rparr>) (engine_files e)"
  shows "logical_map crc (e\<lparr>engine_files := fs\<rparr>) = logical_map crc e"
  using kept_map [OF assms] by simp

lemma onto_observed:
  assumes "engine_inv crc pend ((shared u)\<lparr>engine_files := fs\<rparr>)"
    and "tables_kept ((shared u)\<lparr>engine_files := fs\<rparr>) (engine_files (shared u))"
  shows "onto fs (observed crc u) = observed crc (onto fs u)"
  using kept_back [OF assms] by (simp add: onto_def observed_def)

section \<open>The invariant after a fault\<close>

definition stopper_failed :: "stopper \<Rightarrow> kerror \<Rightarrow> engine \<Rightarrow> bool" where
  "stopper_failed p err e \<longleftrightarrow>
     (case p of
        Running \<Rightarrow> \<not> shutting_down e
      | Closing r \<Rightarrow> shutting_down e \<and> r = Inr ()
      | Joining r \<Rightarrow> shutting_down e \<and> r = Inr ()
      | Finished r \<Rightarrow> shutting_down e \<and> r = Inl err
      | _ \<Rightarrow> shutting_down e)"

definition reads_on :: "crc_fn \<Rightarrow> file_system \<Rightarrow> threads \<Rightarrow> bool" where
  "reads_on crc fs s \<longleftrightarrow>
     tables_kept ((shared s)\<lparr>engine_files := fs\<rparr>) (engine_files (shared s))
     \<and> engine_inv crc (pending_write (writer_at s)) ((shared s)\<lparr>engine_files := fs\<rparr>)
     \<and> readers_inv crc (onto fs s)"

definition failed_inv :: "crc_fn \<Rightarrow> kerror \<Rightarrow> threads \<Rightarrow> bool" where
  "failed_inv crc err s \<longleftrightarrow>
     worker_at s = Stopped \<and> background_error (shared s) = Some err \<and> tq_shutting_down (flush_queue (shared s))
     \<and> (\<exists>fs. reads_on crc fs s) \<and> durable_as crc (pending_write (writer_at s)) (shared s) (shared s)
     \<and> stopper_failed (stopper_at s) err (shared s) \<and> writer_ok (writer_at s) (stopper_at s) (shared s)"

lemma durable_same:
  assumes "durable_as crc pend e0 e" and "engine_files e' = engine_files e" "engine_wal e' = engine_wal e" "db_path e' = db_path e"
    "active_memtable e' = active_memtable e" and "logical_map crc e' = logical_map crc e0"
  shows "durable_as crc pend e' e'"
proof -
  obtain s where "engine_inv crc pend s" "engine_files s = engine_files e" "engine_wal s = engine_wal e" "db_path s = db_path e"
    "active_memtable s = active_memtable e" "logical_map crc s = logical_map crc e0"
    using assms(1) by (auto simp: durable_as_def)
  then show ?thesis using assms(2-6) by (intro durable_asI [of _ _ s] tables_kept_refl) simp_all
qed

lemma reads_on_other:
  assumes s: "reads_on crc fs s"
    and same: "engine_files (shared u) = engine_files (shared s)" "db_path (shared u) = db_path (shared s)" "past u = past s"
      "reader_at u = reader_at s"
    and inv: "engine_inv crc (pending_write (writer_at u)) ((shared u)\<lparr>engine_files := fs\<rparr>)"
    and mv: "moves_to crc ((shared s)\<lparr>engine_files := fs\<rparr>) ((shared u)\<lparr>engine_files := fs\<rparr>)"
  shows "reads_on crc fs (observed crc u)"
proof -
  have kept: "tables_kept ((shared u)\<lparr>engine_files := fs\<rparr>) (engine_files (shared u))"
    using s same by (simp add: reads_on_def tables_kept_def)
  have "readers_inv crc (observed crc (onto fs u))"
    using s same inv mv by (intro readers_inv_other [of crc "onto fs s"]) (simp_all add: reads_on_def)
  then show ?thesis using inv kept onto_observed [OF inv kept] by (simp add: reads_on_def)
qed

section \<open>The fault\<close>

lemma flush_build_frame:
  "flush_build crc io m e = Some (r, e') \<Longrightarrow>
   background_error e' = background_error e
   \<and> (\<forall>err. r = Inl err \<longrightarrow> e' = e\<lparr>next_sstable_id := next_sstable_id e', engine_files := engine_files e'\<rparr>)"
  by (auto simp: flush_build_def Let_def dest!: allocate_SomeD split: if_splits bind_splits sum.splits prod.splits)

lemma run_compaction_frame:
  "run_compaction ops crc io e = Some (r, e') \<Longrightarrow>
   background_error e' = background_error e
   \<and> (\<forall>err. r = Inl err \<longrightarrow> e' = e\<lparr>next_sstable_id := next_sstable_id e', engine_files := engine_files e'\<rparr>)"
  by (auto simp: run_compaction_def Let_def dest!: allocate_SomeD
      split: if_splits bind_splits sum.splits prod.splits option.splits)

lemma worker_fault_cases:
  assumes heap: "min_heap ops invar items" and crc: "running_crc crc" and s: "control_inv crc s"
    and lim: "within_limits crc (shared s)" and t: "worker_step_io ops crc io s = Some t"
    and bg: "background_error (shared t) \<noteq> None"
  shows "\<exists>err e'. t = worker_fails err e' s
    \<and> e' = (shared s)\<lparr>next_sstable_id := next_sstable_id e', engine_files := engine_files e'\<rparr>
    \<and> durable_as crc (pending_write (writer_at s)) (shared s) e'"
proof -
  let ?e = "shared s"
  have inv: "engine_inv crc (pending_write (writer_at s)) ?e" and none: "background_error ?e = None"
    and trig: "l0_trigger ?e \<noteq> 0" and slot: "slot_ok crc (worker_at s) ?e"
    using s by (simp_all add: control_inv_def)
  have fine: False if "worker_step ops crc s = Some t"
    using worker_step_ok [OF heap crc s lim that] bg by (simp add: step_ok_def control_inv_def)
  show ?thesis
  proof (cases "worker_at s")
    case (Flushing m)
    have i: "immutable_memtable ?e = Some m" "all_from (memtable_lookup m) (covered ?e)"
      using slot Flushing by (auto simp: uncommitted_def)
    have fits: "fits_table (mtable m)" using lim i(1) by (simp add: within_limits_def)
    obtain r e' where p: "flush_build crc io m ?e = Some (r, e')"
      using t Flushing by (auto simp: worker_step_io_def split: option.splits)
    note fr = flush_build_frame [OF p]
    obtain err where "r = Inl err" "t = worker_fails err e' s"
      using t Flushing p bg fr none by (auto simp: worker_step_io_def split: sum.splits)
    then show ?thesis using fr flush_crash [OF crc inv i fits p] by blast
  next
    case Compacting
    have i: "all_from (mem_of (immutable_memtable ?e)) (covered ?e)" using slot Compacting by (simp add: uncommitted_def)
    have small: "table_volume crc ?e < 2 ^ 28" using lim by (simp add: within_limits_def)
    obtain r e' where p: "run_compaction ops crc io ?e = Some (r, e')"
      using t Compacting by (auto simp: worker_step_io_def split: option.splits)
    note fr = run_compaction_frame [OF p]
    obtain err where "r = Inl err" "t = worker_fails err e' s"
      using t Compacting p bg fr none by (auto simp: worker_step_io_def split: sum.splits)
    then show ?thesis using fr compaction_crash [OF heap crc inv trig small i p] by blast
  qed (use t fine in \<open>simp_all add: worker_step_io_def\<close>)
qed

text \<open>A failure that has changed files, the next table number, or the log to one that stands for the
  same writes.\<close>

lemma failure_inv:
  assumes s: "threads_inv crc s" and live_worker: "worker_at s \<noteq> Stopped" and t: "t = worker_fails err e' s"
    and base: "engine_inv crc (pending_write (writer_at s)) ((shared s)\<lparr>engine_wal := w\<rparr>)"
      "engine_view crc ((shared s)\<lparr>engine_wal := w\<rparr>) = engine_view crc (shared s)"
    and e': "e' = (shared s)\<lparr>engine_wal := w, next_sstable_id := j, engine_files := fs'\<rparr>"
    and dur: "durable_as crc (pending_write (writer_at s)) (shared s) e'"
  shows "failed_inv crc err (observed crc t) \<and> logical_map crc (shared t) = logical_map crc (shared s)
    \<and> db_path (shared t) = db_path (shared s) \<and> writer_at t = writer_at s"
proof -
  let ?e = "shared s" and ?x = "(shared s)\<lparr>engine_wal := w\<rparr>"
  have rd: "readers_inv crc s" and none: "background_error ?e = None"
    and st: "stopper_ok (stopper_at s) (worker_at s) ?e" and wr: "writer_ok (writer_at s) (stopper_at s) ?e"
    using s by (simp_all add: threads_inv_def control_inv_def)
  have after: "shared t = ?x\<lparr>next_sstable_id := j, engine_files := fs', background_error := Some err,
      flush_queue := tq_shutdown (flush_queue ?e)\<rparr>"
    using none by (simp add: t e' worker_fails_def worker_failed_def)
  have w: "worker_at t = Stopped" "writer_at t = writer_at s" "stopper_at t = stopper_at s" "reader_at t = reader_at s" "past t = past s"
    by (simp_all add: t worker_fails_def)
  have kept: "tables_kept ?e fs'" using dur by (simp add: durable_as_def e')
  let ?fs = "engine_files ?e" and ?r = "(shared t)\<lparr>engine_files := engine_files ?e\<rparr>"
  note c = engine_inv_control [OF base(1), of ?r]
  have inv': "engine_inv crc (pending_write (writer_at t)) ?r" using c(1) by (simp add: after w)
  have mv: "moves_to crc ?e ?r" by (rule moves_to_same) (simp_all add: after)
  have kept': "tables_kept ?r (engine_files (shared t))" using kept by (simp add: tables_kept_def after)
  have "readers_inv crc (observed crc (onto ?fs t))"
    using readers_inv_other [OF rd _ , of _ "onto ?fs t"] inv' mv w by simp
  then have reads: "reads_on crc ?fs (observed crc t)"
    using inv' kept' onto_observed [OF inv' kept'] by (simp add: reads_on_def)
  have "engine_view crc ?r = engine_view crc ?e" using c(2) base(2) by (simp add: after)
  then have map: "logical_map crc (shared t) = logical_map crc ?e"
    using kept_back [OF inv' kept'] logical_map_view [of crc ?r ?e] by simp
  have "durable_as crc (pending_write (writer_at s)) (shared t) (shared t)"
    by (rule durable_same [OF dur]) (use map in \<open>simp_all add: after e'\<close>)
  moreover have "stopper_failed (stopper_at t) err (shared t)"
    using st live_worker by (auto simp: stopper_failed_def w after split: stopper.split)
  moreover have "writer_ok (writer_at t) (stopper_at t) (shared t)"
    using wr by (cases "writer_at s") (auto simp: w after)
  ultimately have "failed_inv crc err (observed crc t)"
    using reads w by (auto simp: failed_inv_def after tq.shut)
  then show ?thesis using map w by (auto simp: after)
qed

text \<open>The three kinds of faults.\<close>

definition fault_result :: "crc_fn \<Rightarrow> threads \<Rightarrow> threads \<Rightarrow> bool" where
  "fault_result crc s t \<longleftrightarrow>
     (\<exists>err. failed_inv crc err (observed crc t)) \<and> logical_map crc (shared t) = logical_map crc (shared s)
     \<and> db_path (shared t) = db_path (shared s) \<and> writer_at t = writer_at s"

lemma manifest_fault_inv:
  assumes heap: "min_heap ops invar items" and crc: "running_crc crc" and s: "threads_inv crc s"
    and lim: "within_limits crc (shared s)" and t: "worker_step_io ops crc io s = Some t"
    and bg: "background_error (shared t) \<noteq> None"
  shows "fault_result crc s t"
proof -
  have ctl: "control_inv crc s" using s by (simp add: threads_inv_def)
  obtain err e' where f: "t = worker_fails err e' s"
    "e' = (shared s)\<lparr>next_sstable_id := next_sstable_id e', engine_files := engine_files e'\<rparr>"
    "durable_as crc (pending_write (writer_at s)) (shared s) e'"
    using worker_fault_cases [OF heap crc ctl lim t bg] by blast
  have "worker_at s \<noteq> Stopped" using t by (auto simp: worker_step_io_def)
  from failure_inv [OF s this f(1), where w = "engine_wal (shared s)" and j = "next_sstable_id e'" and fs' = "engine_files e'"] show ?thesis
    using f(2,3) ctl by (auto simp: fault_result_def control_inv_def)
qed

lemma table_fault_inv:
  assumes s: "threads_inv crc s" and t: "table_fault_step ops crc calls s = Some t"
  shows "fault_result crc s t"
proof -
  have inv: "engine_inv crc (pending_write (writer_at s)) (shared s)" using s by (simp add: threads_inv_def control_inv_def)
  obtain err e' j fs where f: "t = worker_fails err e' s" "e' = (shared s)\<lparr>next_sstable_id := j, engine_files := fs\<rparr>" "leftovers (shared s) fs"
  proof (cases "worker_at s")
    case (Flushing m)
    then obtain err e' where "flush_publish crc calls m (shared s) = Some (Inl err, e')" "t = worker_fails err e' s"
      using t by (auto simp: table_fault_step_def split: option.splits prod.splits sum.splits)
    then show ?thesis using flush_publish_left that by blast
  next
    case Compacting
    then obtain err e' where "compaction_publish ops crc calls (shared s) = Some (Inl err, e')" "t = worker_fails err e' s"
      using t by (auto simp: table_fault_step_def split: option.splits prod.splits sum.splits)
    then show ?thesis using compaction_publish_left that by blast
  qed (use t in \<open>simp_all add: table_fault_step_def\<close>)
  have live_worker: "worker_at s \<noteq> Stopped" using t by (auto simp: table_fault_step_def)
  have "durable_as crc (pending_write (writer_at s)) (shared s) e'"
    by (rule durable_leftovers [OF inv]) (simp_all add: f(2,3))
  with failure_inv [OF s live_worker f(1), where w = "engine_wal (shared s)" and j = j and fs' = fs] inv f(2) show ?thesis by (auto simp: fault_result_def)
qed

lemma log_fault_inv:
  assumes s: "threads_inv crc s" and t: "log_fault_step crc calls s = Some t"
  shows "fault_result crc s t"
proof -
  have ctl: "control_inv crc s" using s by (simp add: threads_inv_def)
  obtain through err e' f where f: "worker_at s = Reclaiming through" "writer_at s = No_Writer" "t = worker_fails err e' s"
    "flush_reclaim_calls crc calls through (shared s) = Some (Inl err, e', f)" "f = wal_file (engine_wal e')"
    using t by (auto simp: log_fault_step_def split: worker.splits option.splits prod.splits sum.splits if_splits)
  have inv: "engine_inv crc None (shared s)" and through: "unat through < covered (shared s)"
    using ctl f(1,2) by (simp_all add: control_inv_def)
  obtain rs where rs: "wal_ok crc (engine_wal (shared s)) rs" using engine_invD(5) [OF inv] by (auto simp: log_ok_def)
  obtain w where w: "flush_reclaim crc through (shared s) = (Inr (), (shared s)\<lparr>engine_wal := w\<rparr>)"
    "engine_inv crc None ((shared s)\<lparr>engine_wal := w\<rparr>)" "engine_view crc ((shared s)\<lparr>engine_wal := w\<rparr>) = engine_view crc (shared s)"
    using flush_reclaim_ok [OF inv through] by blast
  have e': "e' = shared s \<or> e' = (shared s)\<lparr>engine_wal := w\<rparr>"
    using rs f(4) by (cases rule: flush_reclaim_calls_cases) (auto simp: w(1))
  then obtain w' where w': "e' = (shared s)\<lparr>engine_wal := w'\<rparr>" "engine_inv crc None ((shared s)\<lparr>engine_wal := w'\<rparr>)"
    "engine_view crc ((shared s)\<lparr>engine_wal := w'\<rparr>) = engine_view crc (shared s)"
    using w(2,3) inv by (elim disjE) (auto intro: that [of "engine_wal (shared s)"])
  have "durable_as crc None (shared s) e'"
    by (rule durable_asI [OF w'(2)]) (use logical_map_view [OF w'(3)] in \<open>simp_all add: w'(1)\<close>)
  with failure_inv [OF s _ f(3), where w = w' and j = "next_sstable_id (shared s)" and fs' = "engine_files (shared s)"] w' f(1,2) show ?thesis
    by (auto simp: fault_result_def)
qed

section \<open>Steps after the fault\<close>

lemma failed_other:
  assumes s: "failed_inv crc err s"
    and same: "engine_files (shared u) = engine_files (shared s)" "db_path (shared u) = db_path (shared s)" "past u = past s"
      "reader_at u = reader_at s" "worker_at u = Stopped" "background_error (shared u) = Some err"
      "tq_shutting_down (flush_queue (shared u))"
    and inv: "\<And>fs. engine_inv crc (pending_write (writer_at s)) ((shared s)\<lparr>engine_files := fs\<rparr>) \<Longrightarrow>
        engine_inv crc (pending_write (writer_at u)) ((shared u)\<lparr>engine_files := fs\<rparr>)
        \<and> moves_to crc ((shared s)\<lparr>engine_files := fs\<rparr>) ((shared u)\<lparr>engine_files := fs\<rparr>)"
    and dur: "durable_as crc (pending_write (writer_at u)) (shared u) (shared u)"
    and st: "stopper_failed (stopper_at u) err (shared u)" and wr: "writer_ok (writer_at u) (stopper_at u) (shared u)"
  shows "failed_inv crc err (observed crc u)"
proof -
  obtain fs where fs: "reads_on crc fs s" using s by (auto simp: failed_inv_def)
  then have "engine_inv crc (pending_write (writer_at s)) ((shared s)\<lparr>engine_files := fs\<rparr>)" by (simp add: reads_on_def)
  note iu = inv [OF this]
  have "reads_on crc fs (observed crc u)"
    by (rule reads_on_other [OF fs same(1-4)]) (use iu in simp_all)
  then show ?thesis using same dur st wr by (auto simp: failed_inv_def)
qed

text \<open>Steps that touch neither log nor memory.\<close>

lemma failed_control:
  assumes s: "failed_inv crc err s"
    and e': "shared u = (shared s)\<lparr>shutting_down := sd, flush_queue := q\<rparr>" "shutting_down (shared s) \<Longrightarrow> sd" "tq_shutting_down q"
    and same: "past u = past s" "reader_at u = reader_at s" "worker_at u = Stopped"
      "pending_write (writer_at u) = pending_write (writer_at s)"
    and st: "stopper_failed (stopper_at u) err (shared u)" and wr: "writer_ok (writer_at u) (stopper_at u) (shared u)"
  shows "failed_inv crc err (observed crc u) \<and> logical_map crc (shared u) = logical_map crc (shared s)"
proof -
  have map: "logical_map crc (shared u) = logical_map crc (shared s)"
    by (intro logical_map_view) (simp add: e'(1) engine_view_def disk_view_def fun_eq_iff)
  have inv: "engine_inv crc (pending_write (writer_at u)) ((shared u)\<lparr>engine_files := fs\<rparr>)
      \<and> moves_to crc ((shared s)\<lparr>engine_files := fs\<rparr>) ((shared u)\<lparr>engine_files := fs\<rparr>)"
    if "engine_inv crc (pending_write (writer_at s)) ((shared s)\<lparr>engine_files := fs\<rparr>)" for fs
    using engine_inv_control(1) [OF that, of "(shared u)\<lparr>engine_files := fs\<rparr>"] e'(2)
      moves_to_same [of "(shared u)\<lparr>engine_files := fs\<rparr>" "(shared s)\<lparr>engine_files := fs\<rparr>" crc] same(4)
    by (simp add: e'(1))
  have "durable_as crc (pending_write (writer_at s)) (shared s) (shared s)" using s by (simp add: failed_inv_def)
  from durable_same [OF this, of "shared u"] have "durable_as crc (pending_write (writer_at u)) (shared u) (shared u)"
    using map same(4) by (simp add: e'(1))
  moreover have "background_error (shared s) = Some err" using s by (simp add: failed_inv_def)
  ultimately show ?thesis
    using map inv st wr same e'(3) by (intro conjI failed_other [OF s]) (simp_all add: e'(1))
qed

lemma active_onto: "x\<lparr>active_memtable := m, engine_files := fs\<rparr> = x\<lparr>engine_files := fs, active_memtable := m\<rparr>"
  by simp

lemma failed_append:
  assumes s: "failed_inv crc err s" and w: "writer_at s = Appending op key val" and t: "writer_step crc s = Some t"
  shows "failed_inv crc err (observed crc t) \<and> logical_map crc (shared t) = logical_map crc (shared s)
    \<and> db_path (shared t) = db_path (shared s)"
proof -
  let ?e = "shared s"
  obtain r wal where wr: "write_record crc Io_Complete op key (stored_value op val) (engine_wal ?e) = (r, wal)" by fastforce
  have form: "append_wal crc Io_Complete op key val x = (r, x\<lparr>engine_wal := wal\<rparr>)" if "engine_wal x = engine_wal ?e" for x
    using wr that by (simp add: append_wal_write)
  note app = form [OF refl]
  obtain fs where fs: "reads_on crc fs s" using s by (auto simp: failed_inv_def)
  have inv: "engine_inv crc None (?e\<lparr>engine_files := fs\<rparr>)" using fs w by (simp add: reads_on_def)
  have pend: "pending_write (writer_at s) = None" using w by simp
  have wo: "active_memtable ?e \<noteq> None" "stopper_at s = Running \<or> stopper_at s = At_Barrier"
    using s w by (auto simp: failed_inv_def)
  show ?thesis
  proof (cases r)
    case (Inl err')
    have "(?e\<lparr>engine_files := fs\<rparr>)\<lparr>engine_wal := wal\<rparr> = ?e\<lparr>engine_files := fs\<rparr>"
      using append_wal_inv [OF inv form] Inl by simp
    then have "engine_wal ((?e\<lparr>engine_files := fs\<rparr>)\<lparr>engine_wal := wal\<rparr>) = engine_wal (?e\<lparr>engine_files := fs\<rparr>)" by (rule arg_cong)
    then have same: "?e\<lparr>engine_wal := wal\<rparr> = ?e" by simp
    have "t = s\<lparr>writer_at := No_Writer\<rparr>" using t w app Inl same by (simp add: writer_step_def)
    then show ?thesis
      using failed_control [OF s, where u = t and sd = "shutting_down ?e" and q = "flush_queue ?e"] s pend by (simp add: failed_inv_def)
  next
    case (Inr sequence)
    let ?r = "new_record op key (stored_value op val) sequence"
    have t': "t = s\<lparr>shared := ?e\<lparr>engine_wal := wal\<rparr>, writer_at := Inserting op key val sequence\<rparr>"
      using t w app Inr by (simp add: writer_step_def)
    have step: "engine_inv crc (Some ?r) (x\<lparr>engine_wal := wal\<rparr>) \<and> engine_view crc (x\<lparr>engine_wal := wal\<rparr>) = engine_view crc x"
      if "engine_inv crc None x" "engine_wal x = engine_wal ?e" for x
      using append_wal_inv [OF that(1) form [OF that(2)]] unfolding Inr sum.case by blast
    have map: "logical_map crc (x\<lparr>engine_wal := wal\<rparr>) = logical_map crc x" for x
      by (intro logical_map_view) (simp add: engine_view_def disk_view_def fun_eq_iff)
    obtain sh where sh: "engine_inv crc None sh" "engine_files sh = engine_files ?e" "engine_wal sh = engine_wal ?e"
      "db_path sh = db_path ?e" "active_memtable sh = active_memtable ?e" "logical_map crc sh = logical_map crc ?e"
      using s pend by (auto simp: failed_inv_def durable_as_def)
    have dur: "durable_as crc (Some ?r) (shared t) (shared t)"
      using sh step [OF sh(1,3)] map by (intro durable_asI [of _ _ "sh\<lparr>engine_wal := wal\<rparr>"]) (simp_all add: t' tables_kept_def)
    have "failed_inv crc err (observed crc t)"
    proof (rule failed_other [OF s])
      fix fs
      assume "engine_inv crc (pending_write (writer_at s)) (?e\<lparr>engine_files := fs\<rparr>)"
      then have "engine_inv crc (Some ?r) ((?e\<lparr>engine_files := fs\<rparr>)\<lparr>engine_wal := wal\<rparr>)" using step pend by simp
      moreover have "(?e\<lparr>engine_files := fs\<rparr>)\<lparr>engine_wal := wal\<rparr> = (shared t)\<lparr>engine_files := fs\<rparr>"
        "Some ?r = pending_write (writer_at t)" by (simp_all add: t')
      ultimately have "engine_inv crc (pending_write (writer_at t)) ((shared t)\<lparr>engine_files := fs\<rparr>)" by (simp only:)
      moreover have "moves_to crc (?e\<lparr>engine_files := fs\<rparr>) ((shared t)\<lparr>engine_files := fs\<rparr>)"
        by (rule moves_to_same) (simp_all add: t')
      ultimately show "engine_inv crc (pending_write (writer_at t)) ((shared t)\<lparr>engine_files := fs\<rparr>)
          \<and> moves_to crc (?e\<lparr>engine_files := fs\<rparr>) ((shared t)\<lparr>engine_files := fs\<rparr>)" by blast
    qed (use s dur wo in \<open>auto simp: t' failed_inv_def stopper_failed_def split: stopper.split\<close>)
    then show ?thesis using map by (simp add: t')
  qed
qed

lemma failed_insert:
  assumes s: "failed_inv crc err s" and w: "writer_at s = Inserting op key val sequence" and t: "writer_step crc s = Some t"
  shows "failed_inv crc err (observed crc t) \<and> logical_map crc (shared t) = written_map op key val (logical_map crc (shared s))
    \<and> db_path (shared t) = db_path (shared s) \<and> writer_at t = No_Writer"
proof -
  let ?e = "shared s" and ?x = "written_entry op val sequence"
  let ?r = "new_record op key (stored_value op val) sequence"
  obtain m where m: "active_memtable ?e = Some m" using s w by (auto simp: failed_inv_def)
  define m' where "m' = snd (memtable_write op key val sequence m)"
  have step: "insert_active op key val sequence x = (Inr (), x\<lparr>active_memtable := Some m'\<rparr>)
      \<and> engine_inv crc None (x\<lparr>active_memtable := Some m'\<rparr>)
      \<and> memtable_lookup m' = (memtable_lookup m)(key \<mapsto> ?x)
      \<and> engine_view crc (x\<lparr>active_memtable := Some m'\<rparr>) = (engine_view crc x)(key \<mapsto> ?x)
      \<and> logical_map crc (x\<lparr>active_memtable := Some m'\<rparr>) = written_map op key val (logical_map crc x)"
    if "engine_inv crc (Some ?r) x" "active_memtable x = Some m" for x
    using insert_active_inv [OF that] by (auto simp: m'_def logical_map_def written_map_def fun_eq_iff)
  obtain fs where fs: "reads_on crc fs s" using s by (auto simp: failed_inv_def)
  let ?f = "?e\<lparr>engine_files := fs\<rparr>"
  have f: "engine_inv crc (Some ?r) ?f" "active_memtable ?f = Some m" "tables_kept ?f (engine_files ?e)"
    using fs w m by (simp_all add: reads_on_def)
  note sf = step [OF f(1,2)]
  have kept': "tables_kept ((?e\<lparr>active_memtable := Some m'\<rparr>)\<lparr>engine_files := fs\<rparr>) (engine_files (?e\<lparr>active_memtable := Some m'\<rparr>))"
    using f(3) by (simp add: tables_kept_def)
  have "logical_map crc (?e\<lparr>active_memtable := Some m'\<rparr>) = logical_map crc ((?e\<lparr>active_memtable := Some m'\<rparr>)\<lparr>engine_files := fs\<rparr>)"
    by (rule kept_back [OF _ kept', symmetric, where pend = None]) (use sf in \<open>simp only: active_onto\<close>)
  also have "\<dots> = written_map op key val (logical_map crc ?f)" using sf by (simp only: active_onto)
  also have "logical_map crc ?f = logical_map crc ?e" by (rule kept_back [OF f(1,3)])
  finally have map: "logical_map crc (?e\<lparr>active_memtable := Some m'\<rparr>) = written_map op key val (logical_map crc ?e)" .
  have "insert_active op key val sequence ?e = (Inr (), ?e\<lparr>active_memtable := Some m'\<rparr>)"
    using sf m by (auto simp: insert_active_write [OF f(2)] insert_active_write [OF m] m'_def split: if_splits)
  then have t': "t = s\<lparr>shared := ?e\<lparr>active_memtable := Some m'\<rparr>, writer_at := No_Writer\<rparr>"
    using t w by (simp add: writer_step_def)
  obtain sh where sh: "engine_inv crc (Some ?r) sh" "engine_files sh = engine_files ?e" "engine_wal sh = engine_wal ?e"
    "db_path sh = db_path ?e" "active_memtable sh = active_memtable ?e" "logical_map crc sh = logical_map crc ?e"
    using s w by (auto simp: failed_inv_def durable_as_def)
  have dur: "durable_as crc None (shared t) (shared t)"
    using sh step [OF sh(1)] m map
    by (intro durable_asI [of _ _ "sh\<lparr>active_memtable := Some m'\<rparr>"]) (simp_all add: t' tables_kept_def)
  have "failed_inv crc err (observed crc t)"
  proof (rule failed_other [OF s])
    fix fs
    assume "engine_inv crc (pending_write (writer_at s)) (?e\<lparr>engine_files := fs\<rparr>)"
    then have g: "engine_inv crc (Some ?r) (?e\<lparr>engine_files := fs\<rparr>)" "active_memtable (?e\<lparr>engine_files := fs\<rparr>) = Some m"
      using w m by simp_all
    note sg = step [OF g]
    have e': "(shared t)\<lparr>engine_files := fs\<rparr> = (?e\<lparr>engine_files := fs\<rparr>)\<lparr>active_memtable := Some m'\<rparr>" by (simp add: t')
    have "moves_to crc (?e\<lparr>engine_files := fs\<rparr>) ((shared t)\<lparr>engine_files := fs\<rparr>)"
      by (rule insert_active_moves [OF g(2) e', where key = key and x = ?x]) (use sg in \<open>simp_all only: e'\<close>)
    moreover have "writer_at t = No_Writer" by (simp add: t')
    ultimately show "engine_inv crc (pending_write (writer_at t)) ((shared t)\<lparr>engine_files := fs\<rparr>)
        \<and> moves_to crc (?e\<lparr>engine_files := fs\<rparr>) ((shared t)\<lparr>engine_files := fs\<rparr>)"
      using sg unfolding e' by simp
  qed (use s dur in \<open>auto simp: t' failed_inv_def stopper_failed_def split: stopper.split\<close>)
  then show ?thesis using map by (simp add: t')
qed

text \<open>Readers find the table files they need under both sets of files.\<close>

lemma search_one_onto:
  assumes "fs (md_path m) = engine_files e (md_path m)" and "search_tables crc key [m] winner e = (r, e')"
  shows "search_tables crc key [m] winner (e\<lparr>engine_files := fs\<rparr>) = (r, e'\<lparr>engine_files := fs\<rparr>)"
  using assms by (auto simp: get_sstable_reader_def split: if_splits option.splits sum.splits)

lemma reader_step_onto:
  assumes s: "reads_on crc fs s" and t: "reader_step crc i s = Some t"
  shows "reader_step crc i (onto fs s) = Some (onto fs t)"
proof (cases "reader_at s i")
  case (Searching key start ms winner)
  show ?thesis
  proof (cases ms)
    case Nil
    then show ?thesis using t Searching by (auto simp: reader_step_def onto_def)
  next
    case (Cons m ms')
    let ?f = "(shared s)\<lparr>engine_files := fs\<rparr>"
    have "reader_ok crc (past s) ?f (reader_at s i)" using s by (simp add: reads_on_def readers_inv_def)
    then have "file_ok crc (db_path ?f) (engine_files ?f) m" using Searching Cons by simp
    moreover have "tables_kept ?f (engine_files (shared s))" using s by (simp add: reads_on_def)
    ultimately have same: "fs (md_path m) = engine_files (shared s) (md_path m)" using tables_kept_live by fastforce
    obtain r e' where e': "search_tables crc key [m] winner (shared s) = (r, e')" by fastforce
    show ?thesis
      using t Searching Cons e' search_one_onto [of fs m "shared s" crc key winner r e', OF same e']
      by (auto simp: reader_step_def onto_def simp del: search_tables.simps split: sum.splits)
  qed
qed (use t in \<open>auto simp: reader_step_def onto_def\<close>)

lemma reader_call_onto: "reader_call i key (onto fs s) = onto fs (reader_call i key s)"
proof -
  have "get_memory key ((shared s)\<lparr>engine_files := fs\<rparr>) = get_memory key (shared s)"
    by (simp add: get_memory_def cong: option.case_cong)
  then show ?thesis by (cases "get_memory key (shared s)") (simp_all add: reader_call_def onto_def)
qed

lemma failed_reader:
  assumes s: "failed_inv crc err s" and fs: "reads_on crc fs s" and mv: "reader_moved crc (onto fs s) (onto fs u)"
    and u: "u = s\<lparr>shared := (shared s)\<lparr>sstable_readers := c\<rparr>, reader_at := rd\<rparr>"
  shows "failed_inv crc err (observed crc u)"
proof -
  let ?f = "(shared s)\<lparr>engine_files := fs\<rparr>"
  have inv: "engine_inv crc (pending_write (writer_at s)) ?f" using fs by (simp add: reads_on_def)
  obtain c' i r where c': "onto fs u = onto fs s\<lparr>shared := ?f\<lparr>sstable_readers := c'\<rparr>, reader_at := (reader_at s)(i := r)\<rparr>"
    "cache_ok crc (?f\<lparr>sstable_readers := c'\<rparr>)"
    using mv by (auto simp: reader_moved_def)
  have "shared (onto fs u) = ?f\<lparr>sstable_readers := c'\<rparr>" unfolding c'(1) by simp
  then have "(shared u)\<lparr>engine_files := fs\<rparr> = ?f\<lparr>sstable_readers := c'\<rparr>" by simp
  then have inv': "engine_inv crc (pending_write (writer_at u)) ((shared u)\<lparr>engine_files := fs\<rparr>)"
    using engine_inv_cache(1) [OF inv c'(2)] by (simp add: u)
  have kept: "tables_kept ((shared u)\<lparr>engine_files := fs\<rparr>) (engine_files (shared u))"
    using fs by (simp add: u reads_on_def tables_kept_def)
  have "readers_inv crc (observed crc (onto fs u))" using fs mv by (intro readers_inv_moved) (simp_all add: reads_on_def)
  then have "reads_on crc fs (observed crc u)" using inv' kept onto_observed [OF inv' kept] by (simp add: reads_on_def)
  moreover have "durable_as crc (pending_write (writer_at u)) (shared u) (shared u)"
    using s durable_same [of crc "pending_write (writer_at s)" "shared s" "shared s" "shared u"] by (simp add: u failed_inv_def)
  moreover have "writer_ok (writer_at u) (stopper_at u) (shared u)" using s by (cases "writer_at s") (auto simp: u failed_inv_def)
  ultimately show ?thesis using s by (auto simp: u failed_inv_def stopper_failed_def split: stopper.splits)
qed

lemma failed_stopper:
  assumes s: "failed_inv crc err s" and t: "stopper_step s = Some u"
  shows "failed_inv crc err (observed crc u) \<and> logical_map crc (shared u) = logical_map crc (shared s)
    \<and> db_path (shared u) = db_path (shared s) \<and> writer_at u = writer_at s"
proof -
  let ?e = "shared s"
  have bg: "background_error ?e = Some err" and st: "stopper_failed (stopper_at s) err ?e" and tq: "tq_shutting_down (flush_queue ?e)"
    and wr: "writer_ok (writer_at s) (stopper_at s) ?e" and wk: "worker_at s = Stopped"
    using s by (simp_all add: failed_inv_def)
  have go: ?thesis
    if u: "u = s\<lparr>shared := ?e\<lparr>shutting_down := sd, flush_queue := q\<rparr>, stopper_at := p\<rparr>" and "shutting_down ?e \<Longrightarrow> sd"
      "tq_shutting_down q" "stopper_failed p err (shared u)" "writer_ok (writer_at s) p (shared u)" for sd q p
    using failed_control [OF s, where u = u and sd = sd and q = q] that wk by simp
  have keep: "?e\<lparr>shutting_down := shutting_down ?e, flush_queue := flush_queue ?e\<rparr> = ?e" by simp
  show ?thesis
  proof (cases "stopper_at s")
    case Running
    then have "u = s\<lparr>shared := ?e\<lparr>shutting_down := True, flush_queue := flush_queue ?e\<rparr>, stopper_at := At_Barrier\<rparr>"
      using t st by (simp add: stopper_step_def shutdown_begin_def stopper_failed_def)
    then show ?thesis
      using wr Running tq by (intro go) (auto simp: stopper_failed_def elim: writer_ok.elims)
  next
    case At_Barrier
    then have "u = s\<lparr>stopper_at := Scheduling\<rparr>" "writer_at s = No_Writer" using t by (auto simp: stopper_step_def split: if_splits)
    then show ?thesis
      using st At_Barrier tq by (intro go [where sd = "shutting_down ?e" and q = "flush_queue ?e" and p = Scheduling]) (auto simp: stopper_failed_def)
  next
    case Scheduling
    have "shutdown_schedule ?e = Some (Inr (), ?e)" using bg by (simp add: shutdown_schedule_def split: option.split)
    then have u: "u = s\<lparr>stopper_at := Closing (Inr ())\<rparr>" using t Scheduling by (simp add: stopper_step_def)
    have "writer_ok (writer_at s) (Closing (Inr ())) ?e" using wr Scheduling by (cases "writer_at s") auto
    then show ?thesis
      using u st Scheduling tq
      by (intro go [where sd = "shutting_down ?e" and q = "flush_queue ?e" and p = "Closing (Inr ())"]) (auto simp: stopper_failed_def)
  next
    case (Closing r)
    then have "u = s\<lparr>shared := ?e\<lparr>shutting_down := shutting_down ?e, flush_queue := tq_shutdown (flush_queue ?e)\<rparr>, stopper_at := Joining r\<rparr>"
      using t by (simp add: stopper_step_def shutdown_close_def)
    moreover have "writer_ok (writer_at s) (Joining r) x" if "active_memtable x = active_memtable ?e" for x
      using wr Closing that by (cases "writer_at s") auto
    ultimately show ?thesis
      using st Closing tq.shut
      by (intro go [where sd = "shutting_down ?e" and q = "tq_shutdown (flush_queue ?e)" and p = "Joining r"]) (auto simp: stopper_failed_def)
  next
    case (Joining r)
    then have "u = s\<lparr>stopper_at := Finished (Inl err)\<rparr>"
      using t st bg wk by (simp add: stopper_step_def shutdown_report_def stopper_failed_def)
    moreover have "writer_ok (writer_at s) (Finished (Inl err)) ?e" using wr Joining by (cases "writer_at s") auto
    ultimately show ?thesis
      using st Joining tq
      by (intro go [where sd = "shutting_down ?e" and q = "flush_queue ?e" and p = "Finished (Inl err)"]) (auto simp: stopper_failed_def)
  qed (use t in \<open>simp add: stopper_step_def\<close>)
qed

lemma failed_step:
  assumes s: "failed_inv crc err s" and st: "thread_step ops crc s t"
  shows "failed_inv crc err t \<and> db_path (shared t) = db_path (shared s)
    \<and> logical_map crc (shared t) = (case writer_at s of
         Inserting op key val sequence \<Rightarrow>
           if writer_at t = No_Writer then written_map op key val (logical_map crc (shared s)) else logical_map crc (shared s)
       | _ \<Rightarrow> logical_map crc (shared s))"
proof -
  let ?e = "shared s"
  have bg: "background_error ?e = Some err" and tq: "tq_shutting_down (flush_queue ?e)" and wk: "worker_at s = Stopped"
    and stop: "stopper_failed (stopper_at s) err ?e"
    using s by (simp_all add: failed_inv_def)
  obtain fs where fs: "reads_on crc fs s" using s by (auto simp: failed_inv_def)
  have idle: ?thesis if "t = observed crc (s\<lparr>writer_at := w\<rparr>)" "w = No_Writer \<or> (\<exists>op key val. w = Preparing op key val)"
    "pending_write (writer_at s) = None" for w
    using failed_control [OF s, where u = "s\<lparr>writer_at := w\<rparr>" and sd = "shutting_down ?e" and q = "flush_queue ?e"] that tq stop wk
    by (auto split: writer.splits)
  have reader: ?thesis if "reader_moved crc (onto fs s) (onto fs u)" "t = observed crc u"
    "u = s\<lparr>shared := ?e\<lparr>sstable_readers := c\<rparr>, reader_at := rd\<rparr>" for u c rd
    using failed_reader [OF s fs that(1,3)] that(2,3) by (simp split: writer.split)
  show ?thesis
    using st
  proof cases
    case (writer_enters op key val)
    then show ?thesis using idle [of "Preparing op key val"] by simp
  next
    case (writer_moves u)
    show ?thesis
    proof (cases "writer_at s")
      case (Preparing op key val)
      then have "u = s\<lparr>writer_at := No_Writer\<rparr>"
        using writer_moves(2) bg by (auto simp: writer_step_def prepare_for_write_def split: if_splits)
      then show ?thesis using idle [of No_Writer] writer_moves(1) Preparing by simp
    next
      case (Appending op key val)
      then show ?thesis using failed_append [OF s Appending writer_moves(2)] writer_moves(1) by simp
    next
      case (Inserting op key val sequence)
      then show ?thesis using failed_insert [OF s Inserting writer_moves(2)] writer_moves(1) by simp
    qed (use writer_moves in \<open>simp add: writer_step_def\<close>)
  next
    case (worker_moves u)
    then show ?thesis using wk by (simp add: worker_step_io_def)
  next
    case (stopper_moves u)
    then show ?thesis using failed_stopper [OF s stopper_moves(2)] by (auto split: writer.split)
  next
    case (reader_starts i key)
    have "reader_moved crc (onto fs s) (onto fs (reader_call i key s))"
      using reader_call_ok [of crc "onto fs s" i key] fs by (simp add: reads_on_def reader_call_onto)
    then show ?thesis using reader [where u = "reader_call i key s" and c = "sstable_readers ?e" and rd = "reader_at (reader_call i key s)"] reader_starts(1) by (simp add: reader_call_def)
  next
    case (reader_moves i u)
    obtain c rd where "u = s\<lparr>shared := ?e\<lparr>sstable_readers := c\<rparr>, reader_at := rd\<rparr>"
      using reader_step_frame [OF reader_moves(2)] by blast
    moreover have "reader_moved crc (onto fs s) (onto fs u)"
      using reader_step_ok [OF _ reader_step_onto [OF fs reader_moves(2)]] fs by (simp add: reads_on_def)
    ultimately show ?thesis using reader reader_moves(1) by blast
  qed
qed

lemma fault_inv:
  assumes "min_heap ops invar items" and "running_crc crc" and "threads_inv crc s" and "worker_fault ops crc s t"
  shows "fault_result crc s t"
  using assms(4) manifest_fault_inv [OF assms(1-3)] table_fault_inv [OF assms(3)] log_fault_inv [OF assms(3)]
  unfolding worker_fault_def by blast

lemma faulty_inv:
  assumes heap: "min_heap ops invar items" and crc: "running_crc crc" and "faulty ops crc e s"
  shows "\<exists>err. failed_inv crc err s \<and> db_path (shared s) = db_path e"
  using assms(3)
proof induction
  case (fault s t)
  then show ?case
    using fault_inv [OF heap crc reachable_inv [OF heap crc fault(1)] fault(2)] reachable_path [OF heap crc fault(1)]
    by (auto simp: fault_result_def)
next
  case (after_fault s t)
  then show ?case using failed_step by metis
qed

text \<open>Opening what such a state has on disk.\<close>

definition with_pending_write :: "writer \<Rightarrow> (bytes \<Rightarrow> bytes option) \<Rightarrow> bytes \<Rightarrow> bytes option" where
  "with_pending_write w f = (case w of Inserting op key val sequence \<Rightarrow> written_map op key val f | _ \<Rightarrow> f)"

lemma with_pending_values:
  assumes "engine_view crc e' = with_pending (pending_write w) (engine_view crc e)"
  shows "logical_map crc e' = with_pending_write w (logical_map crc e)"
  using assms
  by (auto simp: logical_map_def fun_eq_iff with_pending_def with_pending_write_def written_map_def entry_of_def new_record_def
      split: writer.split)

lemma failed_restart:
  assumes s: "failed_inv crc err s" and p: "db_path (shared s) \<noteq> []" and mb: "memtable_bytes_from_config mb = Inr target"
    and trigger: "trigger \<noteq> 0" and tail: "tail = [] \<or> parse_record crc tail = Parse_Torn"
  shows "\<exists>e'. engine_new crc mb trigger (db_path (shared s)) (Some (wal_file (engine_wal (shared s)) @ tail)) (engine_files (shared s)) = Inr e'
    \<and> started crc e' \<and> logical_map crc e' = with_pending_write (writer_at s) (logical_map crc (shared s))"
proof -
  let ?e = "shared s"
  obtain sh where sh: "engine_inv crc (pending_write (writer_at s)) sh" "engine_files sh = engine_files ?e" "engine_wal sh = engine_wal ?e"
    "db_path sh = db_path ?e" "logical_map crc sh = logical_map crc ?e"
    using s by (auto simp: failed_inv_def durable_as_def)
  obtain e' where e': "engine_new crc mb trigger (db_path sh) (Some (wal_file (engine_wal sh) @ tail)) (engine_files sh) = Inr e'"
    "engine_inv crc None e'" "engine_view crc e' = with_pending (pending_write (writer_at s)) (engine_view crc sh)"
    "l0_trigger e' = trigger" "\<not> shutting_down e'" "background_error e' = None" "immutable_memtable e' = None" "flush_queue e' = tq_new"
    using engine_restart_ok [OF sh(1) _ mb trigger tail] p unfolding sh(4) by blast
  have "started crc e'" using e' trigger by (simp add: started_def)
  moreover have "logical_map crc e' = with_pending_write (writer_at s) (logical_map crc ?e)"
    using with_pending_values [OF e'(3)] sh(5) by simp
  ultimately show ?thesis using e'(1) sh by auto
qed

text \<open>A shutdown of an engine whose worker has failed.\<close>

lemma failed_moves:
  assumes s: "failed_inv crc err s" and p: "stopper_at s \<noteq> Running" "\<forall>r. stopper_at s \<noteq> Finished r"
  shows "\<exists>t. move ops crc s t"
proof (cases "writer_at s = No_Writer")
  case True
  have "\<exists>t. stopper_step s = Some t"
    using s p True by (cases "stopper_at s") (auto simp: stopper_step_def failed_inv_def shutdown_schedule_def split: option.split)
  then show ?thesis by (auto simp: move_def)
next
  case False
  have "shutting_down (shared s)" using s p by (cases "stopper_at s") (auto simp: failed_inv_def stopper_failed_def)
  then show ?thesis using writer_can_move [OF _ False] by (auto simp: move_def)
qed

lemma failed_move_work:
  assumes "failed_inv crc err s" and "stopper_at s \<noteq> Running" and "move ops crc s t"
  shows "work_left t < work_left s"
proof -
  have "shutting_down (shared s)" using assms(1,2) by (cases "stopper_at s") (auto simp: failed_inv_def stopper_failed_def)
  then show ?thesis using assms(3) writer_work worker_work stopper_work by (auto simp: move_def)
qed

section \<open>A run with a fault\<close>

lemma flushing_reached:
  assumes heap: "min_heap ops invar items" and crc: "running_crc crc"
  shows "\<exists>s m. reachable ops crc example_engine s \<and> within_limits crc (shared s) \<and> worker_at s = Flushing m
    \<and> writer_at s = No_Writer \<and> stopper_at s = Running"
proof -
  obtain s m where s: "calm ops crc example_engine s" "worker_at s = Popping" "immutable_memtable (shared s) = Some m"
    using full_reached [OF heap crc] by blast
  then have r: "reachable ops crc example_engine s" and lim: "within_limits crc (shared s)" by (simp_all add: calm_def)
  have slot: "tq_queue (flush_queue (shared s)) = [m]"
    using reachable_inv [OF heap crc r] s(2,3) by (simp add: threads_inv_def control_inv_def)
  obtain q where q: "tq_wait_and_pop (flush_queue (shared s)) = Some (Some m, q)" using tq.pop_item [OF slot] by blast
  define u where "u = s\<lparr>shared := (shared s)\<lparr>flush_queue := q\<rparr>, worker_at := Flushing m\<rparr>"
  have "worker_step ops crc s = Some u" using s(2) q by (simp add: worker_step_io_def u_def)
  then have "reachable ops crc example_engine (observed crc u)" by (rule reachable_step [OF r lim worker_moves])
  moreover have "within_limits crc (shared (observed crc u))" by (rule limits_same [OF lim]) (simp_all add: u_def)
  ultimately show ?thesis using s(1) by (intro exI [of _ "observed crc u"] exI [of _ m]) (simp add: u_def calm_def)
qed

lemma failing_rename: "apply_edit Rename_Fails edit man fs \<noteq> (Inr man', fs')"
  by (auto simp: apply_edit_def persist_snapshot_def split: sum.splits prod.splits option.splits)

lemma failing_flush_build: "flush_build crc Rename_Fails m e \<noteq> Some (Inr through, e')"
  using failing_rename by (auto simp: flush_build_def Let_def split: if_splits bind_splits sum.splits prod.splits)

lemma failing_flush:
  assumes "worker_at s = Flushing m" and "within_limits crc (shared s)"
  shows "\<exists>t. worker_step_io ops crc Rename_Fails s = Some t \<and> background_error (shared t) \<noteq> None
    \<and> writer_at t = writer_at s \<and> stopper_at t = stopper_at s"
proof -
  have "room 0 (shared s)" using assms(2) by (simp add: within_limits_def)
  then obtain r e' where b: "flush_build crc Rename_Fails m (shared s) = Some (r, e')"
    using flush_build_total [of "shared s" crc Rename_Fails m] by auto
  obtain err where "r = Inl err" using b failing_flush_build by (cases r) auto
  then have "worker_step_io ops crc Rename_Fails s = Some (worker_fails err e' s)"
    using assms(1) b by (simp add: worker_step_io_def)
  then show ?thesis by (simp add: worker_fails_def worker_failed_def split: option.split)
qed

lemma fault_reached:
  assumes heap: "min_heap ops invar items" and crc: "running_crc crc"
  shows "\<exists>s. faulty ops crc example_engine s \<and> writer_at s = No_Writer \<and> stopper_at s = Running"
proof -
  obtain s m where s: "reachable ops crc example_engine s" "within_limits crc (shared s)" "worker_at s = Flushing m"
    "writer_at s = No_Writer" "stopper_at s = Running"
    using flushing_reached [OF heap crc] by blast
  obtain t where t: "worker_step_io ops crc Rename_Fails s = Some t" "background_error (shared t) \<noteq> None"
    "writer_at t = writer_at s" "stopper_at t = stopper_at s"
    using failing_flush [OF s(3,2)] by blast
  have "worker_fault ops crc s t" unfolding worker_fault_def using s(2) t(1,2) by blast
  then have "faulty ops crc example_engine (observed crc t)" by (rule fault [OF s(1)])
  then show ?thesis using s t by (intro exI [of _ "observed crc t"]) simp
qed

end
