(* ===== verification/Engine_Guarantees.thy ===== *)
theory Engine_Guarantees
  imports Engine_Faults
begin

text \<open>
  The guarantees of the engine under every interleaving of its threads: what holds in every
  reachable state, what each step does to the map the engine stands for, what a crash leaves, what
  a concurrent \<open>get\<close> may answer, where threads wait, and how a shutdown ends.
\<close>

section \<open>A run to start from\<close>

lemma example_limits: "within_limits crc example_engine"
  using example_room [of 0] example_volume by (simp add: within_limits_def) (simp add: example_engine_def)

lemma example_reachable: "reachable ops crc example_engine (threads_new crc example_engine)"
  by (rule reachable_start [OF example_started])

lemma threads_new_simps [simp]:
  "shared (threads_new crc e) = e" "writer_at (threads_new crc e) = No_Writer" "worker_at (threads_new crc e) = Popping"
  "stopper_at (threads_new crc e) = Running" "reader_at (threads_new crc e) i = Idle"
  "past (threads_new crc e) = [logical_map crc e]"
  by (simp_all add: threads_new_def)


definition example_writing :: "crc_fn \<Rightarrow> threads" where
  "example_writing crc = observed crc ((threads_new crc example_engine)\<lparr>writer_at := Preparing PUT [1] [2]\<rparr>)"

lemma example_writing_reached: "reachable ops crc example_engine (example_writing crc)"
  unfolding example_writing_def
  by (rule reachable_step [OF example_reachable]) (simp_all add: example_limits thread_step.writer_enters)

definition example_answered :: "crc_fn \<Rightarrow> threads" where
  "example_answered crc =
     (let s1 = observed crc (reader_call 0 [1] (threads_new crc example_engine));
          s2 = observed crc (s1\<lparr>reader_at := (reader_at s1)(0 := Searching [1] 1 [] None)\<rparr>)
      in observed crc (s2\<lparr>reader_at := (reader_at s2)(0 := Answered [1] 1 (result_of_entry None))\<rparr>))"

lemma example_answered_reached: "reachable ops crc example_engine (example_answered crc)"
proof -
  let ?s1 = "observed crc (reader_call 0 [1] (threads_new crc example_engine))"
  let ?s2 = "observed crc (?s1\<lparr>reader_at := (reader_at ?s1)(0 := Searching [1] 1 [] None)\<rparr>)"
  have r1: "reachable ops crc example_engine ?s1"
    by (rule reachable_step [OF example_reachable]) (simp_all add: example_limits thread_step.reader_starts)
  have "get_memory [1] example_engine = None" by (simp add: get_memory_def example_engine_def)
  then have at1: "reader_at ?s1 0 = Snapshotting [1] 1" "shared ?s1 = example_engine" by (simp_all add: reader_call_def)
  have "reader_step crc 0 ?s1 = Some (?s1\<lparr>reader_at := (reader_at ?s1)(0 := Searching [1] 1 [] None)\<rparr>)"
    using at1 by (simp add: reader_step_def) (simp add: example_engine_def)
  then have r2: "reachable ops crc example_engine ?s2"
    using at1 by (intro reachable_step [OF r1] thread_step.reader_moves) (simp_all add: example_limits)
  have "reader_step crc 0 ?s2 = Some (?s2\<lparr>reader_at := (reader_at ?s2)(0 := Answered [1] 1 (result_of_entry None))\<rparr>)"
    by (simp add: reader_step_def)
  then show ?thesis
    unfolding example_answered_def Let_def
    using at1 by (intro reachable_step [OF r2] thread_step.reader_moves) (simp_all add: example_limits)
qed

section \<open>Every reachable state\<close>

text \<open>C5: In every state the threads can reach from a started engine the invariant of the engine
  holds, with the record of a write that is in the log but not in memory yet as the pending one;
  the worker has recorded no error; and a frozen memtable is in the queue or in the worker's hands,
  never lost: the queue holds exactly the immutable memtable unless the worker is flushing it or
  is about to clear it, and then the queue is empty.\<close>

theorem reachable_safe:
  assumes "min_heap ops invar items" and "running_crc crc" and "reachable ops crc e s"
  shows "engine_inv crc (pending_write (writer_at s)) (shared s) \<and> background_error (shared s) = None
    \<and> (case worker_at s of
         Flushing m \<Rightarrow> immutable_memtable (shared s) = Some m \<and> tq_queue (flush_queue (shared s)) = []
       | Clearing m through \<Rightarrow> immutable_memtable (shared s) = Some m \<and> tq_queue (flush_queue (shared s)) = []
       | _ \<Rightarrow> tq_queue (flush_queue (shared s)) = slot_list (shared s))"
  using reachable_inv [OF assms] by (auto simp: threads_inv_def control_inv_def split: worker.split)

theorem reachable_safe_witness:
  "engine_inv sum_crc None (shared (example_writing sum_crc)) \<and> background_error (shared (example_writing sum_crc)) = None"
  using reachable_safe [OF lh.min_heap_axioms running_crc_sum_crc example_writing_reached]
  by (simp add: example_writing_def)

text \<open>C1: Every step of every thread refines the abstract map: the last section of a \<open>put\<close> or
  \<open>remove\<close> updates exactly its key, and no other step, of a writer, of the worker flushing,
  reclaiming or compacting, of a shutdown or of a reader, changes the map.\<close>

theorem thread_step_refines:
  assumes "min_heap ops invar items" and "running_crc crc" and "reachable ops crc e s"
    and "within_limits crc (shared s)" and "thread_step ops crc s t"
  shows "logical_map crc (shared t) = (case writer_at s of
       Inserting op key val sequence \<Rightarrow>
         if writer_at t = No_Writer then (logical_map crc (shared s))(key := (if op = PUT then Some val else None))
         else logical_map crc (shared s)
     | _ \<Rightarrow> logical_map crc (shared s))"
  using thread_step_effect [OF assms(1,2) reachable_inv [OF assms(1-3)] assms(4,5)]
  by (auto simp: written_map_def split: writer.split)

theorem thread_step_refines_witness:
  "logical_map sum_crc (shared (example_writing sum_crc)) = logical_map sum_crc example_engine"
  using thread_step_refines [OF lh.min_heap_axioms running_crc_sum_crc example_reachable _
      thread_step.writer_enters [of "threads_new sum_crc example_engine" list_heap sum_crc PUT "[1]" "[2]"]]
  by (simp add: example_limits example_writing_def)

section \<open>Crashes\<close>



section \<open>Concurrent readers\<close>

text \<open>C3: A \<open>get\<close> that runs beside writers, flushes and compactions never fails, and what it
  answers is the value its key had in the map at some moment between the start of the call and
  its end.\<close>

theorem get_linearizable:
  assumes "min_heap ops invar items" and "running_crc crc" and "reachable ops crc e s"
  shows "case reader_at s i of
       Answered key start r \<Rightarrow> (\<exists>f\<in>set (drop start (past s)). answer_value r = f key)
     | Failed err \<Rightarrow> False
     | _ \<Rightarrow> True"
proof -
  have "reader_ok crc (past s) (shared s) (reader_at s i)"
    using reachable_inv [OF assms] by (simp add: threads_inv_def readers_inv_def)
  then show ?thesis by (cases "reader_at s i") (auto simp: seen_def)
qed

theorem get_linearizable_witness:
  "\<exists>f\<in>set (drop 1 (past (example_answered sum_crc))). answer_value (result_of_entry None) = f [1]"
  using get_linearizable [OF lh.min_heap_axioms running_crc_sum_crc example_answered_reached, of 0]
  by (simp add: example_answered_def Let_def)

section \<open>Waiting\<close>

text \<open>C7: A write waits only while a frozen memtable occupies the slot, and while it waits the
  worker can always take its next step, with one exception: when the worker itself waits for
  \<open>write_mutex_\<close>, which the waiting writer holds.\<close>

theorem waiting_writer_released:
  assumes heap: "min_heap ops invar items" and crc: "running_crc crc" and r: "reachable ops crc e s"
    and lim: "within_limits crc (shared s)" and w: "writer_at s = Preparing op key val" and wait: "writer_step crc s = None"
  shows "immutable_memtable (shared s) \<noteq> None \<and> ((\<exists>t. worker_step ops crc s = Some t) \<noteq> mutual_wait s)"
proof -
  have ctl: "control_inv crc s" using reachable_inv [OF heap crc r] by (simp add: threads_inv_def)
  have none: "prepare_for_write key (write_candidate op val) (shared s) = None"
    using wait w by (auto simp: writer_step_def split: option.splits sum.splits prod.splits)
  then have i: "immutable_memtable (shared s) \<noteq> None" by (simp add: prepare_waits_iff)
  then have run: "worker_at s \<noteq> Stopped" using ctl by (auto simp: control_inv_def)
  show ?thesis
  proof (cases "\<exists>through. worker_at s = Reclaiming through")
    case True
    then show ?thesis using i w none by (auto simp: mutual_wait_def worker_step_io_def)
  next
    case False
    then have "\<not> mutual_wait s" by (auto simp: mutual_wait_def)
    then show ?thesis using i worker_can_move [OF heap ctl lim run] False by blast
  qed
qed

theorem waiting_writer_released_witness:
  "\<exists>s. reachable list_heap sum_crc example_engine s \<and> writer_step sum_crc s = None
     \<and> immutable_memtable (shared s) \<noteq> None \<and> ((\<exists>t. worker_step list_heap sum_crc s = Some t) \<noteq> mutual_wait s)"
proof -
  obtain s where s: "reachable list_heap sum_crc example_engine s" "mutual_wait s" "within_limits sum_crc (shared s)"
    using mutual_wait_reached [OF lh.min_heap_axioms running_crc_sum_crc] by blast
  obtain op key val where w: "writer_at s = Preparing op key val" "writer_step sum_crc s = None"
    using s(2) by (auto simp: mutual_wait_def writer_step_def)
  from waiting_writer_released [OF lh.min_heap_axioms running_crc_sum_crc s(1,3) w] w s(1) show ?thesis by blast
qed

text \<open>C6: That exception happens. From a fresh database the threads reach a state in which a writer
  waits for the slot inside \<open>prepareForWriteLocked\<close>, holding \<open>write_mutex_\<close>, while the worker
  waits for \<open>write_mutex_\<close> to reclaim the log before it could take the frozen memtable from the
  queue. Neither moves again, whatever writers, worker and readers do, until \<open>shutdown\<close> is
  called: \<open>put\<close> does not return.\<close>

theorem writer_worker_deadlock:
  assumes "min_heap ops invar items" and "running_crc crc"
  shows "engine_new crc 1 4 example_path None Map.empty = Inr example_engine
    \<and> (\<exists>s. reachable ops crc example_engine s
        \<and> (\<forall>t. (thread_step ops crc)\<^sup>*\<^sup>* s t \<and> stopper_at t = Running \<longrightarrow>
             mutual_wait t \<and> writer_step crc t = None \<and> worker_step ops crc t = None)
        \<and> stopper_at s = Running)"
proof -
  have stuck: "writer_step crc t = None \<and> worker_step ops crc t = None" if "mutual_wait t" for t
    using that by (auto simp: mutual_wait_def writer_step_def worker_step_io_def)
  obtain s where s: "reachable ops crc example_engine s" "mutual_wait s" "stopper_at s = Running"
    using mutual_wait_reached [OF assms] by blast
  show ?thesis using example_new(1) s mutual_wait_stays [OF _ s(2)] stuck by blast
qed

theorem writer_worker_deadlock_witness:
  "\<exists>s. reachable list_heap sum_crc example_engine s \<and> mutual_wait s \<and> writer_step sum_crc s = None
     \<and> worker_step list_heap sum_crc s = None"
  using writer_worker_deadlock [OF lh.min_heap_axioms running_crc_sum_crc] by blast

section \<open>Shutdown\<close>

text \<open>The run of a shutdown of the fresh database.\<close>

fun example_shutdown :: "crc_fn \<Rightarrow> nat \<Rightarrow> threads" where
  "example_shutdown crc 0 = observed crc
     ((threads_new crc example_engine)\<lparr>shared := example_engine\<lparr>shutting_down := True\<rparr>, stopper_at := At_Barrier\<rparr>)"
| "example_shutdown crc (Suc i) =
     (let s = example_shutdown crc i
      in observed crc (
           if i = 0 then s\<lparr>stopper_at := Scheduling\<rparr>
           else if i = 1 then s\<lparr>stopper_at := Closing (Inr ())\<rparr>
           else if i = 2 then s\<lparr>shared := shutdown_close (shared s), stopper_at := Joining (Inr ())\<rparr>
           else if i = 3 then s\<lparr>worker_at := Stopped\<rparr>
           else s\<lparr>stopper_at := Finished (Inr ())\<rparr>))"

abbreviation example_closing :: engine where
  "example_closing \<equiv> example_engine\<lparr>shutting_down := True\<rparr>"

lemma example_shutdown_at:
  "i \<le> 5 \<Longrightarrow> shared (example_shutdown crc i) = (if i < 3 then example_closing else shutdown_close example_closing)
     \<and> worker_at (example_shutdown crc i) = (if i < 4 then Popping else Stopped)
     \<and> stopper_at (example_shutdown crc i) =
         (if i = 0 then At_Barrier else if i = 1 then Scheduling else if i = 2 then Closing (Inr ())
          else if i < 5 then Joining (Inr ()) else Finished (Inr ()))
     \<and> writer_at (example_shutdown crc i) = No_Writer"
  by (induction i) (auto simp: Let_def)

lemma example_shutdown_moves:
  assumes "i < 5"
  shows "\<exists>t. move ops crc (example_shutdown crc i) t \<and> example_shutdown crc (Suc i) = observed crc t"
proof -
  note at = example_shutdown_at [of i crc]
  have e: "immutable_memtable example_engine = None" "background_error example_engine = None" "flush_queue example_engine = tq_new"
    "active_memtable example_engine = Some (memtable_new 1048576)"
    by (simp_all add: example_engine_def)
  consider "i = 0" | "i = 1" | "i = 2" | "i = 3" | "i = 4" using assms by linarith
  then show ?thesis
  proof cases
    case 1
    then have "stopper_step (example_shutdown crc i) = Some (example_shutdown crc i\<lparr>stopper_at := Scheduling\<rparr>)"
      using at by (simp add: stopper_step_def)
    then show ?thesis unfolding example_shutdown.simps(2) Let_def move_def using 1 by auto
  next
    case 2
    have "shutdown_schedule example_closing = Some (Inr (), example_closing)"
      using e by (simp add: shutdown_schedule_def entry_count_def memtable_new_def)
    then have "stopper_step (example_shutdown crc i) = Some (example_shutdown crc i\<lparr>stopper_at := Closing (Inr ())\<rparr>)"
      using at 2 by (simp add: stopper_step_def)
    then show ?thesis unfolding example_shutdown.simps(2) Let_def move_def using 2 by auto
  next
    case 3
    then have "stopper_step (example_shutdown crc i) =
        Some (example_shutdown crc i\<lparr>shared := shutdown_close (shared (example_shutdown crc i)), stopper_at := Joining (Inr ())\<rparr>)"
      using at by (simp add: stopper_step_def)
    then show ?thesis unfolding example_shutdown.simps(2) Let_def move_def using 3 by auto
  next
    case 4
    have "tq_wait_and_pop (flush_queue (shutdown_close example_closing)) = Some (None, flush_queue (shutdown_close example_closing))"
      using e by (simp add: shutdown_close_def tq.pop_end tq.shut tq.new)
    then have "worker_step ops crc (example_shutdown crc i) = Some (example_shutdown crc i\<lparr>worker_at := Stopped\<rparr>)"
      using at 4 by (simp add: worker_step_io_def)
    then show ?thesis unfolding example_shutdown.simps(2) Let_def move_def using 4 by auto
  next
    case 5
    have "shutdown_report (Inr ()) (shutdown_close example_closing) = Inr ()"
      using e by (simp add: shutdown_report_def shutdown_close_def)
    then have "stopper_step (example_shutdown crc i) = Some (example_shutdown crc i\<lparr>stopper_at := Finished (Inr ())\<rparr>)"
      using at 5 by (simp add: stopper_step_def)
    then show ?thesis unfolding example_shutdown.simps(2) Let_def move_def using 5 by auto
  qed
qed

lemma example_shutdown_run: "move_run ops crc 5 (example_shutdown crc)"
proof -
  have "within_limits crc (shared (example_shutdown crc i))" if "i \<le> 5" for i
    by (rule limits_same [OF example_limits]) (use example_shutdown_at [OF that] in \<open>auto simp: shutdown_close_def\<close>)
  then show ?thesis using example_shutdown_moves by (auto simp: move_run_def)
qed

lemma example_shutdown_starts: "reachable ops crc example_engine (example_shutdown crc 0)"
proof -
  have "stopper_step (threads_new crc example_engine) =
      Some ((threads_new crc example_engine)\<lparr>shared := example_closing, stopper_at := At_Barrier\<rparr>)"
    by (simp add: stopper_step_def) (simp add: shutdown_begin_def example_engine_def)
  then show ?thesis
    unfolding example_shutdown.simps by (intro reachable_step [OF example_reachable] thread_step.stopper_moves) (simp_all add: example_limits)
qed



text \<open>C9: When \<open>shutdown\<close> has returned it has returned without an error, the worker has ended,
  the queue and the immutable slot are empty, the active memtable is empty or gone, and the
  tables on disk alone stand for the whole map.\<close>

theorem shutdown_complete:
  assumes "min_heap ops invar items" and "running_crc crc" and "reachable ops crc e s" and "stopper_at s = Finished res"
  shows "res = Inr () \<and> worker_at s = Stopped \<and> tq_queue (flush_queue (shared s)) = []
    \<and> immutable_memtable (shared s) = None \<and> (\<forall>m. active_memtable (shared s) = Some m \<longrightarrow> mtable m = [])
    \<and> logical_map crc (shared s) = (\<lambda>key. value_of (disk_view crc (shared s) key))"
proof -
  have ctl: "control_inv crc s" using reachable_inv [OF assms(1-3)] by (simp add: threads_inv_def)
  then have s: "res = Inr ()" "worker_at s = Stopped" "tq_queue (flush_queue (shared s)) = []"
    "immutable_memtable (shared s) = None" "memory_drained (shared s)"
    using assms(4) by (auto simp: control_inv_def)
  moreover have "mem_of (active_memtable (shared s)) = Map.empty"
    using s(5) by (auto simp: memory_drained_def mem_of_def memtable_lookup_map split: option.split)
  ultimately show ?thesis by (simp add: memory_drained_def logical_map_def engine_view_def fun_eq_iff newest_two)
qed

theorem shutdown_complete_witness:
  "worker_at (example_shutdown sum_crc 5) = Stopped
    \<and> logical_map sum_crc (shared (example_shutdown sum_crc 5)) = (\<lambda>key. value_of (disk_view sum_crc (shared (example_shutdown sum_crc 5)) key))"
proof -
  have "stopper_at (example_shutdown sum_crc 0) \<noteq> Running" by simp
  from move_run_work [where run = "example_shutdown sum_crc", OF lh.min_heap_axioms running_crc_sum_crc example_shutdown_starts this example_shutdown_run]
  have "reachable list_heap sum_crc example_engine (example_shutdown sum_crc 5)" by blast
  moreover have "stopper_at (example_shutdown sum_crc 5) = Finished (Inr ())" using example_shutdown_at [of 5 sum_crc] by simp
  ultimately show ?thesis using shutdown_complete [OF lh.min_heap_axioms running_crc_sum_crc] by blast
qed

section \<open>Failing system calls of the worker\<close>



text \<open>C11: After such a failure the error is there to stay: every write that comes to its first section
  is refused, with the error or because of the shutdown; the writes that were past it complete;
  every step refines the abstract map as before; and opening what is on disk, with a torn record
  at the end of the log or not, gives that map.\<close>

theorem crash_after_fault:
  assumes heap: "min_heap ops invar items" and crc: "running_crc crc" and f: "faulty ops crc e s"
    and p: "db_path e \<noteq> []" and mb: "memtable_bytes_from_config mb = Inr target" and trigger: "trigger \<noteq> 0"
    and tail: "tail = [] \<or> parse_record crc tail = Parse_Torn"
  shows "(\<exists>err. \<forall>key cand. prepare_for_write key cand (shared s) =
            Some (Inl (if shutting_down (shared s) then Engine_Shutting_Down else err), shared s))
    \<and> (\<forall>t. thread_step ops crc s t \<longrightarrow> logical_map crc (shared t) = (case writer_at s of
         Inserting op key val sequence \<Rightarrow>
           if writer_at t = No_Writer then (logical_map crc (shared s))(key := (if op = PUT then Some val else None))
           else logical_map crc (shared s)
       | _ \<Rightarrow> logical_map crc (shared s)))
    \<and> (\<exists>e'. engine_new crc mb trigger (db_path e) (Some (wal_file (engine_wal (shared s)) @ tail)) (engine_files (shared s)) = Inr e'
        \<and> started crc e'
        \<and> logical_map crc e' = (case writer_at s of
             Inserting op key val sequence \<Rightarrow> (logical_map crc (shared s))(key := (if op = PUT then Some val else None))
           | _ \<Rightarrow> logical_map crc (shared s)))"
proof -
  obtain err where s: "failed_inv crc err s" "db_path (shared s) = db_path e" using faulty_inv [OF heap crc f] by blast
  have "background_error (shared s) = Some err" using s(1) by (simp add: failed_inv_def)
  then have "\<forall>key cand. prepare_for_write key cand (shared s) =
      Some (Inl (if shutting_down (shared s) then Engine_Shutting_Down else err), shared s)"
    by (simp add: prepare_for_write_def)
  moreover have "thread_step ops crc s t \<longrightarrow> logical_map crc (shared t) = (case writer_at s of
         Inserting op key val sequence \<Rightarrow>
           if writer_at t = No_Writer then (logical_map crc (shared s))(key := (if op = PUT then Some val else None))
           else logical_map crc (shared s)
       | _ \<Rightarrow> logical_map crc (shared s))" for t
    using failed_step [OF s(1), of ops t] by (auto simp: written_map_def split: writer.split)
  moreover note failed_restart [OF s(1) _ mb trigger tail]
  ultimately show ?thesis
    using s(2) p by (auto simp: with_pending_write_def written_map_def cong: writer.case_cong)
qed

theorem crash_after_fault_witness:
  "\<exists>s e'. faulty list_heap sum_crc example_engine s
     \<and> engine_new sum_crc 1 4 (db_path example_engine) (Some (wal_file (engine_wal (shared s)) @ [])) (engine_files (shared s)) = Inr e'
     \<and> logical_map sum_crc e' = logical_map sum_crc (shared s)"
proof -
  obtain s where s: "faulty list_heap sum_crc example_engine s" "writer_at s = No_Writer"
    using fault_reached [OF lh.min_heap_axioms running_crc_sum_crc] by blast
  have p: "db_path example_engine \<noteq> []" by (simp add: example_engine_def example_path_def)
  have mb: "memtable_bytes_from_config 1 = Inr 1048576" by (simp add: memtable_bytes_from_config_def)
  from crash_after_fault [OF lh.min_heap_axioms running_crc_sum_crc s(1) p mb, of 4 "[]"] s show ?thesis by auto
qed

text \<open>Readers do not notice: after a failing manifest write, too, a \<open>get\<close> never fails and answers a
  value its key had during the call, although the manifest on disk may differ from the one in
  memory.\<close>

theorem get_linearizable_after_fault:
  assumes heap: "min_heap ops invar items" and crc: "running_crc crc" and f: "faulty ops crc e s"
  shows "case reader_at s i of
       Answered key start r \<Rightarrow> (\<exists>f\<in>set (drop start (past s)). answer_value r = f key)
     | Failed err \<Rightarrow> False
     | _ \<Rightarrow> True"
proof -
  obtain err fs where "reads_on crc fs s" using faulty_inv [OF heap crc f] by (auto simp: failed_inv_def)
  then have "reader_ok crc (past s) ((shared s)\<lparr>engine_files := fs\<rparr>) (reader_at s i)"
    by (simp add: reads_on_def readers_inv_def)
  then show ?thesis by (cases "reader_at s i") (auto simp: seen_def)
qed

theorem get_linearizable_after_fault_witness:
  "\<exists>s. faulty list_heap sum_crc example_engine s \<and> (\<forall>i err. reader_at s i \<noteq> Failed err)"
proof -
  obtain s where s: "faulty list_heap sum_crc example_engine s"
    using fault_reached [OF lh.min_heap_axioms running_crc_sum_crc] by blast
  have "reader_at s i \<noteq> Failed err" for i err
    using get_linearizable_after_fault [OF lh.min_heap_axioms running_crc_sum_crc s, of i] by auto
  then show ?thesis using s by blast
qed

text \<open>C12: A shutdown of an engine whose worker has failed ends, too: until it has returned one of the
  threads can move and each move leaves less work; and it reports the recorded error.\<close>

theorem shutdown_after_fault:
  assumes heap: "min_heap ops invar items" and crc: "running_crc crc" and f: "faulty ops crc e s"
    and p: "stopper_at s \<noteq> Running"
  shows "(\<forall>t. move ops crc s t \<longrightarrow> work_left t < work_left s)
    \<and> ((\<exists>t. move ops crc s t) \<or> (\<exists>err. background_error (shared s) = Some err \<and> stopper_at s = Finished (Inl err)))"
proof -
  obtain err where s: "failed_inv crc err s" using faulty_inv [OF heap crc f] by blast
  have "stopper_at s = Finished (Inl err)" if "stopper_at s = Finished r" for r
    using s that by (auto simp: failed_inv_def stopper_failed_def)
  moreover have "background_error (shared s) = Some err" using s by (simp add: failed_inv_def)
  ultimately show ?thesis using failed_moves [OF s p] failed_move_work [OF s p] by blast
qed

theorem shutdown_after_fault_witness:
  "\<exists>s t. faulty list_heap sum_crc example_engine s \<and> move list_heap sum_crc s t \<and> work_left t < work_left s"
proof -
  obtain s where s: "faulty list_heap sum_crc example_engine s" "stopper_at s = Running"
    using fault_reached [OF lh.min_heap_axioms running_crc_sum_crc] by blast
  obtain err where "failed_inv sum_crc err s" using faulty_inv [OF lh.min_heap_axioms running_crc_sum_crc s(1)] by blast
  then have "stopper_step s = Some (s\<lparr>shared := (shared s)\<lparr>shutting_down := True\<rparr>, stopper_at := At_Barrier\<rparr>)"
    using s(2) by (simp add: stopper_step_def shutdown_begin_def failed_inv_def stopper_failed_def)
  then have "thread_step list_heap sum_crc s (observed sum_crc (s\<lparr>shared := (shared s)\<lparr>shutting_down := True\<rparr>, stopper_at := At_Barrier\<rparr>))"
    by (rule stopper_moves)
  then have u: "faulty list_heap sum_crc example_engine (observed sum_crc (s\<lparr>shared := (shared s)\<lparr>shutting_down := True\<rparr>, stopper_at := At_Barrier\<rparr>))"
    (is "faulty _ _ _ ?u") by (rule after_fault [OF s(1)])
  have p: "stopper_at ?u \<noteq> Running" "\<forall>err. stopper_at ?u \<noteq> Finished (Inl err)" by simp_all
  from shutdown_after_fault [OF lh.min_heap_axioms running_crc_sum_crc u p(1)] p(2) u show ?thesis by blast
qed

end
