(* ===== verification/Engine_Log_Faults.thy ===== *)
theory Engine_Log_Faults
  imports Engine_Guarantees Engine_Properties Wal_Reclaim_Properties
begin

text \<open>
  The worker's reclamation of the log when its system calls fail. The section of
  \<open>flushMemtable\<close> under \<open>write_mutex_\<close> is taken call by call from Wal_Reclaim; what it leaves
  on disk is compared with what the engine in memory stands for.
\<close>

text \<open>Whatever happened, the directory opens to the map of the engine.\<close>

lemma reclaim_calls_restart:
  assumes inv: "engine_inv crc None e" and through: "unat through < covered e" and p: "db_path e \<noteq> []"
    and mb: "memtable_bytes_from_config mb = Inr target" and trigger: "trigger \<noteq> 0"
    and run: "flush_reclaim_calls crc calls through e = Some (r, e', f)"
  shows "\<exists>e''. engine_new crc mb trigger (db_path e) (Some f) (engine_files e) = Inr e'' \<and> started crc e''
    \<and> logical_map crc e'' = logical_map crc e"
proof -
  obtain rs where rs: "wal_ok crc (engine_wal e) rs" using engine_invD(5) [OF inv] by (auto simp: log_ok_def)
  obtain w where w: "flush_reclaim crc through e = (Inr (), e\<lparr>engine_wal := w\<rparr>)" "engine_inv crc None (e\<lparr>engine_wal := w\<rparr>)"
    "engine_view crc (e\<lparr>engine_wal := w\<rparr>) = engine_view crc e"
    using flush_reclaim_ok [OF inv through] by blast
  have restart: "\<exists>e''. engine_new crc mb trigger (db_path x) (Some (wal_file (engine_wal x))) (engine_files x) = Inr e'' \<and> started crc e''
      \<and> logical_map crc e'' = logical_map crc e"
    if "engine_inv crc None x" "engine_view crc x = engine_view crc e" "db_path x = db_path e" for x
  proof -
    note x = that
    have "[] = [] \<or> parse_record crc [] = Parse_Torn" by simp
    from engine_restart_ok [OF x(1) _ mb trigger this] obtain e'' where e'':
      "engine_new crc mb trigger (db_path x) (Some (wal_file (engine_wal x) @ [])) (engine_files x) = Inr e''"
      "engine_inv crc None e''" "engine_view crc e'' = with_pending None (engine_view crc x)" "l0_trigger e'' = trigger"
      "\<not> shutting_down e''" "background_error e'' = None" "immutable_memtable e'' = None" "flush_queue e'' = tq_new"
      using x(3) p by metis
    then have "started crc e''" using trigger by (simp add: started_def)
    moreover have "logical_map crc e'' = logical_map crc e" using e''(3) x(2) by (intro logical_map_view) (simp add: with_pending_def)
    ultimately show ?thesis using e''(1) by auto
  qed
  from rs run show ?thesis
  proof (cases rule: flush_reclaim_calls_cases)
    case (kept err)
    then show ?thesis using restart [OF inv] by simp
  next
    case stale
    then show ?thesis using restart [OF w(2,3)] w(1) by simp
  next
    case installed
    then show ?thesis using restart [OF w(2,3)] w(1) by simp
  qed
qed

lemma engine_write_files: "engine_write crc io op key val e = Some (r, e') \<Longrightarrow> engine_files e' = engine_files e"
  by (auto simp: engine_write_def prepare_for_write_def rotate_active_def append_wal_def insert_active_def Let_def
      split: if_splits option.splits sum.splits prod.splits)

section \<open>A run in which the log cannot be opened again\<close>

lemma reclaiming_reached:
  assumes heap: "min_heap ops invar items" and crc: "running_crc crc"
  shows "\<exists>s through. calm ops crc example_engine s \<and> worker_at s = Reclaiming through \<and> immutable_memtable (shared s) = None"
proof -
  obtain s m1 m2 where s: "calm ops crc example_engine s" "worker_at s = Popping" "heavy 1 m1"
    "immutable_memtable (shared s) = Some (frozen m1)" "table_volume crc (shared s) = 0" "room 3 (shared s)"
    using full_reached [OF heap crc] by blast
  have "length (mtable (frozen m1)) = 1" using heavy_count [OF s(3)] by (simp add: entry_count_def)
  then show ?thesis using calm_flush [OF heap crc s(1,2,4)] s(5,6) by auto
qed

definition lost_file :: "write_result list \<Rightarrow> reclaim_calls" where
  "lost_file writes = (example_calls False)\<lparr>temp_writes := writes\<rparr>"

lemma lost_file_reached:
  assumes heap: "min_heap ops invar items" and crc: "running_crc crc"
  shows "\<exists>s through writes f e'. reachable ops crc example_engine s \<and> worker_at s = Reclaiming through \<and> writer_at s = No_Writer
    \<and> flush_reclaim_calls crc (lost_file writes) through (shared s) = Some (Inl (Wal_Call_Failed Reopen_Log), shared s, f)
    \<and> engine_put crc Io_Complete [9] [1] (shared s) = Some (Inr (), e')"
proof -
  obtain s through where s: "calm ops crc example_engine s" "worker_at s = Reclaiming through" "immutable_memtable (shared s) = None"
    using reclaiming_reached [OF heap crc] by blast
  have r: "reachable ops crc example_engine s" and w: "writer_at s = No_Writer" and run: "stopper_at s = Running"
    and seq: "unat (next_sequence (engine_wal (shared s))) < 100" using s(1) by (simp_all add: calm_def)
  have ctl: "control_inv crc s" using reachable_inv [OF heap crc r] by (simp add: threads_inv_def)
  have inv: "engine_inv crc None (shared s)" and go: "\<not> shutting_down (shared s)" "background_error (shared s) = None"
    "\<not> tq_shutting_down (flush_queue (shared s))" using ctl w run by (simp_all add: control_inv_def)
  have "next_sequence (engine_wal (shared s)) \<noteq> max_u64" using seq by (auto simp: max_u64_def)
  then obtain e' where "engine_put crc Io_Complete [9] [1] (shared s) = Some (Inr (), e')"
    using engine_write_accepts [OF inv go, of "[9]" PUT "[1]"] s(3) by (auto simp: engine_put_def fits_record_def)
  moreover obtain rs where rs: "wal_ok crc (engine_wal (shared s)) rs" using engine_invD(5) [OF inv] by (auto simp: log_ok_def)
  have "log_reclaim crc (lost_file (whole_writes rs)) through (engine_log (shared s)) =
      install_log (lost_file (whole_writes rs)) (wal_header @ log_bytes crc (filter (\<lambda>x. through < rec_sequence x) rs)) (engine_log (shared s))"
    by (rule log_reclaim_whole) (simp_all add: rs lost_file_def example_calls_def)
  then have "\<exists>f. flush_reclaim_calls crc (lost_file (whole_writes rs)) through (shared s) = Some (Inl (Wal_Call_Failed Reopen_Log), shared s, f)"
    by (simp add: flush_reclaim_calls_def install_log_def lost_file_def example_calls_def)
  ultimately show ?thesis using r w s(2) by blast
qed

section \<open>The guarantees\<close>

lemma reclaiming_state:
  assumes heap: "min_heap ops invar items" and crc: "running_crc crc" and r: "reachable ops crc e s"
    and w: "worker_at s = Reclaiming through" "writer_at s = No_Writer"
  shows "engine_inv crc None (shared s)" and "unat through < covered (shared s)" and "db_path (shared s) = db_path e"
    and "background_error (shared s) = None"
  using reachable_inv [OF heap crc r] reachable_path [OF heap crc r] w by (auto simp: threads_inv_def control_inv_def)

text \<open>Whatever system call of the worker's reclamation fails, no write is lost by the failure
  itself: in every reachable state in which the worker reclaims the log, opening the directory
  after the section, with the log that the path then names, gives the map of the engine. If the
  call succeeded, the engine is the one of the section of Engine and its log is the one at the
  path.\<close>

theorem reclaim_fault_loses_nothing:
  assumes heap: "min_heap ops invar items" and crc: "running_crc crc" and r: "reachable ops crc e s"
    and w: "worker_at s = Reclaiming through" "writer_at s = No_Writer" and p: "db_path e \<noteq> []"
    and mb: "memtable_bytes_from_config mb = Inr target" and trigger: "trigger \<noteq> 0"
    and run: "flush_reclaim_calls crc calls through (shared s) = Some (res, e', f)"
  shows "(\<exists>e''. engine_new crc mb trigger (db_path e) (Some f) (engine_files e') = Inr e'' \<and> started crc e''
      \<and> logical_map crc e'' = logical_map crc (shared s))
    \<and> (res = Inr () \<longrightarrow> flush_reclaim crc through (shared s) = (Inr (), e') \<and> f = wal_file (engine_wal e'))"
proof -
  note st = reclaiming_state [OF heap crc r w]
  have "engine_files e' = engine_files (shared s)" using run by (auto simp: flush_reclaim_calls_def)
  moreover obtain rs where "wal_ok crc (engine_wal (shared s)) rs" using engine_invD(5) [OF st(1)] by (auto simp: log_ok_def)
  ultimately show ?thesis
    using reclaim_calls_restart [OF st(1,2) _ mb trigger run] flush_reclaim_calls_ok run p by (auto simp: st(3))
qed

theorem reclaim_fault_loses_nothing_witness:
  "\<exists>s through writes f e''. reachable list_heap sum_crc example_engine s \<and> worker_at s = Reclaiming through
     \<and> flush_reclaim_calls sum_crc (lost_file writes) through (shared s) = Some (Inl (Wal_Call_Failed Reopen_Log), shared s, f)
     \<and> engine_new sum_crc 1 4 example_path (Some f) (engine_files (shared s)) = Inr e''
     \<and> logical_map sum_crc e'' = logical_map sum_crc (shared s)"
proof -
  have "db_path example_engine = example_path" "db_path example_engine \<noteq> []" "memtable_bytes_from_config 1 = Inr 1048576"
    by (simp_all add: memtable_bytes_from_config_def) (simp_all add: example_engine_def example_path_def)
  then show ?thesis
    using lost_file_reached [OF lh.min_heap_axioms running_crc_sum_crc]
      reclaim_fault_loses_nothing [OF lh.min_heap_axioms running_crc_sum_crc, where trigger = 4 and mb = 1] by fastforce
qed

text \<open>C13: But a write can be lost between the failure and its report. If the worker cannot open the
  log it has renamed into place, the engine goes on with a descriptor of a file that has no name.
  The exception releases \<open>write_mutex_\<close> before the worker records it, so a \<open>put\<close> that waits
  for the mutex finds no error: it is acknowledged and read back, and after a crash, or a shutdown,
  which then reports only the error, it is gone.\<close>

theorem stale_log_loses_put:
  assumes heap: "min_heap ops invar items" and crc: "running_crc crc" and r: "reachable ops crc e s"
    and w: "worker_at s = Reclaiming through" "writer_at s = No_Writer" and p: "db_path e \<noteq> []"
    and mb: "memtable_bytes_from_config mb = Inr target" and trigger: "trigger \<noteq> 0"
    and run: "flush_reclaim_calls crc calls through (shared s) = Some (Inl (Wal_Call_Failed Reopen_Log), e1, f)"
    and put: "engine_put crc Io_Complete key val e1 = Some (Inr (), e2)"
  shows "logical_map crc e2 = (logical_map crc (shared s))(key \<mapsto> val)
    \<and> (\<exists>e3. engine_new crc mb trigger (db_path e) (Some f) (engine_files e2) = Inr e3
        \<and> logical_map crc e3 = logical_map crc (shared s))"
proof -
  note st = reclaiming_state [OF heap crc r w]
  obtain rs where rs: "wal_ok crc (engine_wal (shared s)) rs" using engine_invD(5) [OF st(1)] by (auto simp: log_ok_def)
  have e1: "e1 = shared s" using rs run by (cases rule: flush_reclaim_calls_cases) (auto simp: before_replacing_def)
  have "store_ok crc (shared s)" using st(1,3) p by (simp add: store_ok_def)
  then have "logical_map crc e2 = (logical_map crc (shared s))(key \<mapsto> val)"
    using store_write [of crc "shared s" PUT key val "Inr ()" e2] put by (simp add: e1 engine_put_def)
  moreover have "engine_files e2 = engine_files (shared s)" using put engine_write_files by (auto simp: e1 engine_put_def)
  ultimately show ?thesis using reclaim_calls_restart [OF st(1,2) _ mb trigger run] p by (auto simp: st(3))
qed

theorem stale_log_loses_put_witness:
  "\<exists>s through writes f e2 e3. reachable list_heap sum_crc example_engine s \<and> worker_at s = Reclaiming through
     \<and> flush_reclaim_calls sum_crc (lost_file writes) through (shared s) = Some (Inl (Wal_Call_Failed Reopen_Log), shared s, f)
     \<and> engine_put sum_crc Io_Complete [9] [1] (shared s) = Some (Inr (), e2) \<and> logical_map sum_crc e2 [9] = Some [1]
     \<and> engine_new sum_crc 1 4 example_path (Some f) (engine_files e2) = Inr e3
     \<and> logical_map sum_crc e3 = logical_map sum_crc (shared s)"
proof -
  have "db_path example_engine = example_path" "db_path example_engine \<noteq> []" "memtable_bytes_from_config 1 = Inr 1048576"
    by (simp_all add: memtable_bytes_from_config_def) (simp_all add: example_engine_def example_path_def)
  then show ?thesis
    using lost_file_reached [OF lh.min_heap_axioms running_crc_sum_crc]
      stale_log_loses_put [OF lh.min_heap_axioms running_crc_sum_crc, where trigger = 4 and mb = 1] by fastforce
qed

end
