(* ===== verification/Engine_Lifecycle.thy ===== *)
theory Engine_Lifecycle
  imports Engine
begin

text \<open>
  The end of an engine as its owner sees it, from src/src/engine.cpp: \<open>shutdown\<close> as one call, the
  destructor, and \<open>getMetrics\<close>. What the worker does meanwhile is a parameter, \<open>None\<close> where it
  does not come to an end; Engine_Threads has the same sections interleaved with every thread.
\<close>

section \<open>Shutdown\<close>

text \<open>The worker may work before the final memtable is scheduled and until it is joined.\<close>

definition engine_shutdown :: "(engine \<Rightarrow> engine option) \<Rightarrow> engine \<Rightarrow> ((kerror + unit) \<times> engine) option" where
  "engine_shutdown work e =
     (let (started, e1) = shutdown_begin e
      in if \<not> started then Some (Inr (), e1)
         else
           case work e1 of
             None \<Rightarrow> None
           | Some e2 \<Rightarrow>
               (case shutdown_schedule e2 of
                  None \<Rightarrow> None
                | Some (scheduled, e3) \<Rightarrow>
                    (case work (shutdown_close e3) of
                       None \<Rightarrow> None
                     | Some e4 \<Rightarrow> Some (shutdown_report scheduled e4, e4))))"

text \<open>The destructor drops what \<open>shutdown\<close> reports.\<close>

definition engine_destroy :: "(engine \<Rightarrow> engine option) \<Rightarrow> engine \<Rightarrow> engine option" where
  "engine_destroy work e = map_option snd (engine_shutdown work e)"

section \<open>Metrics\<close>

text \<open>The time is the sum over the compactions, measured outside the model.\<close>

record engine_metrics =
  metric_flush_count :: nat
  metric_compaction_count :: nat
  metric_total_compaction_time :: int
  metric_sstable_count :: nat

definition get_metrics :: "int \<Rightarrow> engine \<Rightarrow> engine_metrics" where
  "get_metrics compaction_time e =
     \<lparr>metric_flush_count = flush_count e, metric_compaction_count = compaction_count e,
      metric_total_compaction_time = compaction_time, metric_sstable_count = length (live_files (engine_manifest e))\<rparr>"

section \<open>Calling shutdown again\<close>

text \<open>A second call, by the owner or the destructor, returns at once, whatever the first reported.\<close>

lemma shutdown_twice: "shutting_down e \<Longrightarrow> engine_shutdown work e = Some (Inr (), e)"
  by (simp add: engine_shutdown_def shutdown_begin_def)

lemma shutdown_sets_flag:
  assumes "engine_shutdown work e = Some (r, e')" and "\<And>x y. work x = Some y \<Longrightarrow> shutting_down x \<Longrightarrow> shutting_down y"
  shows "shutting_down e'"
  using assms
  by (auto simp: engine_shutdown_def shutdown_begin_def shutdown_schedule_def shutdown_close_def Let_def
      split: if_splits option.splits prod.splits)

lemma destroy_after_shutdown:
  assumes "engine_shutdown work e = Some (r, e')" and "\<And>x y. work x = Some y \<Longrightarrow> shutting_down x \<Longrightarrow> shutting_down y"
  shows "engine_destroy work e' = Some e'"
  using shutdown_sets_flag [OF assms] by (simp add: engine_destroy_def shutdown_twice)

text \<open>A failure of the worker is reported, unless scheduling the final memtable has failed before.\<close>

lemma shutdown_reports:
  assumes "engine_shutdown work e = Some (r, e')" and "\<not> shutting_down e" and "background_error e' = Some err"
  shows "\<exists>x. r = Inl x"
  using assms by (auto simp: engine_shutdown_def shutdown_begin_def shutdown_report_def split: option.splits prod.splits sum.splits)

end
