(* ===== verification/Benchmark.thy ===== *)
theory Benchmark
  imports Manifest Double_Arithmetic "HOL-Library.Signed_Division"
begin

text \<open>
  src/src/bench.cpp and the program src/tools/chronos_bench.cpp: a deterministic workload, written
  to a store and read back, with the latency of every operation measured and summarised. The store
  is a parameter, so that the operations of the engine can be put in with whatever its worker does
  between two calls. A \<open>put\<close> that waits for ever is \<open>None\<close>.

  Two parameters stand for code outside the repository: \<open>shuffle\<close> is \<open>std::shuffle\<close> with a
  Mersenne twister seeded with 12345, whose result the C++ standard fixes only up to being a
  permutation, and \<open>now\<close> gives the readings of \<open>steady_clock\<close> in nanoseconds, in the order in
  which they are taken. Latencies and their sum are mathematical integers: the sum of a run
  overflows \<open>int64_t\<close> after 292 years.
\<close>

section \<open>Workload\<close>

record benchmark_config =
  operation_count :: u64
  value_size :: u64

definition default_benchmark :: benchmark_config where
  "default_benchmark = \<lparr>operation_count = 25000, value_size = 256\<rparr>"

definition workload_key :: "nat \<Rightarrow> bytes" where
  "workload_key i = map of_char ''key_'' @ decimal i"

definition generate_workload ::
  "((bytes \<times> bytes) list \<Rightarrow> (bytes \<times> bytes) list) \<Rightarrow> u64 \<Rightarrow> u64 \<Rightarrow> (bytes \<times> bytes) list" where
  "generate_workload shuffle operations len =
     shuffle (map (\<lambda>i. (workload_key i, replicate (unat len) 0x78)) [0..<unat operations])"

section \<open>Statistics\<close>

text \<open>The latency at the rank $\lceil p n \rceil$, computed in double arithmetic; ranks count from one.\<close>

definition percentile :: "double \<Rightarrow> int list \<Rightarrow> int" where
  "percentile p sorted_latencies =
     sorted_latencies ! unat (of_nat (double_ceil (double_times p (double_of (length sorted_latencies)))) - 1 :: u64)"

record benchmark_result =
  elapsed_time :: int
  throughput_ops_per_sec :: "double option"
  mean_latency :: int
  p50_latency :: int
  p95_latency :: int
  p99_latency :: int
  max_latency :: int

text \<open>Operations per second; \<open>None\<close> is the infinity of a run that took no time.\<close>

definition throughput :: "u64 \<Rightarrow> int \<Rightarrow> double option" where
  "throughput operations elapsed =
     (case double_divide (double_of (nat elapsed)) (double_of 1000000000) of
        None \<Rightarrow> None
      | Some elapsed_seconds \<Rightarrow> double_divide (double_of (unat operations)) elapsed_seconds)"

text \<open>What both benchmarks compute after the measured part. The mean is an integer division that
  truncates towards zero.\<close>

definition summarize :: "u64 \<Rightarrow> int \<Rightarrow> int list \<Rightarrow> benchmark_result" where
  "summarize operations elapsed latencies =
     (let sorted_latencies = sort latencies;
          total_latency_ns = sum_list sorted_latencies
      in \<lparr>elapsed_time = elapsed,
          throughput_ops_per_sec = throughput operations elapsed,
          mean_latency = total_latency_ns sdiv int (length sorted_latencies),
          p50_latency = percentile (double_literal 50 100) sorted_latencies,
          p95_latency = percentile (double_literal 95 100) sorted_latencies,
          p99_latency = percentile (double_literal 99 100) sorted_latencies,
          max_latency = last sorted_latencies\<rparr>)"

section \<open>The write benchmark\<close>

datatype bench_error = Zero_Operations | Key_Not_Found bytes | Wrong_Value bytes | Store_Failed kerror

text \<open>\<open>i\<close> counts the readings of the clock.\<close>

fun put_all ::
  "(bytes \<Rightarrow> bytes \<Rightarrow> 's \<Rightarrow> ((kerror + unit) \<times> 's) option) \<Rightarrow> (nat \<Rightarrow> int) \<Rightarrow> nat \<Rightarrow> int list \<Rightarrow>
   (bytes \<times> bytes) list \<Rightarrow> 's \<Rightarrow> ((bench_error + int list) \<times> 's) option" where
  "put_all put now i latencies [] s = Some (Inr latencies, s)"
| "put_all put now i latencies ((key, val) # workload) s =
     (case put key val s of
        None \<Rightarrow> None
      | Some (Inl err, s') \<Rightarrow> Some (Inl (Store_Failed err), s')
      | Some (Inr _, s') \<Rightarrow>
          put_all put now (i + 2) (latencies @ [now (i + 1) - now i]) workload s')"

definition run_write_benchmark ::
  "(bytes \<Rightarrow> bytes \<Rightarrow> 's \<Rightarrow> ((kerror + unit) \<times> 's) option) \<Rightarrow>
   ((bytes \<times> bytes) list \<Rightarrow> (bytes \<times> bytes) list) \<Rightarrow> (nat \<Rightarrow> int) \<Rightarrow> benchmark_config \<Rightarrow> 's \<Rightarrow>
   ((bench_error + benchmark_result) \<times> 's) option" where
  "run_write_benchmark put shuffle now config s =
     (if operation_count config = 0 then Some (Inl Zero_Operations, s)
      else
        let workload = generate_workload shuffle (operation_count config) (value_size config)
        in case put_all put now 1 [] workload s of
             None \<Rightarrow> None
           | Some (Inl err, s') \<Rightarrow> Some (Inl err, s')
           | Some (Inr latencies, s') \<Rightarrow>
               Some (Inr (summarize (operation_count config) (now (2 * length workload + 1) - now 0) latencies), s'))"

section \<open>The read benchmark\<close>

fun get_all ::
  "(bytes \<Rightarrow> 's \<Rightarrow> (kerror + get_result) \<times> 's) \<Rightarrow> (nat \<Rightarrow> int) \<Rightarrow> nat \<Rightarrow> int list \<Rightarrow>
   (bytes \<times> bytes) list \<Rightarrow> 's \<Rightarrow> (bench_error + int list) \<times> 's" where
  "get_all get now i latencies [] s = (Inr latencies, s)"
| "get_all get now i latencies ((key, expected_value) # workload) s =
     (case get key s of
        (Inl err, s') \<Rightarrow> (Inl (Store_Failed err), s')
      | (Inr result, s') \<Rightarrow>
          if result_status result \<noteq> FOUND then (Inl (Key_Not_Found key), s')
          else if result_value result \<noteq> expected_value then (Inl (Wrong_Value key), s')
          else get_all get now (i + 2) (latencies @ [now (i + 1) - now i]) workload s')"

definition run_read_benchmark ::
  "(bytes \<Rightarrow> 's \<Rightarrow> (kerror + get_result) \<times> 's) \<Rightarrow>
   ((bytes \<times> bytes) list \<Rightarrow> (bytes \<times> bytes) list) \<Rightarrow> (nat \<Rightarrow> int) \<Rightarrow> benchmark_config \<Rightarrow> 's \<Rightarrow>
   (bench_error + benchmark_result) \<times> 's" where
  "run_read_benchmark get shuffle now config s =
     (if operation_count config = 0 then (Inl Zero_Operations, s)
      else
        let workload = generate_workload shuffle (operation_count config) (value_size config)
        in case get_all get now 1 [] workload s of
             (Inl err, s') \<Rightarrow> (Inl err, s')
           | (Inr latencies, s') \<Rightarrow>
               (Inr (summarize (operation_count config) (now (2 * length workload + 1) - now 0) latencies), s'))"

section \<open>The benchmark program\<close>

text \<open>
  \<open>main\<close> of chronos_bench.cpp without its output: an engine on a fresh directory, the write
  benchmark, \<open>shutdown\<close>; then an engine on the directory that was left, the read benchmark and
  \<open>shutdown\<close>. The value is the exit status with the two results or the exception; the
  destructors at the end of the two scopes call \<open>shutdown\<close> again, which does nothing.
\<close>

definition chronos_bench ::
  "(kerror + 's) \<Rightarrow> ('s \<Rightarrow> kerror + 's) \<Rightarrow> ('s \<Rightarrow> ((kerror + unit) \<times> 's) option) \<Rightarrow>
   (bytes \<Rightarrow> bytes \<Rightarrow> 's \<Rightarrow> ((kerror + unit) \<times> 's) option) \<Rightarrow> (bytes \<Rightarrow> 's \<Rightarrow> (kerror + get_result) \<times> 's) \<Rightarrow>
   ((bytes \<times> bytes) list \<Rightarrow> (bytes \<times> bytes) list) \<Rightarrow> (nat \<Rightarrow> int) \<Rightarrow> (nat \<Rightarrow> int) \<Rightarrow> benchmark_config \<Rightarrow>
   (int \<times> (bench_error + benchmark_result \<times> benchmark_result)) option" where
  "chronos_bench fresh reopen shutdown put get shuffle now1 now2 config =
     (case fresh of
        Inl err \<Rightarrow> Some (1, Inl (Store_Failed err))
      | Inr s0 \<Rightarrow>
          (case run_write_benchmark put shuffle now1 config s0 of
             None \<Rightarrow> None
           | Some (Inl err, _) \<Rightarrow> Some (1, Inl err)
           | Some (Inr write_result, s1) \<Rightarrow>
               (case shutdown s1 of
                  None \<Rightarrow> None
                | Some (Inl err, _) \<Rightarrow> Some (1, Inl (Store_Failed err))
                | Some (Inr _, s2) \<Rightarrow>
                    (case reopen s2 of
                       Inl err \<Rightarrow> Some (1, Inl (Store_Failed err))
                     | Inr s3 \<Rightarrow>
                         (case run_read_benchmark get shuffle now2 config s3 of
                            (Inl err, _) \<Rightarrow> Some (1, Inl err)
                          | (Inr read_result, s4) \<Rightarrow>
                              (case shutdown s4 of
                                 None \<Rightarrow> None
                               | Some (Inl err, _) \<Rightarrow> Some (1, Inl (Store_Failed err))
                               | Some (Inr _, _) \<Rightarrow> Some (0, Inr (write_result, read_result))))))))"

end
