(* ===== verification/Benchmark_Properties.thy ===== *)
theory Benchmark_Properties
  imports Benchmark Engine_Properties Engine_Concurrency Engine_Lifecycle "HOL-Library.Multiset"
begin

text \<open>
  What the benchmark reports, and that the reads of the benchmark program find what its writes
  stored: an interface for the store it measures, with the program verified inside it, and the
  engine as such a store.
\<close>

section \<open>Percentiles\<close>

text \<open>The factors of the code as doubles. The two that are not exact are off by at most half a
  unit in the last place.\<close>

lemma percentile_factors:
  "double_literal 50 100 = (4503599627370496, - 53)"
  "double_literal 95 100 = (8556839292003942, - 53)"
  "double_literal 99 100 = (8917127262193582, - 53)"
  by (simp_all add: double_literal_def rounded_def round_even_def)

lemma percentile_fractions:
  "near_fraction 4503599627370496 50 100 0"
  "near_fraction 8556839292003942 95 100 40"
  "near_fraction 8917127262193582 99 100 8"
  by (simp_all add: near_fraction_def)

definition percents :: "nat set" where "percents = {50, 95, 99}"

lemma percentile_rank:
  assumes "q \<in> percents" and "0 < n" "n < 2 ^ 44"
  shows "double_ceil (double_times (double_literal q 100) (double_of n)) = (q * n + 99) div 100"
  using assms(1) ceil_of_fraction [OF percentile_fractions(1) assms(2,3)]
    ceil_of_fraction [OF percentile_fractions(2) assms(2,3)] ceil_of_fraction [OF percentile_fractions(3) assms(2,3)]
  by (auto simp: percents_def percentile_factors)

lemma percentile_nth:
  assumes "q \<in> percents" and "0 < length xs" "length xs < 2 ^ 44"
  shows "percentile (double_literal q 100) xs = xs ! ((q * length xs + 99) div 100 - 1)"
    and "0 < (q * length xs + 99) div 100" "(q * length xs + 99) div 100 \<le> length xs"
proof -
  let ?r = "(q * length xs + 99) div 100"
  have q: "1 \<le> q" "q \<le> 99" using assms(1) by (auto simp: percents_def)
  have "1 * 1 \<le> q * length xs" using q(1) assms(2) by (intro mult_le_mono) (simp_all add: Suc_le_eq)
  then show pos: "0 < ?r" by (simp add: div_greater_zero_iff)
  have "q * length xs + 99 < 100 * length xs + 100" using q(2) by (simp add: add_le_less_mono mult_le_mono1)
  then have "?r < length xs + 1" by (simp add: less_mult_imp_div_less algebra_simps)
  then show le: "?r \<le> length xs" by simp
  have "?r - 1 < 2 ^ 64" using le assms(3) by simp
  moreover have "(of_nat ?r :: u64) - 1 = of_nat (?r - 1)" using pos by (simp add: of_nat_diff)
  ultimately have "unat ((of_nat ?r :: u64) - 1) = ?r - 1" by (simp add: unat_of_nat take_bit_nat_eq_self)
  then show "percentile (double_literal q 100) xs = xs ! (?r - 1)"
    unfolding percentile_def percentile_rank [OF assms] by simp
qed

lemma percent_rank:
  fixes m :: nat
  shows "m \<le> 100 * ((m + 99) div 100)" and "0 < (m + 99) div 100 \<Longrightarrow> 100 * ((m + 99) div 100 - 1) < m"
  by linarith+

text \<open>The element of rank \<open>r\<close> of a sorted list, with at least \<open>r\<close> elements up to it and fewer than
  \<open>r\<close> below it.\<close>

lemma ranked:
  assumes "sorted xs" and "i < length xs"
  shows "Suc i \<le> length (filter (\<lambda>x. x \<le> xs ! i) xs)" and "length (filter (\<lambda>x. x < xs ! i) xs) \<le> i"
proof -
  have "{0..i} \<subseteq> {j. j < length xs \<and> xs ! j \<le> xs ! i}"
    using assms by (auto intro: sorted_nth_mono)
  then have "card {0..i} \<le> card {j. j < length xs \<and> xs ! j \<le> xs ! i}" by (intro card_mono) simp_all
  then show "Suc i \<le> length (filter (\<lambda>x. x \<le> xs ! i) xs)" by (simp add: length_filter_conv_card)
  have "{j. j < length xs \<and> xs ! j < xs ! i} \<subseteq> {0..<i}"
    using sorted_nth_mono [OF assms(1)] by (auto simp: not_le [symmetric])
  then have "card {j. j < length xs \<and> xs ! j < xs ! i} \<le> card {0..<i}" by (intro card_mono) simp_all
  then show "length (filter (\<lambda>x. x < xs ! i) xs) \<le> i" by (simp add: length_filter_conv_card)
qed

text \<open>C40: The percentiles the benchmarks report are exactly the nearest-rank percentiles, although
  the rank is computed in double arithmetic with factors that are not exact: with fewer than
  $2^{44}$ samples, the value is one of the samples, at least q per cent of the samples are no
  larger, and less than q per cent of them are smaller.\<close>

theorem percentile_nearest_rank:
  assumes "q \<in> percents" and "xs \<noteq> []" and "length xs < 2 ^ 44"
  shows "percentile (double_literal q 100) (sort xs) \<in> set xs
    \<and> q * length xs \<le> 100 * length (filter (\<lambda>x. x \<le> percentile (double_literal q 100) (sort xs)) xs)
    \<and> 100 * length (filter (\<lambda>x. x < percentile (double_literal q 100) (sort xs)) xs) < q * length xs"
proof -
  let ?r = "(q * length xs + 99) div 100"
  have len: "0 < length (sort xs)" "length (sort xs) < 2 ^ 44" using assms by simp_all
  note p = percentile_nth [OF assms(1) len, unfolded length_sort]
  have i: "?r - 1 < length (sort xs)" using p(2,3) by simp
  have same: "length (filter P (sort xs)) = length (filter P xs)" for P :: "int \<Rightarrow> bool"
    by (simp flip: size_mset add: mset_filter)
  note rk = ranked [OF sorted_sort i, folded p(1), unfolded same]
  have "q * length xs \<le> 100 * ?r" "100 * (?r - 1) < q * length xs"
    using percent_rank [of "q * length xs"] p(2) by simp_all
  moreover have "100 * ?r \<le> 100 * length (filter (\<lambda>x. x \<le> percentile (double_literal q 100) (sort xs)) xs)"
    using rk(1) p(2) by simp
  moreover have "100 * length (filter (\<lambda>x. x < percentile (double_literal q 100) (sort xs)) xs) \<le> 100 * (?r - 1)"
    using rk(2) by simp
  moreover have "percentile (double_literal q 100) (sort xs) \<in> set xs" using nth_mem [OF i] unfolding p(1) by simp
  ultimately show ?thesis by (meson le_less_trans order_trans)
qed

theorem percentile_nearest_rank_witness:
  "percentile (double_literal 95 100) (sort [30, 10, 20]) \<in> {10, 20, 30 :: int}"
  using percentile_nearest_rank [of 95 "[30, 10, 20]"] by (simp add: percents_def insert_commute)

section \<open>The interface of the measured store\<close>

text \<open>What the benchmarks rely on: a \<open>put\<close> that returns has stored its value, a \<open>get\<close> answers from
  what is stored, and \<open>shutdown\<close> and opening again keep it.\<close>

text \<open>Both benchmarks use the same records, whatever the order they are shuffled into.\<close>

definition holds_workload :: "benchmark_config \<Rightarrow> (bytes \<Rightarrow> bytes option) \<Rightarrow> bool" where
  "holds_workload config f \<longleftrightarrow>
     (\<forall>i < unat (operation_count config). f (workload_key i) = Some (replicate (unat (value_size config)) 0x78))"

lemma put_all_error: "put_all put now i ls workload s = Some (Inl x, s') \<Longrightarrow> \<exists>y. x = Store_Failed y"
proof (induction workload arbitrary: i ls s)
  case (Cons w workload)
  then show ?case by (cases w) (auto split: option.splits prod.splits sum.splits)
qed simp

locale benchmark_store =
  fixes ok :: "'s \<Rightarrow> bool" and content :: "'s \<Rightarrow> bytes \<Rightarrow> bytes option"
    and put :: "bytes \<Rightarrow> bytes \<Rightarrow> 's \<Rightarrow> ((kerror + unit) \<times> 's) option"
    and get :: "bytes \<Rightarrow> 's \<Rightarrow> (kerror + get_result) \<times> 's"
  assumes put_ok: "ok s \<Longrightarrow> put k v s = Some (Inr u, s') \<Longrightarrow> ok s' \<and> content s' = (content s)(k \<mapsto> v)"
    and get_ok: "ok s \<Longrightarrow>
      \<exists>r s'. get k s = (Inr r, s') \<and> answer_value r = content s k \<and> ok s' \<and> content s' = content s"
begin

lemma put_all_stores:
  assumes "ok s" and "put_all put now i ls workload s = Some (Inr ls', s')" and "\<forall>x\<in>set workload. snd x = val"
  shows "ok s' \<and> content s' = (\<lambda>k. if k \<in> fst ` set workload then Some val else content s k)
    \<and> length ls' = length ls + length workload"
  using assms
proof (induction workload arbitrary: i ls s)
  case (Cons x workload)
  obtain key where x: "x = (key, val)" using Cons(4) by (cases x) simp
  obtain u s1 where p: "put key val s = Some (Inr u, s1)"
    "put_all put now (i + 2) (ls @ [now (i + 1) - now i]) workload s1 = Some (Inr ls', s')"
    using Cons(3) x by (auto split: option.splits prod.splits sum.splits)
  note s1 = put_ok [OF Cons(2) p(1)]
  from Cons(1) [OF conjunct1 [OF s1] p(2)] s1 Cons(4) show ?case by (auto simp: x fun_eq_iff)
qed simp

lemma get_all_finds:
  assumes "ok s" and "\<forall>x\<in>set workload. content s (fst x) = Some (snd x)"
  shows "\<exists>ls' s'. get_all get now i ls workload s = (Inr ls', s') \<and> ok s' \<and> content s' = content s
    \<and> length ls' = length ls + length workload"
  using assms
proof (induction workload arbitrary: i ls s)
  case (Cons x workload)
  obtain key val where x: "x = (key, val)" by fastforce
  obtain r s1 where g: "get key s = (Inr r, s1)" "answer_value r = content s key" "ok s1" "content s1 = content s"
    using get_ok [OF Cons(2)] by blast
  have "answer_value r = Some val" using g(2) Cons(3) x by simp
  then have "result_status r = FOUND" "result_value r = val" by (simp_all add: answer_value_def split: if_splits)
  then show ?case
    using Cons(1) [OF g(3), of "i + 2" "ls @ [now (i + 1) - now i]"] Cons(3) g x by auto
qed simp

lemma workload_records:
  assumes "\<And>xs. mset (shuffle xs) = mset xs"
  shows "set (generate_workload shuffle n len) = (\<lambda>i. (workload_key i, replicate (unat len) 0x78)) ` {0..<unat n}"
    and "length (generate_workload shuffle n len) = unat n"
proof -
  have "mset (generate_workload shuffle n len) = mset (map (\<lambda>i. (workload_key i, replicate (unat len) 0x78)) [0..<unat n])"
    unfolding generate_workload_def by (rule assms)
  from mset_eq_setD [OF this] mset_eq_length [OF this]
  show "set (generate_workload shuffle n len) = (\<lambda>i. (workload_key i, replicate (unat len) 0x78)) ` {0..<unat n}"
    and "length (generate_workload shuffle n len) = unat n" by simp_all
qed

lemma write_benchmark_fills:
  assumes "\<And>xs. mset (shuffle xs) = mset xs" and "ok s"
    and "run_write_benchmark put shuffle now config s = Some (Inr res, s')"
  shows "ok s' \<and> holds_workload config (content s')"
proof -
  let ?w = "generate_workload shuffle (operation_count config) (value_size config)"
  obtain ls where p: "put_all put now 1 [] ?w s = Some (Inr ls, s')"
    using assms(3) by (auto simp: run_write_benchmark_def Let_def split: if_splits option.splits prod.splits sum.splits)
  note w = workload_records(1) [OF assms(1), of "operation_count config" "value_size config"]
  have "\<forall>x\<in>set ?w. snd x = replicate (unat (value_size config)) 0x78" unfolding w by auto
  note st = put_all_stores [OF assms(2) p this]
  have "workload_key i \<in> fst ` set ?w" if "i < unat (operation_count config)" for i
    unfolding w using that by (auto simp: image_image)
  then show ?thesis using st by (simp add: holds_workload_def)
qed

lemma read_benchmark_succeeds:
  assumes "\<And>xs. mset (shuffle xs) = mset xs" and "ok s" and "holds_workload config (content s)" and "operation_count config \<noteq> 0"
  shows "\<exists>res s'. run_read_benchmark get shuffle now config s = (Inr res, s') \<and> ok s' \<and> content s' = content s"
proof -
  let ?w = "generate_workload shuffle (operation_count config) (value_size config)"
  have "\<forall>x\<in>set ?w. content s (fst x) = Some (snd x)"
    unfolding workload_records(1) [OF assms(1)] using assms(3) by (auto simp: holds_workload_def)
  from get_all_finds [OF assms(2) this, of now 1 "[]"] show ?thesis
    using assms(4) by (auto simp: run_read_benchmark_def Let_def)
qed

end

locale benchmark_database = benchmark_store ok content put get
  for ok :: "'s \<Rightarrow> bool" and content :: "'s \<Rightarrow> bytes \<Rightarrow> bytes option"
    and put :: "bytes \<Rightarrow> bytes \<Rightarrow> 's \<Rightarrow> ((kerror + unit) \<times> 's) option"
    and get :: "bytes \<Rightarrow> 's \<Rightarrow> (kerror + get_result) \<times> 's" +
  fixes stop :: "'s \<Rightarrow> ((kerror + unit) \<times> 's) option" and valid :: "'c \<Rightarrow> bool" and reopen :: "'c \<Rightarrow> 's \<Rightarrow> kerror + 's"
  assumes stop_ok: "ok s \<Longrightarrow> stop s = Some (r, s') \<Longrightarrow> ok s' \<and> content s' = content s"
    and reopen_ok: "ok s \<Longrightarrow> valid c \<Longrightarrow> \<exists>s'. reopen c s = Inr s' \<and> ok s' \<and> content s' = content s"
begin

text \<open>The reads of the program never fail.\<close>

lemma program_reads_succeed:
  assumes sh: "\<And>xs. mset (shuffle xs) = mset xs" and s: "ok s" "valid c" and n: "operation_count config \<noteq> 0"
    and run: "chronos_bench (Inr s) (reopen c) stop put get shuffle now1 now2 config = Some (status, Inl err)"
  shows "status = 1 \<and> (\<exists>x. err = Store_Failed x)"
proof (cases "run_write_benchmark put shuffle now1 config s")
  case (Some a)
  show ?thesis
  proof (cases "fst a")
    case (Inl x)
    have "\<exists>y. x = Store_Failed y"
      using put_all_error Inl Some n
      by (cases a) (fastforce simp: run_write_benchmark_def Let_def split: option.splits prod.splits sum.splits)
    then show ?thesis using run Some Inl by (cases a) (auto simp: chronos_bench_def)
  next
    case (Inr w)
    obtain s1 where a: "a = (Inr w, s1)" using Inr by (cases a) simp
    note s1 = write_benchmark_fills [OF sh s(1) Some [unfolded a]]
    show ?thesis
    proof (cases "stop s1")
      case (Some b)
      obtain r s2 where b: "b = (r, s2)" by fastforce
      note s2 = stop_ok [OF conjunct1 [OF s1] Some [unfolded b]]
      obtain s3 where s3: "reopen c s2 = Inr s3" "ok s3" "content s3 = content s2" using reopen_ok [OF _ s(2)] s2 by blast
      have "holds_workload config (content s3)" using s1 s2 s3 by (simp add: holds_workload_def)
      from read_benchmark_succeeds [OF sh s3(2) this n] obtain res s4 where
        "run_read_benchmark get shuffle now2 config s3 = (Inr res, s4)" by blast
      then show ?thesis
        using run Some \<open>run_write_benchmark put shuffle now1 config s = Some a\<close> a b s3
        by (auto simp: chronos_bench_def split: sum.splits option.splits prod.splits)
    qed (use run Some a in \<open>auto simp: chronos_bench_def\<close>)
  qed
qed (use run in \<open>simp add: chronos_bench_def\<close>)

end

section \<open>The engine as the measured store\<close>

text \<open>
  The benchmarks call the engine from one thread while the worker runs beside them. The store here
  is an engine together with what the worker does between two calls, any function of the engine
  that keeps the invariant and the map, which every step of the worker does; \<open>None\<close> is a worker
  that does not get that far. In \<open>shutdown\<close> it may work before the final memtable is scheduled
  and until it is joined.
\<close>

type_synonym worked_engine = "engine \<times> (engine \<Rightarrow> engine option)"

definition keeps_store :: "crc_fn \<Rightarrow> (engine \<Rightarrow> engine option) \<Rightarrow> bool" where
  "keeps_store crc work \<longleftrightarrow>
     (\<forall>e e'. store_ok crc e \<longrightarrow> work e = Some e' \<longrightarrow> store_ok crc e' \<and> logical_map crc e' = logical_map crc e
       \<and> (shutting_down e \<longrightarrow> shutting_down e'))"

definition worked_put :: "crc_fn \<Rightarrow> bytes \<Rightarrow> bytes \<Rightarrow> worked_engine \<Rightarrow> ((kerror + unit) \<times> worked_engine) option" where
  "worked_put crc key val s =
     (case snd s (fst s) of
        None \<Rightarrow> None
      | Some e \<Rightarrow> (case engine_put crc Io_Complete key val e of None \<Rightarrow> None | Some (r, e') \<Rightarrow> Some (r, (e', snd s))))"

definition worked_get :: "crc_fn \<Rightarrow> bytes \<Rightarrow> worked_engine \<Rightarrow> (kerror + get_result) \<times> worked_engine" where
  "worked_get crc key s = (case engine_get crc key (fst s) of (r, e) \<Rightarrow> (r, (e, snd s)))"

definition worked_shutdown :: "worked_engine \<Rightarrow> ((kerror + unit) \<times> worked_engine) option" where
  "worked_shutdown s = (case engine_shutdown (snd s) (fst s) of None \<Rightarrow> None | Some (r, e) \<Rightarrow> Some (r, (e, snd s)))"

definition worked_reopen :: "crc_fn \<Rightarrow> int \<times> u64 \<Rightarrow> worked_engine \<Rightarrow> kerror + worked_engine" where
  "worked_reopen crc c s = (case reopen_engine crc c (fst s) of Inl err \<Rightarrow> Inl err | Inr e \<Rightarrow> Inr (e, snd s))"

definition worked_ok :: "crc_fn \<Rightarrow> worked_engine \<Rightarrow> bool" where
  "worked_ok crc s \<longleftrightarrow> store_ok crc (fst s) \<and> keeps_store crc (snd s)"

definition worked_map :: "crc_fn \<Rightarrow> worked_engine \<Rightarrow> bytes \<Rightarrow> bytes option" where
  "worked_map crc s = logical_map crc (fst s)"

lemma store_control:
  assumes "store_ok crc e"
    and "db_path e' = db_path e" "engine_wal e' = engine_wal e" "active_memtable e' = active_memtable e"
      "immutable_memtable e' = immutable_memtable e" "engine_manifest e' = engine_manifest e"
      "sstable_readers e' = sstable_readers e" "engine_files e' = engine_files e" "shutting_down e \<Longrightarrow> shutting_down e'"
  shows "store_ok crc e' \<and> logical_map crc e' = logical_map crc e"
proof -
  have "engine_inv crc None e" using assms(1) by (simp add: store_ok_def)
  note c = engine_inv_control [OF this assms(2-9)]
  show ?thesis using c(1) logical_map_view [OF c(2)] assms(1,2) by (simp add: store_ok_def)
qed

lemma store_schedule:
  assumes ok: "store_ok crc e" and sd: "shutting_down e" and run: "shutdown_schedule e = Some (r, e')"
  shows "store_ok crc e' \<and> logical_map crc e' = logical_map crc e"
proof (cases "\<exists>m. active_memtable e = Some m \<and> 0 < entry_count m \<and> background_error e = None")
  case True
  then obtain m where m: "active_memtable e = Some m" "0 < entry_count m" "background_error e = None" by blast
  have inv: "engine_inv crc None e" using ok by (simp add: store_ok_def)
  have i: "immutable_memtable e = None" using run m(3) by (auto simp: shutdown_schedule_def split: if_splits)
  have fz: "memtable_freeze m = (True, frozen m)"
    using engine_invD(1) [OF inv] m(1) by (auto simp: memory_ok_def memtable_freeze_def)
  have e': "e' = e\<lparr>immutable_memtable := Some (frozen m), active_memtable := None,
      flush_queue := snd (tq_push (frozen m) (flush_queue e))\<rparr>"
    using run i m fz by (auto simp: shutdown_schedule_def Let_def split: prod.splits if_splits)
  note f = freeze_inv [OF inv m(1) i m(2) _ e']
  show ?thesis using f(1,2) sd logical_map_view [of crc e' e] ok by (auto simp: store_ok_def e')
next
  case False
  then have "e' = e" using run by (auto simp: shutdown_schedule_def split: if_splits option.splits)
  then show ?thesis using ok by simp
qed

lemma keeps_storeD:
  assumes "keeps_store crc work" and "store_ok crc e" and "work e = Some e'"
  shows "store_ok crc e'" and "logical_map crc e' = logical_map crc e" and "shutting_down e \<Longrightarrow> shutting_down e'"
  using assms unfolding keeps_store_def by blast+

lemma store_shutdown:
  assumes ok: "store_ok crc e" and work: "keeps_store crc work" and run: "engine_shutdown work e = Some (r, e')"
  shows "store_ok crc e' \<and> logical_map crc e' = logical_map crc e"
proof (cases "shutting_down e")
  case True
  then show ?thesis using run ok by (simp add: engine_shutdown_def shutdown_begin_def)
next
  case False
  let ?e1 = "e\<lparr>shutting_down := True\<rparr>"
  obtain e2 r2 e3 where s: "work ?e1 = Some e2" "shutdown_schedule e2 = Some (r2, e3)" "work (shutdown_close e3) = Some e'"
    using run False by (auto simp: engine_shutdown_def shutdown_begin_def split: option.splits)
  have 1: "store_ok crc ?e1 \<and> logical_map crc ?e1 = logical_map crc e" by (rule store_control [OF ok]) simp_all
  note 2 = keeps_storeD [OF work conjunct1 [OF 1] s(1)]
  have sd: "shutting_down e2" by (rule 2(3)) simp
  have 3: "store_ok crc e3 \<and> logical_map crc e3 = logical_map crc e2" by (rule store_schedule [OF 2(1) sd s(2)])
  have 4: "store_ok crc (shutdown_close e3) \<and> logical_map crc (shutdown_close e3) = logical_map crc e3"
    by (rule store_control [OF conjunct1 [OF 3]]) (simp_all add: shutdown_close_def)
  note 5 = keeps_storeD [OF work conjunct1 [OF 4] s(3)]
  show ?thesis using 1 2(2) 3 4 5(1,2) by simp
qed

interpretation bench: benchmark_database "worked_ok crc" "worked_map crc" "worked_put crc" "worked_get crc"
  worked_shutdown valid_settings "worked_reopen crc"
proof unfold_locales
  fix s k v u s'
  assume ok: "worked_ok crc s" and run: "worked_put crc k v s = Some (Inr u, s')"
  obtain e e' where e: "snd s (fst s) = Some e" "update_engine crc k (Some v) e = Some (Inr u, e')" "s' = (e', snd s)"
    using run by (auto simp: worked_put_def update_engine_def split: option.splits)
  have "keeps_store crc (snd s)" "store_ok crc (fst s)" using ok by (simp_all add: worked_ok_def)
  from keeps_storeD(1,2) [OF this e(1)] have "store_ok crc e" "logical_map crc e = worked_map crc s"
    by (simp_all add: worked_map_def)
  then show "worked_ok crc s' \<and> worked_map crc s' = (worked_map crc s)(k \<mapsto> v)"
    using kv.update_ok [OF _ e(2)] ok e(3) by (auto simp: worked_ok_def worked_map_def)
next
  fix s k
  assume ok: "worked_ok crc s"
  then have e: "store_ok crc (fst s)" by (simp add: worked_ok_def)
  obtain e' where "lookup_engine crc k (fst s) = (Inr (logical_map crc (fst s) k), e')" "store_ok crc e'"
    "logical_map crc e' = logical_map crc (fst s)" using kv.lookup_ok [OF e] by blast
  then show "\<exists>r s'. worked_get crc k s = (Inr r, s') \<and> answer_value r = worked_map crc s k \<and> worked_ok crc s'
      \<and> worked_map crc s' = worked_map crc s"
    using ok by (auto simp: lookup_engine_def worked_get_def worked_ok_def worked_map_def split: prod.splits sum.splits)
next
  fix s r s'
  assume "worked_ok crc s" and "worked_shutdown s = Some (r, s')"
  then show "worked_ok crc s' \<and> worked_map crc s' = worked_map crc s"
    using store_shutdown by (fastforce simp: worked_shutdown_def worked_ok_def worked_map_def split: option.splits)
next
  fix s and c :: "int \<times> u64"
  assume "worked_ok crc s" and "valid_settings c"
  then show "\<exists>s'. worked_reopen crc c s = Inr s' \<and> worked_ok crc s' \<and> worked_map crc s' = worked_map crc s"
    using kv.reopen_ok by (fastforce simp: worked_reopen_def worked_ok_def worked_map_def)
qed

definition same_place :: "engine \<Rightarrow> engine \<Rightarrow> bool" where
  "same_place e e' \<longleftrightarrow> shutting_down e' = shutting_down e \<and> db_path e' = db_path e"

lemma same_place_allocate: "allocate_sstable_path level e = Some (p, e') \<Longrightarrow> same_place e e'"
  using allocate_SomeD [of level e p e'] by (auto simp: same_place_def)

lemma same_place_flush: "flush_build crc io m e = Some (r, e') \<Longrightarrow> same_place e e'"
  by (auto simp: flush_build_def Let_def same_place_def dest!: same_place_allocate [unfolded same_place_def]
      split: if_splits bind_splits sum.splits prod.splits)

lemma same_place_compact: "run_compaction ops crc io e = Some (r, e') \<Longrightarrow> same_place e e'"
  by (auto simp: run_compaction_def Let_def same_place_def dest!: same_place_allocate [unfolded same_place_def]
      split: option.splits bind_splits sum.splits prod.splits)

lemma same_place_task:
  assumes "worker_task ops crc m e = Some (True, e')"
  shows "same_place e e'"
proof -
  obtain through e1 e2 e3 where f: "flush_build crc Snapshot_Ok m e = Some (Inr through, e1)" "flush_clear m e1 = (Inr (), e2)"
    "flush_reclaim crc through e2 = (Inr (), e3)" "maybe_compact ops crc Snapshot_Ok e3 = Some (Inr (), e')"
    using assms by (auto simp: worker_task_def split: option.splits sum.splits prod.splits)
  have "same_place e1 e2" "same_place e2 e3"
    using f(2,3) by (auto simp: flush_clear_def flush_reclaim_def same_place_def split: if_splits prod.splits sum.splits)
  moreover have "same_place e3 e'"
    using f(4) same_place_compact by (fastforce simp: maybe_compact_def same_place_def split: if_splits)
  ultimately show ?thesis using same_place_flush [OF f(1)] by (simp add: same_place_def)
qed

text \<open>What the worker does with a frozen memtable, where it is within the limits of its lemmas.\<close>

definition round_fits :: "crc_fn \<Rightarrow> memtable \<Rightarrow> engine \<Rightarrow> bool" where
  "round_fits crc m e \<longleftrightarrow>
     all_from (memtable_lookup m) (covered e) \<and> l0_trigger e \<noteq> 0 \<and> room 3 e \<and> list_all entry_fits (mtable m)
     \<and> table_volume crc e + length (mtable m) < 2 ^ 28"

definition worker_round :: "'h heap_ops \<Rightarrow> crc_fn \<Rightarrow> engine \<Rightarrow> engine option" where
  "worker_round ops crc e =
     (case immutable_memtable e of
        None \<Rightarrow> Some e
      | Some m \<Rightarrow>
          if round_fits crc m e
          then map_option snd (worker_task ops crc m (e\<lparr>flush_queue := (flush_queue e)\<lparr>tq_queue := []\<rparr>\<rparr>))
          else None)"

lemma worker_round_task:
  assumes "min_heap ops invar items" and "running_crc crc" and e: "store_ok crc e" and m: "immutable_memtable e = Some m"
    and lim: "round_fits crc m e"
  shows "\<exists>e'. worker_round ops crc e = Some e' \<and> store_ok crc e' \<and> logical_map crc e' = logical_map crc e
    \<and> shutting_down e' = shutting_down e \<and> background_error e' = background_error e"
proof -
  let ?e = "e\<lparr>flush_queue := (flush_queue e)\<lparr>tq_queue := []\<rparr>\<rparr>"
  have q: "store_ok crc ?e \<and> logical_map crc ?e = logical_map crc e" by (rule store_control [OF e]) simp_all
  then have inv: "engine_inv crc None ?e" by (simp add: store_ok_def)
  have "immutable_memtable ?e = Some m" "all_from (memtable_lookup m) (covered ?e)" "l0_trigger ?e \<noteq> 0" "room 3 ?e"
    "list_all entry_fits (mtable m)" "table_volume crc ?e + length (mtable m) < 2 ^ 28"
    using lim m by (simp_all add: round_fits_def covered_def room_def table_volume_def)
  from worker_task_ok [OF assms(1,2) inv this] obtain e' where
    e': "worker_task ops crc m ?e = Some (True, e')" "engine_inv crc None e'" "logical_map crc e' = logical_map crc ?e"
      "background_error e' = background_error ?e" by blast
  then show ?thesis
    using q e m lim same_place_task [OF e'(1)] by (simp add: worker_round_def store_ok_def same_place_def)
qed

lemma worker_round_keeps:
  assumes "min_heap ops invar items" and "running_crc crc"
  shows "keeps_store crc (worker_round ops crc)"
  unfolding keeps_store_def
proof (intro allI impI)
  fix e e'
  assume e: "store_ok crc e" and run: "worker_round ops crc e = Some e'"
  show "store_ok crc e' \<and> logical_map crc e' = logical_map crc e \<and> (shutting_down e \<longrightarrow> shutting_down e')"
  proof (cases "immutable_memtable e")
    case (Some m)
    then have "round_fits crc m e" using run by (simp add: worker_round_def split: if_splits)
    from worker_round_task [OF assms e Some this] run show ?thesis by auto
  qed (use run e in \<open>simp add: worker_round_def\<close>)
qed

section \<open>The benchmark program on the engine\<close>

text \<open>The program ends with a missing or a wrong value in no run.\<close>

lemma chronos_bench_engine:
  assumes "worked_ok crc s" and "valid_settings c" and "\<And>xs. mset (shuffle xs) = mset xs" and "operation_count config \<noteq> 0"
    and "chronos_bench (Inr s) (worked_reopen crc c) worked_shutdown (worked_put crc) (worked_get crc) shuffle now1 now2 config
      = Some (status, Inl err)"
  shows "status = 1 \<and> (\<exists>x. err = Store_Failed x)"
  by (rule bench.program_reads_succeed [OF assms(3,1,2,4,5)])

text \<open>C17: When the write benchmark of the program has returned and the engine has been shut down,
  whatever the worker did between the calls, opening the directory again succeeds and the read
  benchmark on it finds every key with its value and returns; the two may have shuffled the
  workload into different orders.\<close>

theorem benchmark_reads_succeed:
  assumes "worked_ok crc s" and "valid_settings c" and "operation_count config \<noteq> 0"
    and "\<And>xs. mset (shuffle1 xs) = mset xs" and "\<And>xs. mset (shuffle2 xs) = mset xs"
    and "run_write_benchmark (worked_put crc) shuffle1 now1 config s = Some (Inr res1, s1)"
    and "worked_shutdown s1 = Some (r, s2)"
  shows "\<exists>s3 res2 s4. worked_reopen crc c s2 = Inr s3
    \<and> run_read_benchmark (worked_get crc) shuffle2 now2 config s3 = (Inr res2, s4)"
proof -
  note s1 = bench.write_benchmark_fills [OF assms(4,1,6)]
  note s2 = bench.stop_ok [OF conjunct1 [OF s1] assms(7)]
  obtain s3 where s3: "worked_reopen crc c s2 = Inr s3" "worked_ok crc s3" "worked_map crc s3 = worked_map crc s2"
    using bench.reopen_ok [OF _ assms(2)] s2 by blast
  have "holds_workload config (worked_map crc s3)" using s1 s2 s3 by (simp add: holds_workload_def)
  from bench.read_benchmark_succeeds [OF assms(5) s3(2) this assms(3), of now2] s3(1) show ?thesis by blast
qed

text \<open>One operation of one byte, written, flushed by the worker during the shutdown and read back.\<close>

theorem benchmark_reads_succeed_witness:
  "\<exists>w s1 r s2 s3 res2 s4. run_write_benchmark (worked_put sum_crc) rev int \<lparr>operation_count = 1, value_size = 1\<rparr>
       (example_engine, worker_round list_heap sum_crc) = Some (Inr w, s1)
     \<and> worked_shutdown s1 = Some (r, s2) \<and> worked_reopen sum_crc (64, 4) s2 = Inr s3
     \<and> run_read_benchmark (worked_get sum_crc) rev int \<lparr>operation_count = 1, value_size = 1\<rparr> s3 = (Inr res2, s4)"
proof -
  let ?w = "worker_round list_heap sum_crc" and ?k = "workload_key 0" and ?c = "\<lparr>operation_count = 1, value_size = 1\<rparr>"
  have key: "length ?k = 5" by (simp add: workload_key_def decimal.simps)
  have "fits_record ?k [0x78]" by (simp add: fits_record_def key)
  note put = example_put_form [OF this]
  define m where "m = snd (memtable_write PUT ?k [0x78] 0 (memtable_new 1048576))"
  obtain w where run: "engine_put sum_crc Io_Complete ?k [0x78] example_engine
      = Some (Inr (), example_engine\<lparr>engine_wal := w, active_memtable := Some m\<rparr>)"
    using put(1) unfolding engine_put_def m_def by blast
  define e where "e = example_engine\<lparr>engine_wal := w, active_memtable := Some m\<rparr>"
  have "?w example_engine = Some example_engine" by (simp add: worker_round_def example_open)
  then have "worked_put sum_crc ?k [0x78] (example_engine, ?w) = Some (Inr (), (e, ?w))"
    by (simp add: worked_put_def run e_def)
  moreover have "generate_workload rev 1 1 = [(?k, [0x78])]" by (simp add: generate_workload_def)
  ultimately obtain res where wr: "run_write_benchmark (worked_put sum_crc) rev int ?c (example_engine, ?w) = Some (Inr res, (e, ?w))"
    by (simp add: run_write_benchmark_def)
  have st: "store_ok sum_crc example_engine" using example_new(2) example_open by (simp add: store_ok_def)
  have heap: "keeps_store sum_crc ?w" by (rule worker_round_keeps [OF lh.min_heap_axioms running_crc_sum_crc])
  have ok: "worked_ok sum_crc (example_engine, ?w)" using st heap by (simp add: worked_ok_def)
  have e_ok: "store_ok sum_crc e"
    using store_write [OF st run [unfolded engine_put_def]] by (simp add: e_def)
  let ?e1 = "e\<lparr>shutting_down := True\<rparr>"
  have e1: "store_ok sum_crc ?e1" using store_control [OF e_ok, of ?e1] by simp
  have mem: "memtable_freeze m = (True, frozen m)"
    using engine_invD(1) [of sum_crc None e] e_ok by (auto simp: store_ok_def e_def memory_ok_def memtable_freeze_def)
  let ?e3 = "?e1\<lparr>active_memtable := None, immutable_memtable := Some (frozen m),
      flush_queue := snd (tq_push (frozen m) tq_new)\<rparr>"
  have sched: "shutdown_schedule ?e1 = Some (Inr (), ?e3)"
    using mem put(3) by (simp add: shutdown_schedule_def e_def example_open m_def tq_push_def tq_new_def Let_def)
  have same: "engine_files ?e3 = engine_files example_engine" "live e = []" "l0_trigger ?e3 = 4" "covered ?e3 = 0"
    by (simp_all add: e_def example_engine_def covered_def)
  have "store_ok sum_crc ?e3" using store_schedule [OF e1 _ sched] by simp
  then have e4: "store_ok sum_crc (shutdown_close ?e3)"
    using store_control [of sum_crc ?e3 "shutdown_close ?e3"] by (simp add: shutdown_close_def)
  have "room 3 ?e3" "table_volume sum_crc ?e3 = 0" using example_room [of 3] by (simp_all add: room_def table_volume_def same)
  then have "round_fits sum_crc (frozen m) (shutdown_close ?e3)"
    using same put(2) by (simp add: round_fits_def shutdown_close_def all_from_def room_def table_volume_def covered_def entry_fits_def key m_def)
  from worker_round_task [OF lh.min_heap_axioms running_crc_sum_crc e4 _ this] obtain e5 where
    e5: "?w (shutdown_close ?e3) = Some e5" by (auto simp: shutdown_close_def)
  have "?w ?e1 = Some ?e1" by (simp add: worker_round_def e_def example_open)
  then have sh: "worked_shutdown (e, ?w) = Some (shutdown_report (Inr ()) e5, (e5, ?w))"
    using sched e5 by (simp add: worked_shutdown_def engine_shutdown_def shutdown_begin_def) (simp add: e_def example_open)
  have valid: "valid_settings (64, 4)" by (simp add: valid_settings_def memtable_bytes_from_config_def)
  have "mset (rev xs) = mset xs" for xs :: "(bytes \<times> bytes) list" by simp
  moreover have "operation_count ?c \<noteq> 0" by simp
  ultimately show ?thesis using benchmark_reads_succeed [OF ok valid _ _ _ wr sh, of rev int] wr sh by blast
qed

end
