(* ===== verification/Spec2Isabelle.thy ===== *)
theory Spec2Isabelle
  imports Wal_Properties Memtable Sstable_Properties Compaction_Policy Compaction_Properties Manifest_Properties Task_Queue
    Config Startup Wal_Reclaim_Properties Sstable_Publish Engine_Properties Engine_Guarantees Engine_Log_Faults
    Engine_Lifecycle Benchmark_Properties
begin

text \<open>
  A verification library for the Kronos storage engine, a log-structured merge tree in C++.

  The program. \<open>KronosEngine\<close> (src/src/engine.cpp) keeps a map from byte strings to byte strings. A
  \<open>put\<close> or \<open>remove\<close> is appended to the write-ahead log (src/src/wal.cpp) and then entered into the
  active memtable (src/src/memtable.cpp). A full memtable is frozen, moved to the single immutable
  slot and queued (include/kronos/thread_safe_queue.hpp); a background worker writes it as a sorted
  table (src/src/sstable.cpp, with src/src/bloom_filter.cpp and MurmurHash3), commits the table and
  the recovery checkpoint to the manifest (src/src/manifest.cpp), frees the slot, reclaims the log
  and merges tables when the policy asks for it (src/src/compaction_policy.cpp,
  src/src/compactor.cpp). A \<open>get\<close> looks into the active memtable, the frozen one and the live
  tables, through a cache of open readers. Opening replays the log above the checkpoint.

  The theories, from the bottom.

  Kronos_Prelude: machine integers, results, little-endian encoding with its \<open>codec\<close> interface,
  sorted association lists. Kronos_Types: include/kronos/types.hpp, all exceptions as \<open>kerror\<close>, path
  comparison. Double_Arithmetic: the binary64 numbers the code computes with, round to nearest even.
  Posix_Files: the loops around \<open>write\<close> and \<open>fsync\<close>, with what the operating system answers to each
  call as input. Store_Interface: what a client of the engine relies on, as two locales.

  Murmur_Hash, Bloom_Filter: the hash and the filter; interface \<open>approximate_set\<close>. A key that was
  added is always reported.

  Memtable: the ordered map with sequence numbers, its memory estimate with wrap-around,
  freezing; interface \<open>versioned_store\<close>.

  Wal, Wal_Recovery, Wal_Log, Wal_Properties: the file as bytes with the offset of the descriptor and
  the sequence allocator; appending with partial writes and failing \<open>fsync\<close>, recovery with repair of
  a torn tail, reclamation. Wal_Recovery is about the parser, Wal_Log about the invariant \<open>wal_ok\<close>
  that ties a file to its records, with the interface \<open>durable_log\<close>. Three failures the code does
  not handle are proved as such. Wal_Reclaim, Wal_Reclaim_Properties: creation and reclamation call by
  call, with the file at the path apart from the one behind the descriptor: no failure loses a
  record on disk, but one leaves the descriptor on a file without a name.

  Sstable_Format, Sstable_Builder, Sstable_Reader, Sstable_Table, Sstable_Properties: both halves of
  the table file at the level of bytes; interface \<open>sorted_table\<close>. What was added is found and
  iterated, and any successful lookup on an unknown file comes from a block with a correct checksum.
  Sstable_Publish: the temporary file and its publication, atomic whichever call fails.

  Compaction_Policy, Versions, Table_Cursor, Compactor, Compaction_Merge, Compaction_Properties: which
  files are merged, and the merge with \<open>std::priority_queue\<close> as a parameter that satisfies the
  locale \<open>min_heap\<close>; the iterator is a \<open>cursor\<close>. The output holds the newest version of every key,
  for every queue with the laws.

  Manifest, Manifest_Format, Manifest_Properties: the text file at the level of bytes, edits, and the
  replacement of the snapshot with each system call failing.

  Task_Queue: the queue between engine and worker; interface \<open>closable_queue\<close>. Config: the
  configuration file and its numbers. Startup: the logger and the start-up program src/src/main.cpp.

  Engine: the members of \<open>KronosEngine\<close> as the record \<open>engine\<close>, with the manifest and table files of
  the directory as a map from paths to contents and the log file inside the log's own state. Each
  critical section of the code is a definition; whole calls are composed of them as the code does. A
  section that waits for its condition is \<open>None\<close>.

  Engine_Inv: the invariant \<open>engine_inv\<close> and the abstract map \<open>logical_map\<close> (the newest version of a
  key over the three generations; a tombstone is no value). The invariant says that sequence numbers
  order the generations, that every live table holds sorted entries within its range, that the
  checkpoint separates what the tables hold from what only memory and log hold, and that replaying
  the log above the checkpoint gives the memory back. Engine_Phases (freezing, rotating, appending,
  inserting), Engine_Flush (reading, the log and the checkpoint), Engine_Commit (building and
  committing a table, clearing the slot, reclaiming), Engine_Compact: every section keeps the
  invariant and the map, or changes the map at one key. Engine_Restart: opening what is on disk
  gives the same map. Engine_Crash: so it does when a manifest write fails or the process dies in
  the middle of a flush or a compaction. Engine_Calls: whole calls. Engine_Properties: their
  properties, and the interpretation of the client's interface.

  Engine_Threads: the threads, interleaved at their critical sections: writers serialised by
  \<open>write_mutex_\<close>, the worker, one effective \<open>shutdown\<close>, any number of readers; program counters stand
  for what each thread is about to do and who holds \<open>write_mutex_\<close>. Engine_Interleaving: every step
  of every thread keeps the invariant. Engine_Scenario: concrete runs, with the run to a deadlock.
  Engine_Concurrency: frames, progress of a shutdown. Engine_System_Calls: the sections of the worker that
  write files, with their system calls. Engine_Faults: the same threads after a call of the worker has
  failed, for a table, the manifest or the log. Engine_Guarantees: what holds in every
  reachable state, what a crash at any moment leaves, that a concurrent \<open>get\<close> answers a value its key
  had during the call, where threads wait, that two of them can wait for each other for ever, and
  that a shutdown ends and drains the memory. Engine_Log_Faults: the failures of a reclamation seen
  from the engine, with the acknowledged write that one of them loses. Engine_Lifecycle: \<open>shutdown\<close> as
  one call, the destructor, the metrics.

  Benchmark, Benchmark_Properties: src/src/bench.cpp and src/tools/chronos_bench.cpp over a store with
  the interface \<open>benchmark_database\<close>, which the engine with its worker is: the reads find what the
  writes stored; and the percentiles are exact although their ranks are computed in doubles.

  Parameters and bounds. The CRC-32 of zlib is a parameter \<open>crc\<close>, of which \<open>running_crc\<close> states that
  it can be computed piecewise. The priority queue is a parameter with the laws of \<open>min_heap\<close>. Both are
  instantiated in the witnesses, by \<open>sum_crc\<close> and \<open>list_heap\<close>. The loop that looks for a free file name
  is a partial function, proved to end for fewer than $2^{64}$ files. Tables are proved to be written
  and read back when they hold fewer than $2^{28}$ entries and every entry fits a block of $2^{32}$
  bytes: then no offset exceeds $2^{63}$; \<open>within_limits\<close> states this of a state of the threads. A pair
  that the log accepts but a block does not is the subject of a property of its own. The percentiles
  are exact for fewer than $2^{44}$ samples. The loops around system calls are \<open>None\<close> only when the
  list of answers ends before they do; lemmas state which answers let them return.

  What is not modelled. Read errors, failures of \<open>lseek\<close>, \<open>ftruncate\<close> and of opening an existing
  file, memory exhaustion. In the interleaving every call of the worker that writes may fail, which
  ends the worker; a reclamation that cannot reopen the log is followed for one write, in
  Engine_Log_Faults, and is not a step of the interleaving. The appends to the log succeed there;
  their failures are inputs of the sequential definitions. Spurious wake-ups need no step: a woken
  thread examines its condition again. The memory model of C++ is that of data-race free programs.
  The clock, the local time and the shuffle of the workload are parameters; what the two programs
  print is modelled for main.cpp only. \<open>src/src/engine 2.cpp\<close> is an older copy that no build target
  compiles, and the files under src/build-tsan are generated by CMake. Of MurmurHash3, which is
  third-party code, only the 32-bit variant is called.
\<close>

end
